(* ===== verification/Rpc_Prelude.thy ===== *)
theory Rpc_Prelude
  imports Main "HOL-Library.Word" "HOL-Library.Monad_Syntax"
begin

unbundle bit_operations_syntax

text \<open>
  Shared vocabulary of the development: the machine integers and byte buffers of
  \<^verbatim>\<open>rpc/data_types.h\<close>, the ways in which the C++ process can stop (\<open>fault\<close>), the
  result type every fallible operation returns, host byte order, and the generic lemmas
  on words, lists and results that the component theories use.
\<close>

section \<open>Machine types\<close>

type_synonym byte = "8 word"
type_synonym u32 = "32 word"
type_synonym i32 = "32 word"
type_synonym u64 = "64 word"

section \<open>Faults and results\<close>

text \<open>
  A glog \<^verbatim>\<open>CHECK\<close> that fails, \<^verbatim>\<open>LOG(FATAL)\<close>, an uncaught C++ exception and undefined
  behaviour (a null or dangling pointer, an access outside an array) all end the process;
  they are kept apart because the theorems say which of them a run can meet.
\<close>

datatype fault =
    Check_failed
  | Log_fatal
  | Out_of_range
  | Null_pointer
  | Dangling_pointer
  | Blocked_forever

type_synonym 'a result = "fault + 'a"

definition bind_result :: "'a result \<Rightarrow> ('a \<Rightarrow> 'b result) \<Rightarrow> 'b result" where
  "bind_result m k = (case m of Inl f \<Rightarrow> Inl f | Inr x \<Rightarrow> k x)"

definition CHECK :: "bool \<Rightarrow> 'a result \<Rightarrow> 'a result" where
  "CHECK b k = (if b then k else Inl Check_failed)"

named_theorems result_simps \<open>evaluation of results\<close>

lemma bind_result_simps [simp, result_simps]:
  "bind_result (Inl f) k = Inl f"
  "bind_result (Inr x) k = k x"
  by (simp_all add: bind_result_def)

lemma CHECK_simps [simp, result_simps]:
  "CHECK True k = k"
  "CHECK False k = Inl Check_failed"
  by (simp_all add: CHECK_def)

lemma bind_result_eq_Inr [result_simps]:
  "bind_result m k = Inr y \<longleftrightarrow> (\<exists>x. m = Inr x \<and> k x = Inr y)"
  by (cases m) auto

lemma CHECK_eq_Inr [result_simps]: "CHECK b k = Inr y \<longleftrightarrow> b \<and> k = Inr y"
  by (cases b) auto

lemma bind_result_CHECK: "bind_result (CHECK b m) k = CHECK b (bind_result m k)"
  by (cases b) auto

lemma CHECK_split: "P (CHECK b k) \<longleftrightarrow> (b \<longrightarrow> P k) \<and> (\<not> b \<longrightarrow> P (Inl Check_failed))"
  by (cases b) auto

lemma bind_result_assoc:
  "bind_result (bind_result m k) l = bind_result m (\<lambda>x. bind_result (k x) l)"
  by (cases m) auto

section \<open>Pointers\<close>

text \<open>
  A pointer to an object that one holder uses: null, to a live object, or to one that was
  deleted while the pointer was kept.
\<close>

datatype 'a pointer = Null | Live 'a | Freed

definition deref :: "'a pointer \<Rightarrow> 'a result" where
  "deref p = (case p of Null \<Rightarrow> Inl Null_pointer | Live x \<Rightarrow> Inr x | Freed \<Rightarrow> Inl Dangling_pointer)"

lemma deref_simps [simp, result_simps]:
  "deref Null = Inl Null_pointer" "deref (Live x) = Inr x" "deref Freed = Inl Dangling_pointer"
  by (simp_all add: deref_def)

section \<open>Host byte order\<close>

text \<open>
  The supported hosts are little endian (\<^verbatim>\<open>WORDS_BIGENDIAN\<close> is never defined by the
  build): \<open>le_word\<close> is what an unaligned load of the bytes yields, \<open>le_bytes\<close> what a
  store writes.
\<close>

primrec le_word :: "byte list \<Rightarrow> 'a::len word" where
  "le_word [] = 0"
| "le_word (b # bs) = ucast b + 256 * le_word bs"

primrec le_bytes :: "nat \<Rightarrow> 'a::len word \<Rightarrow> byte list" where
  "le_bytes 0 w = []"
| "le_bytes (Suc n) w = ucast w # le_bytes n (drop_bit 8 w)"

text \<open>The number a little-endian byte string denotes.\<close>

primrec le_nat :: "byte list \<Rightarrow> nat" where
  "le_nat [] = 0"
| "le_nat (b # bs) = unat b + 256 * le_nat bs"

definition bswap_32 :: "u32 \<Rightarrow> u32" where
  "bswap_32 w = le_word (rev (le_bytes 4 w))"

definition bswap_64 :: "u64 \<Rightarrow> u64" where
  "bswap_64 w = le_word (rev (le_bytes 8 w))"

text \<open>On a little-endian host \<^verbatim>\<open>htonl\<close> and \<^verbatim>\<open>ntohl\<close> swap the four bytes.\<close>

definition htonl :: "u32 \<Rightarrow> u32" where "htonl w = bswap_32 w"
definition ntohl :: "u32 \<Rightarrow> u32" where "ntohl w = bswap_32 w"

section \<open>Lemmas on words and bytes\<close>

lemma length_le_bytes [simp]: "length (le_bytes n w) = n"
  by (induction n arbitrary: w) auto

lemma push_bit_8_word: "256 * (w :: 'a::len word) = push_bit 8 w"
  by (simp add: push_bit_eq_mult)

lemma take_bit_split_word:
  fixes w :: "'a::len word"
  shows "take_bit 8 w + push_bit 8 (take_bit n (drop_bit 8 w)) = take_bit (8 + n) w"
proof -
  have "take_bit 8 w AND push_bit 8 (take_bit n (drop_bit 8 w)) = 0"
    by (rule bit_eqI) (auto simp: bit_simps)
  then have "take_bit 8 w + push_bit 8 (take_bit n (drop_bit 8 w))
      = take_bit 8 w OR push_bit 8 (take_bit n (drop_bit 8 w))"
    by (rule disjunctive_add_eq_or)
  also have "\<dots> = take_bit (8 + n) w"
    by (rule bit_eqI) (auto simp: bit_simps)
  finally show ?thesis .
qed

lemma ucast_ucast_byte: "ucast (ucast (w :: 'a::len word) :: byte) = (take_bit 8 w :: 'a word)"
  by (rule bit_eqI) (auto simp: bit_simps)

lemma le_word_le_bytes: "le_word (le_bytes n w) = take_bit (8 * n) (w :: 'a::len word)"
proof (induction n arbitrary: w)
  case 0
  show ?case by simp
next
  case (Suc n)
  show ?case
    using take_bit_split_word [of w "8 * n"]
    by (simp add: Suc.IH push_bit_8_word ucast_ucast_byte)
qed

lemma unat_of_nat_u32: "n < 2 ^ 32 \<Longrightarrow> unat (of_nat n :: u32) = n"
  by (simp add: unat_of_nat)

lemma less_inc_word: "(w :: 'a::len word) \<noteq> - 1 \<Longrightarrow> w < w + 1"
  using inc_less_eq_self_iff_eq [of w] by (simp add: not_le [symmetric])

lemma word_bits_iff: "(v :: 'a::len word) = w \<longleftrightarrow> (\<forall>k. bit v k \<longleftrightarrow> bit w k)"
  by (auto intro: bit_eqI)

lemma take_bit_len_word: "LENGTH('a) \<le> n \<Longrightarrow> take_bit n (w :: 'a::len word) = w"
  by (rule bit_eqI) (auto simp: bit_simps dest: bit_imp_le_length)

lemma le_word_le_bytes_id: "LENGTH('a) \<le> 8 * n \<Longrightarrow> le_word (le_bytes n w) = (w :: 'a::len word)"
  by (simp add: le_word_le_bytes take_bit_len_word)

lemma le_nat_bound: "le_nat bs < 256 ^ length bs"
proof (induction bs)
  case (Cons b bs)
  have "unat b < 256" using unsigned_less [of b, where ?'a = nat] by simp
  then have "unat b + 256 * le_nat bs < 256 * (le_nat bs + 1)" by simp
  also have "\<dots> \<le> 256 * 256 ^ length bs" using Cons by (intro mult_le_mono2) simp
  finally show ?case by simp
qed simp

lemma le_word_of_nat: "le_word bs = of_nat (le_nat bs)"
  by (induction bs) simp_all

lemma le_bytes_of_nat:
  "length bs = n \<Longrightarrow> 8 * n \<le> LENGTH('a) \<Longrightarrow> le_bytes n (le_word bs :: 'a::len word) = bs"
proof (induction bs arbitrary: n)
  case (Cons b bs)
  then obtain k where n: "n = Suc k" "length bs = k" by auto
  have "le_nat (b # bs) < 256 ^ n" using le_nat_bound [of "b # bs"] n by simp
  also have "(256::nat) ^ n = 2 ^ (8 * n)" by (simp add: power_mult)
  also have "\<dots> \<le> 2 ^ LENGTH('a)" using Cons.prems by simp
  finally have lt: "le_nat (b # bs) < 2 ^ LENGTH('a)" .
  have "le_nat bs < 2 ^ LENGTH('a)" using lt by simp
  have u: "unat (le_word (b # bs) :: 'a word) = le_nat (b # bs)"
    using lt unfolding le_word_of_nat by (simp add: unat_of_nat del: of_nat_add of_nat_mult le_nat.simps)
  then have "unat (drop_bit 8 (le_word (b # bs) :: 'a word)) = le_nat bs"
    using unsigned_less [of b, where ?'a = nat]
    by (simp only: unat_drop_bit_eq) (simp add: drop_bit_eq_div)
  also have "\<dots> = unat (le_word bs :: 'a word)"
    using \<open>le_nat bs < 2 ^ LENGTH('a)\<close> by (simp add: le_word_of_nat unat_of_nat)
  finally have "drop_bit 8 (le_word (b # bs) :: 'a word) = le_word bs"
    by (simp only: word_unat_eq_iff)
  moreover have "(ucast (le_word (b # bs) :: 'a word) :: byte) = b"
    using u unsigned_less [of b, where ?'a = nat]
    by (simp add: word_unat_eq_iff unsigned_ucast_eq take_bit_eq_mod del: le_word.simps)
  ultimately show ?case using Cons n by simp
qed simp

lemma bswap_32_bswap_32 [simp]: "bswap_32 (bswap_32 w) = w"
  unfolding bswap_32_def by (simp add: le_bytes_of_nat le_word_le_bytes_id)

lemma bswap_64_bswap_64 [simp]: "bswap_64 (bswap_64 w) = w"
  unfolding bswap_64_def by (simp add: le_bytes_of_nat le_word_le_bytes_id)

lemma ntohl_htonl [simp]: "ntohl (htonl w) = w"
  by (simp add: ntohl_def htonl_def)

subsection \<open>Counting with a signed 32-bit integer\<close>

lemma unat_i32_less: "unat (v :: i32) < 2 ^ 32"
  using unsigned_less [of v, where ?'a = nat] by simp

lemma sint_i32: "sint (v :: i32) = (if unat v < 2 ^ 31 then int (unat v) else int (unat v) - 2 ^ 32)"
proof -
  have s: "sint v = (int (unat v) + 2 ^ 31) mod 2 ^ 32 - 2 ^ 31"
    by (simp add: sint_uint signed_take_bit_eq_take_bit_shift take_bit_eq_mod)
  show ?thesis
  proof (cases "unat v < 2 ^ 31")
    case False
    then have "0 \<le> int (unat v) - 2 ^ 31" "int (unat v) - 2 ^ 31 < 2 ^ 32" using unat_i32_less [of v] by (simp_all del: of_nat_unat)
    then have "(int (unat v) - 2 ^ 31 + 2 ^ 32) mod 2 ^ 32 = int (unat v) - 2 ^ 31"
      by (simp only: mod_add_self2 mod_pos_pos_trivial)
    with False s show ?thesis by (simp add: add.commute)
  qed (use s in \<open>simp del: of_nat_unat\<close>)
qed

lemma sint_Suc_i32: "unat (v :: i32) < 2 ^ 31 - 1 \<Longrightarrow> sint (v + 1) = sint v + 1 \<and> unat (v + 1) = unat v + 1"
  using unat_add_lem [of v 1] by (simp add: sint_i32 del: of_nat_unat)

lemma sint_pred_i32:
  assumes "0 < sint (v :: i32)"
  shows "sint (v - 1) = sint v - 1 \<and> unat (v - 1) = unat v - 1 \<and> 0 < unat v"
proof -
  have "v \<noteq> 0" using assms by auto
  then have "unat (v - 1) = unat v - 1" "unat v \<noteq> 0" by (auto simp: unat_minus_one unat_eq_zero)
  moreover have "unat v < 2 ^ 31"
    using assms unat_i32_less [of v] by (simp add: sint_i32 del: of_nat_unat split: if_splits)
  ultimately show ?thesis by (simp add: sint_i32 del: of_nat_unat)
qed
subsection \<open>Injective mixing steps\<close>

lemma xor_right_inj: "q XOR x = q XOR y \<Longrightarrow> x = (y :: 'a::len word)"
  by (metis xor.assoc xor_self_eq xor.left_neutral)

lemma xor_left_inj: "x XOR q = y XOR q \<Longrightarrow> x = (y :: 'a::len word)"
  by (metis xor.assoc xor_self_eq xor.right_neutral)

lemma xor_shift_inj:
  fixes x y :: "'a::len word"
  assumes "0 < k" "x XOR drop_bit k x = y XOR drop_bit k y"
  shows "x = y"
proof -
  define z where "z = x XOR y"
  have "x XOR y = drop_bit k x XOR drop_bit k y"
    by (metis (no_types, lifting) assms(2) xor.assoc xor.commute xor_self_eq xor.left_neutral)
  then have eq: "z = drop_bit k z" using drop_bit_xor [of k x y] z_def by metis
  have "\<not> bit z n" for n
  proof (induction "LENGTH('a) - n" arbitrary: n rule: less_induct)
    case less
    show ?case
    proof (cases "n < LENGTH('a)")
      case True
      then have "\<not> bit z (k + n)" using less [of "k + n"] assms(1) by simp
      then show ?thesis using eq by (metis bit_drop_bit_eq comp_apply)
    next
      case False
      then show ?thesis using bit_imp_le_length by auto
    qed
  qed
  then show ?thesis by (auto simp: z_def bit_eq_iff bit_xor_iff)
qed

lemma mult_unit_inj:
  fixes x y :: "'a::comm_ring_1"
  assumes "c * d = 1" "x * c = y * c"
  shows "x = y"
  by (metis assms mult.assoc mult.right_neutral)

section \<open>Numbers of calls and parts of lists\<close>

lemma unat_of_nat_u64: "j < 2 ^ 64 \<Longrightarrow> unat (of_nat j :: u64) = j"
  by (simp add: unat_of_nat take_bit_nat_eq_self)

lemma of_nat_u64_inject: "i < 2 ^ 64 \<Longrightarrow> j < 2 ^ 64 \<Longrightarrow> (of_nat i :: u64) = of_nat j \<longleftrightarrow> i = j"
  by (metis unat_of_nat_u64)

lemma take_prefix:
  assumes "xs = take (length xs) ys"
  shows "length xs \<le> length ys" "i < length xs \<Longrightarrow> xs ! i = ys ! i"
proof -
  show "length xs \<le> length ys" using arg_cong [OF assms, of length] by (simp add: min_def split: if_splits)
  show "xs ! i = ys ! i" if "i < length xs" using arg_cong [OF assms, of "\<lambda>l. l ! i"] that by simp
qed

lemma distinct_append_notin: "distinct (xs @ ys) \<Longrightarrow> y \<in> set ys \<Longrightarrow> y \<notin> set xs"
  by auto

end
