(* ===== verification/City_Hash.thy ===== *)
theory City_Hash
  imports Rpc_Prelude
begin

text \<open>
  The hash functions of \<^verbatim>\<open>rpc/detail/city.cc\<close> and \<^verbatim>\<open>rpc/detail/city.h\<close>; \<^verbatim>\<open>CityHash32\<close> names
  the services on the wire (\<^verbatim>\<open>GetServiceID\<close> in \<^verbatim>\<open>rpc/detail/helper.h\<close>).

  A \<^verbatim>\<open>const char*\<close> is an offset (an \<open>int\<close>, so that pointer arithmetic cannot saturate) into
  a byte buffer, and a load outside the buffer has no value (\<open>None\<close>): a hash that returns
  \<open>Some\<close> has read only bytes of the buffer. A \<^verbatim>\<open>size_t\<close> length is a \<open>nat\<close>; the words keep
  their width.
\<close>

section \<open>Loads, constants and mixers\<close>

text \<open>
  \<^verbatim>\<open>memcpy\<close> into a word reads the bytes in the order of the host. The macros
  \<^verbatim>\<open>uint32_in_expected_order\<close> and \<^verbatim>\<open>uint64_in_expected_order\<close> swap them on a big-endian host; the build does
  not define \<^verbatim>\<open>WORDS_BIGENDIAN\<close>, so that \<open>host\<close> is the order the hashes below are compiled for, and
  \<open>Fetch_byte_order\<close> shows that the other order gives the same values.
\<close>

datatype byte_order = Little_endian | Big_endian

definition host :: byte_order where "host = Little_endian"

definition host_word :: "byte_order \<Rightarrow> byte list \<Rightarrow> 'a::len word" where
  "host_word order bs = (case order of Little_endian \<Rightarrow> le_word bs | Big_endian \<Rightarrow> le_word (rev bs))"

definition UNALIGNED_LOAD64 :: "byte_order \<Rightarrow> byte list \<Rightarrow> int \<Rightarrow> u64 option" where
  "UNALIGNED_LOAD64 order buf p =
     (if 0 \<le> p \<and> p + 8 \<le> int (length buf)
      then Some (host_word order (take 8 (drop (nat p) buf))) else None)"

definition UNALIGNED_LOAD32 :: "byte_order \<Rightarrow> byte list \<Rightarrow> int \<Rightarrow> u32 option" where
  "UNALIGNED_LOAD32 order buf p =
     (if 0 \<le> p \<and> p + 4 \<le> int (length buf)
      then Some (host_word order (take 4 (drop (nat p) buf))) else None)"

definition uint32_in_expected_order :: "byte_order \<Rightarrow> u32 \<Rightarrow> u32" where
  "uint32_in_expected_order order x = (case order of Big_endian \<Rightarrow> bswap_32 x | Little_endian \<Rightarrow> x)"

definition uint64_in_expected_order :: "byte_order \<Rightarrow> u64 \<Rightarrow> u64" where
  "uint64_in_expected_order order x = (case order of Big_endian \<Rightarrow> bswap_64 x | Little_endian \<Rightarrow> x)"

definition load_char :: "byte list \<Rightarrow> int \<Rightarrow> byte option" where
  "load_char buf p = (if 0 \<le> p \<and> p < int (length buf) then Some (buf ! nat p) else None)"

definition Fetch64 :: "byte list \<Rightarrow> int \<Rightarrow> u64 option" where
  "Fetch64 buf p = map_option (uint64_in_expected_order host) (UNALIGNED_LOAD64 host buf p)"

definition Fetch32 :: "byte list \<Rightarrow> int \<Rightarrow> u32 option" where
  "Fetch32 buf p = map_option (uint32_in_expected_order host) (UNALIGNED_LOAD32 host buf p)"

definition k0 :: u64 where "k0 = 0xc3a5c85c97cb3127"
definition k1 :: u64 where "k1 = 0xb492b66fbe98f273"
definition k2 :: u64 where "k2 = 0x9ae16a3b2f90404f"
definition c1 :: u32 where "c1 = 0xcc9e2d51"
definition c2 :: u32 where "c2 = 0x1b873593"

definition fmix :: "u32 \<Rightarrow> u32" where
  "fmix h =
     (let h = h XOR drop_bit 16 h;
          h = h * 0x85ebca6b;
          h = h XOR drop_bit 13 h;
          h = h * 0xc2b2ae35;
          h = h XOR drop_bit 16 h
      in h)"

definition Rotate32 :: "u32 \<Rightarrow> nat \<Rightarrow> u32" where
  "Rotate32 val shift =
     (if shift = 0 then val else drop_bit shift val OR push_bit (32 - shift) val)"

definition PERMUTE3 :: "'a \<Rightarrow> 'a \<Rightarrow> 'a \<Rightarrow> 'a \<times> 'a \<times> 'a" where
  "PERMUTE3 a b c = (let (a, b) = (b, a); (a, c) = (c, a) in (a, b, c))"

definition Mur :: "u32 \<Rightarrow> u32 \<Rightarrow> u32" where
  "Mur a h =
     (let a = a * c1;
          a = Rotate32 a 17;
          a = a * c2;
          h = h XOR a;
          h = Rotate32 h 19
      in h * 5 + 0xe6546b64)"

section \<open>32-bit hashing\<close>

definition Hash32Len13to24 :: "byte list \<Rightarrow> int \<Rightarrow> nat \<Rightarrow> u32 option" where
  "Hash32Len13to24 buf s len = do {
     a \<leftarrow> Fetch32 buf (s - 4 + int (len div 2));
     b \<leftarrow> Fetch32 buf (s + 4);
     c \<leftarrow> Fetch32 buf (s + int len - 8);
     d \<leftarrow> Fetch32 buf (s + int (len div 2));
     e \<leftarrow> Fetch32 buf s;
     f \<leftarrow> Fetch32 buf (s + int len - 4);
     let h = of_nat len;
     Some (fmix (Mur f (Mur e (Mur d (Mur c (Mur b (Mur a h)))))))
   }"

function Hash32Len0to4_loop :: "byte list \<Rightarrow> int \<Rightarrow> nat \<Rightarrow> nat \<Rightarrow> u32 \<Rightarrow> u32 \<Rightarrow> (u32 \<times> u32) option" where
  "Hash32Len0to4_loop buf s len i b c =
     (if i < len then do {
        v \<leftarrow> load_char buf (s + int i);
        let b = b * c1 + scast v;
        let c = c XOR b;
        Hash32Len0to4_loop buf s len (i + 1) b c
      } else Some (b, c))"
  by pat_completeness auto
termination
  by (relation "measure (\<lambda>(buf, s, len, i, b, c). len - i)") auto

definition Hash32Len0to4 :: "byte list \<Rightarrow> int \<Rightarrow> nat \<Rightarrow> u32 option" where
  "Hash32Len0to4 buf s len = do {
     (b, c) \<leftarrow> Hash32Len0to4_loop buf s len 0 0 9;
     Some (fmix (Mur b (Mur (of_nat len) c)))
   }"

definition Hash32Len5to12 :: "byte list \<Rightarrow> int \<Rightarrow> nat \<Rightarrow> u32 option" where
  "Hash32Len5to12 buf s len = do {
     let a = of_nat len;
     let b = of_nat (len * 5);
     let c = 9;
     let d = b;
     x \<leftarrow> Fetch32 buf s;
     let a = a + x;
     y \<leftarrow> Fetch32 buf (s + int len - 4);
     let b = b + y;
     z \<leftarrow> Fetch32 buf (s + int (len div 2 AND 4));
     let c = c + z;
     Some (fmix (Mur c (Mur b (Mur a d))))
   }"

text \<open>
  The two mixing steps written out over and over in \<^verbatim>\<open>CityHash32\<close>: loading a word of the
  key, and folding a value into an accumulator.
\<close>

definition city32_key :: "u32 \<Rightarrow> u32" where
  "city32_key x = Rotate32 (x * c1) 17 * c2"

definition city32_mix :: "u32 \<Rightarrow> nat \<Rightarrow> u32" where
  "city32_mix h shift = Rotate32 h shift * 5 + 0xe6546b64"

fun CityHash32_loop ::
  "byte list \<Rightarrow> int \<Rightarrow> nat \<Rightarrow> u32 \<Rightarrow> u32 \<Rightarrow> u32 \<Rightarrow> (u32 \<times> u32 \<times> u32) option" where
  "CityHash32_loop buf s iters f g h = do {
     x0 \<leftarrow> Fetch32 buf s;
     let a0 = city32_key x0;
     a1 \<leftarrow> Fetch32 buf (s + 4);
     x2 \<leftarrow> Fetch32 buf (s + 8);
     let a2 = city32_key x2;
     x3 \<leftarrow> Fetch32 buf (s + 12);
     let a3 = city32_key x3;
     a4 \<leftarrow> Fetch32 buf (s + 16);
     let h = city32_mix (h XOR a0) 18;
     let f = f + a1;
     let f = Rotate32 f 19;
     let f = f * c1;
     let g = city32_mix (g + a2) 18;
     let h = city32_mix (h XOR (a3 + a1)) 19;
     let g = g XOR a4;
     let g = bswap_32 g * 5;
     let h = h + a4 * 5;
     let h = bswap_32 h;
     let f = f + a0;
     let (f, h, g) = PERMUTE3 f h g;
     if iters - 1 \<noteq> 0 then CityHash32_loop buf (s + 20) (iters - 1) f g h
     else Some (f, g, h)
   }"

declare Hash32Len0to4_loop.simps [simp del]
declare CityHash32_loop.simps [simp del]

definition CityHash32 :: "byte list \<Rightarrow> int \<Rightarrow> nat \<Rightarrow> u32 option" where
  "CityHash32 buf s len =
     (if len \<le> 24 then
        (if len \<le> 12 then
           (if len \<le> 4 then Hash32Len0to4 buf s len else Hash32Len5to12 buf s len)
         else Hash32Len13to24 buf s len)
      else do {
        let h = of_nat len;
        let g = c1 * of_nat len;
        let f = g;
        x0 \<leftarrow> Fetch32 buf (s + int len - 4);
        let a0 = city32_key x0;
        x1 \<leftarrow> Fetch32 buf (s + int len - 8);
        let a1 = city32_key x1;
        x2 \<leftarrow> Fetch32 buf (s + int len - 16);
        let a2 = city32_key x2;
        x3 \<leftarrow> Fetch32 buf (s + int len - 12);
        let a3 = city32_key x3;
        x4 \<leftarrow> Fetch32 buf (s + int len - 20);
        let a4 = city32_key x4;
        let h = city32_mix (h XOR a0) 19;
        let h = city32_mix (h XOR a2) 19;
        let g = city32_mix (g XOR a1) 19;
        let g = city32_mix (g XOR a3) 19;
        let f = city32_mix (f + a4) 19;
        (f, g, h) \<leftarrow> CityHash32_loop buf s ((len - 1) div 20) f g h;
        let g = Rotate32 g 11 * c1;
        let g = Rotate32 g 17 * c1;
        let f = Rotate32 f 11 * c1;
        let f = Rotate32 f 17 * c1;
        let h = city32_mix (h + g) 19;
        let h = Rotate32 h 17 * c1;
        let h = city32_mix (h + f) 19;
        let h = Rotate32 h 17 * c1;
        Some h
      })"

section \<open>64-bit hashing\<close>

definition Uint128Low64 :: "u64 \<times> u64 \<Rightarrow> u64" where "Uint128Low64 x = fst x"
definition Uint128High64 :: "u64 \<times> u64 \<Rightarrow> u64" where "Uint128High64 x = snd x"

definition Hash128to64 :: "u64 \<times> u64 \<Rightarrow> u64" where
  "Hash128to64 x =
     (let kMul = 0x9ddfea08eb382d69;
          a = (Uint128Low64 x XOR Uint128High64 x) * kMul;
          a = a XOR drop_bit 47 a;
          b = (Uint128High64 x XOR a) * kMul;
          b = b XOR drop_bit 47 b;
          b = b * kMul
      in b)"

definition Rotate :: "u64 \<Rightarrow> nat \<Rightarrow> u64" where
  "Rotate val shift =
     (if shift = 0 then val else drop_bit shift val OR push_bit (64 - shift) val)"

definition ShiftMix :: "u64 \<Rightarrow> u64" where
  "ShiftMix val = val XOR drop_bit 47 val"

definition HashLen16 :: "u64 \<Rightarrow> u64 \<Rightarrow> u64" where
  "HashLen16 u v = Hash128to64 (u, v)"

definition HashLen16_mul :: "u64 \<Rightarrow> u64 \<Rightarrow> u64 \<Rightarrow> u64" where
  "HashLen16_mul u v mul =
     (let a = (u XOR v) * mul;
          a = a XOR drop_bit 47 a;
          b = (v XOR a) * mul;
          b = b XOR drop_bit 47 b;
          b = b * mul
      in b)"

definition HashLen0to16 :: "byte list \<Rightarrow> int \<Rightarrow> nat \<Rightarrow> u64 option" where
  "HashLen0to16 buf s len =
     (if len \<ge> 8 then do {
        let mul = k2 + of_nat len * 2;
        x \<leftarrow> Fetch64 buf s;
        let a = x + k2;
        b \<leftarrow> Fetch64 buf (s + int len - 8);
        let c = Rotate b 37 * mul + a;
        let d = (Rotate a 25 + b) * mul;
        Some (HashLen16_mul c d mul)
      } else if len \<ge> 4 then do {
        let mul = k2 + of_nat len * 2;
        x \<leftarrow> Fetch32 buf s;
        let a = (ucast x :: u64);
        y \<leftarrow> Fetch32 buf (s + int len - 4);
        Some (HashLen16_mul (of_nat len + push_bit 3 a) (ucast y) mul)
      } else if len > 0 then do {
        a \<leftarrow> load_char buf s;
        b \<leftarrow> load_char buf (s + int (len div 2));
        c \<leftarrow> load_char buf (s + int len - 1);
        let y = (ucast a :: u32) + push_bit 8 (ucast b);
        let z = (of_nat len :: u32) + push_bit 2 (ucast c);
        Some (ShiftMix (ucast y * k2 XOR ucast z * k0) * k2)
      } else Some k2)"

definition HashLen17to32 :: "byte list \<Rightarrow> int \<Rightarrow> nat \<Rightarrow> u64 option" where
  "HashLen17to32 buf s len = do {
     let mul = k2 + of_nat len * 2;
     x \<leftarrow> Fetch64 buf s;
     let a = x * k1;
     b \<leftarrow> Fetch64 buf (s + 8);
     y \<leftarrow> Fetch64 buf (s + int len - 8);
     let c = y * mul;
     z \<leftarrow> Fetch64 buf (s + int len - 16);
     let d = z * k2;
     Some (HashLen16_mul (Rotate (a + b) 43 + Rotate c 30 + d) (a + Rotate (b + k2) 18 + c) mul)
   }"

definition WeakHashLen32WithSeeds_words ::
  "u64 \<Rightarrow> u64 \<Rightarrow> u64 \<Rightarrow> u64 \<Rightarrow> u64 \<Rightarrow> u64 \<Rightarrow> u64 \<times> u64" where
  "WeakHashLen32WithSeeds_words w x y z a b =
     (let a = a + w;
          b = Rotate (b + a + z) 21;
          c = a;
          a = a + x;
          a = a + y;
          b = b + Rotate a 44
      in (a + z, b + c))"

definition WeakHashLen32WithSeeds :: "byte list \<Rightarrow> int \<Rightarrow> u64 \<Rightarrow> u64 \<Rightarrow> (u64 \<times> u64) option" where
  "WeakHashLen32WithSeeds buf s a b = do {
     w \<leftarrow> Fetch64 buf s;
     x \<leftarrow> Fetch64 buf (s + 8);
     y \<leftarrow> Fetch64 buf (s + 16);
     z \<leftarrow> Fetch64 buf (s + 24);
     Some (WeakHashLen32WithSeeds_words w x y z a b)
   }"

definition HashLen33to64 :: "byte list \<Rightarrow> int \<Rightarrow> nat \<Rightarrow> u64 option" where
  "HashLen33to64 buf s len = do {
     let mul = k2 + of_nat len * 2;
     x0 \<leftarrow> Fetch64 buf s;
     let a = x0 * k2;
     b \<leftarrow> Fetch64 buf (s + 8);
     c \<leftarrow> Fetch64 buf (s + int len - 24);
     d \<leftarrow> Fetch64 buf (s + int len - 32);
     x1 \<leftarrow> Fetch64 buf (s + 16);
     let e = x1 * k2;
     x2 \<leftarrow> Fetch64 buf (s + 24);
     let f = x2 * 9;
     g \<leftarrow> Fetch64 buf (s + int len - 8);
     x3 \<leftarrow> Fetch64 buf (s + int len - 16);
     let h = x3 * mul;
     let u = Rotate (a + g) 43 + (Rotate b 30 + c) * 9;
     let v = ((a + g) XOR d) + f + 1;
     let w = bswap_64 ((u + v) * mul) + h;
     let x = Rotate (e + f) 42 + c;
     let y = (bswap_64 ((v + w) * mul) + g) * mul;
     let z = e + f + c;
     let a = bswap_64 ((x + z) * mul + y) + b;
     let b = ShiftMix ((z + a) * mul + d + h) * mul;
     Some (b + x)
   }"

text \<open>
  The 56 bytes of state \<open>v, w, x, y, z\<close> and one 64-byte round over it, as the body of the
  \<^verbatim>\<open>do\<close> loop of \<^verbatim>\<open>CityHash64\<close> has it.
\<close>

record city_state =
  v_first :: u64
  v_second :: u64
  w_first :: u64
  w_second :: u64
  st_x :: u64
  st_y :: u64
  st_z :: u64

definition CityHash64_round :: "byte list \<Rightarrow> int \<Rightarrow> city_state \<Rightarrow> city_state option" where
  "CityHash64_round buf s st = do {
     f8 \<leftarrow> Fetch64 buf (s + 8);
     let x = Rotate (st_x st + st_y st + v_first st + f8) 37 * k1;
     f48 \<leftarrow> Fetch64 buf (s + 48);
     let y = Rotate (st_y st + v_second st + f48) 42 * k1;
     let x = x XOR w_second st;
     f40 \<leftarrow> Fetch64 buf (s + 40);
     let y = y + (v_first st + f40);
     let z = Rotate (st_z st + w_first st) 33 * k1;
     v \<leftarrow> WeakHashLen32WithSeeds buf s (v_second st * k1) (x + w_first st);
     f16 \<leftarrow> Fetch64 buf (s + 16);
     w \<leftarrow> WeakHashLen32WithSeeds buf (s + 32) (z + w_second st) (y + f16);
     let (z, x) = (x, z);
     Some \<lparr>v_first = fst v, v_second = snd v, w_first = fst w, w_second = snd w, st_x = x, st_y = y, st_z = z\<rparr>
   }"

function CityHash64_loop :: "byte list \<Rightarrow> int \<Rightarrow> nat \<Rightarrow> city_state \<Rightarrow> city_state option" where
  "CityHash64_loop buf s len st = do {
     st \<leftarrow> CityHash64_round buf s st;
     let s = s + 64;
     let len = len - 64;
     if len \<noteq> 0 then CityHash64_loop buf s len st else Some st
   }"
  by pat_completeness auto
termination
  by (relation "measure (\<lambda>(buf, s, len, st). len)") auto

declare CityHash64_loop.simps [simp del]

definition city64_chunk_bytes :: "nat \<Rightarrow> nat" where
  "city64_chunk_bytes len = nat (int (len - 1) AND NOT 63)"

definition CityHash64 :: "byte list \<Rightarrow> int \<Rightarrow> nat \<Rightarrow> u64 option" where
  "CityHash64 buf s len =
     (if len \<le> 32 then
        (if len \<le> 16 then HashLen0to16 buf s len else HashLen17to32 buf s len)
      else if len \<le> 64 then HashLen33to64 buf s len
      else do {
        x \<leftarrow> Fetch64 buf (s + int len - 40);
        y0 \<leftarrow> Fetch64 buf (s + int len - 16);
        y1 \<leftarrow> Fetch64 buf (s + int len - 56);
        let y = y0 + y1;
        z0 \<leftarrow> Fetch64 buf (s + int len - 48);
        z1 \<leftarrow> Fetch64 buf (s + int len - 24);
        let z = HashLen16 (z0 + of_nat len) z1;
        v \<leftarrow> WeakHashLen32WithSeeds buf (s + int len - 64) (of_nat len) z;
        w \<leftarrow> WeakHashLen32WithSeeds buf (s + int len - 32) (y + k1) x;
        x0 \<leftarrow> Fetch64 buf s;
        let x = x * k1 + x0;
        let len = city64_chunk_bytes len;
        st \<leftarrow> CityHash64_loop buf s len
               \<lparr>v_first = fst v, v_second = snd v, w_first = fst w, w_second = snd w, st_x = x, st_y = y, st_z = z\<rparr>;
        Some (HashLen16 (HashLen16 (v_first st) (w_first st) + ShiftMix (st_y st) * k1 + st_z st)
                        (HashLen16 (v_second st) (w_second st) + st_x st))
      })"

definition CityHash64WithSeeds :: "byte list \<Rightarrow> int \<Rightarrow> nat \<Rightarrow> u64 \<Rightarrow> u64 \<Rightarrow> u64 option" where
  "CityHash64WithSeeds buf s len seed0 seed1 = do {
     h \<leftarrow> CityHash64 buf s len;
     Some (HashLen16 (h - seed0) seed1)
   }"

definition CityHash64WithSeed :: "byte list \<Rightarrow> int \<Rightarrow> nat \<Rightarrow> u64 \<Rightarrow> u64 option" where
  "CityHash64WithSeed buf s len seed = CityHash64WithSeeds buf s len k2 seed"

section \<open>128-bit hashing\<close>

function CityMurmur_loop ::
  "byte list \<Rightarrow> int \<Rightarrow> int \<Rightarrow> u64 \<Rightarrow> u64 \<Rightarrow> u64 \<Rightarrow> u64 \<Rightarrow> (u64 \<times> u64 \<times> u64 \<times> u64) option" where
  "CityMurmur_loop buf s l a b c d = do {
     x \<leftarrow> Fetch64 buf s;
     let a = a XOR ShiftMix (x * k1) * k1;
     let a = a * k1;
     let b = b XOR a;
     y \<leftarrow> Fetch64 buf (s + 8);
     let c = c XOR ShiftMix (y * k1) * k1;
     let c = c * k1;
     let d = d XOR c;
     let s = s + 16;
     let l = l - 16;
     if l > 0 then CityMurmur_loop buf s l a b c d else Some (a, b, c, d)
   }"
  by pat_completeness auto
termination
  by (relation "measure (\<lambda>(buf, s, l, a, b, c, d). nat l)") auto

declare CityMurmur_loop.simps [simp del]

definition CityMurmur :: "byte list \<Rightarrow> int \<Rightarrow> nat \<Rightarrow> u64 \<times> u64 \<Rightarrow> (u64 \<times> u64) option" where
  "CityMurmur buf s len seed = do {
     let a = Uint128Low64 seed;
     let b = Uint128High64 seed;
     let l = int len - 16;
     (a, b, c, d) \<leftarrow>
       (if l \<le> 0 then do {
          let a = ShiftMix (a * k1) * k1;
          x \<leftarrow> HashLen0to16 buf s len;
          let c = b * k1 + x;
          y \<leftarrow> (if len \<ge> 8 then Fetch64 buf s else Some c);
          let d = ShiftMix (a + y);
          Some (a, b, c, d)
        } else do {
          x \<leftarrow> Fetch64 buf (s + int len - 8);
          let c = HashLen16 (x + k1) a;
          y \<leftarrow> Fetch64 buf (s + int len - 16);
          let d = HashLen16 (b + of_nat len) (c + y);
          let a = a + d;
          CityMurmur_loop buf s l a b c d
        });
     let a = HashLen16 a c;
     let b = HashLen16 d b;
     Some (a XOR b, HashLen16 b a)
   }"

text \<open>
  The loop of \<^verbatim>\<open>CityHash128WithSeed\<close> carries the round twice, the second copy 64 bytes
  further on; it is written out here as the source has it.
\<close>

definition CityHash128_body :: "byte list \<Rightarrow> int \<Rightarrow> city_state \<Rightarrow> city_state option" where
  "CityHash128_body buf s st = do {
     f8 \<leftarrow> Fetch64 buf (s + 8);
     let x = Rotate (st_x st + st_y st + v_first st + f8) 37 * k1;
     f48 \<leftarrow> Fetch64 buf (s + 48);
     let y = Rotate (st_y st + v_second st + f48) 42 * k1;
     let x = x XOR w_second st;
     f40 \<leftarrow> Fetch64 buf (s + 40);
     let y = y + (v_first st + f40);
     let z = Rotate (st_z st + w_first st) 33 * k1;
     v \<leftarrow> WeakHashLen32WithSeeds buf s (v_second st * k1) (x + w_first st);
     f16 \<leftarrow> Fetch64 buf (s + 16);
     w \<leftarrow> WeakHashLen32WithSeeds buf (s + 32) (z + w_second st) (y + f16);
     let (z, x) = (x, z);
     let s = s + 64;
     f8 \<leftarrow> Fetch64 buf (s + 8);
     let x = Rotate (x + y + fst v + f8) 37 * k1;
     f48 \<leftarrow> Fetch64 buf (s + 48);
     let y = Rotate (y + snd v + f48) 42 * k1;
     let x = x XOR snd w;
     f40 \<leftarrow> Fetch64 buf (s + 40);
     let y = y + (fst v + f40);
     let z = Rotate (z + fst w) 33 * k1;
     v' \<leftarrow> WeakHashLen32WithSeeds buf s (snd v * k1) (x + fst w);
     f16 \<leftarrow> Fetch64 buf (s + 16);
     w' \<leftarrow> WeakHashLen32WithSeeds buf (s + 32) (z + snd w) (y + f16);
     let (z, x) = (x, z);
     Some \<lparr>v_first = fst v', v_second = snd v', w_first = fst w', w_second = snd w', st_x = x, st_y = y, st_z = z\<rparr>
   }"

function CityHash128_loop ::
  "byte list \<Rightarrow> int \<Rightarrow> nat \<Rightarrow> city_state \<Rightarrow> (int \<times> nat \<times> city_state) option" where
  "CityHash128_loop buf s len st = do {
     st \<leftarrow> CityHash128_body buf s st;
     let s = s + 128;
     let len = len - 128;
     if len \<ge> 128 then CityHash128_loop buf s len st else Some (s, len, st)
   }"
  by pat_completeness auto
termination
  by (relation "measure (\<lambda>(buf, s, len, st). len)") auto

function CityHash128_tail ::
  "byte list \<Rightarrow> int \<Rightarrow> nat \<Rightarrow> nat \<Rightarrow> city_state \<Rightarrow> city_state option" where
  "CityHash128_tail buf s len tail_done st =
     (if tail_done < len then do {
        let tail_done = tail_done + 32;
        let y = Rotate (st_x st + st_y st) 42 * k0 + v_second st;
        f16 \<leftarrow> Fetch64 buf (s + int len - int tail_done + 16);
        let wfst' = w_first st + f16;
        let x = st_x st * k0 + wfst';
        f0 \<leftarrow> Fetch64 buf (s + int len - int tail_done);
        let z = st_z st + (w_second st + f0);
        let wsnd' = w_second st + v_first st;
        v \<leftarrow> WeakHashLen32WithSeeds buf (s + int len - int tail_done) (v_first st + z) (v_second st);
        let vfst' = fst v * k0;
        CityHash128_tail buf s len tail_done
          \<lparr>v_first = vfst', v_second = snd v, w_first = wfst', w_second = wsnd', st_x = x, st_y = y, st_z = z\<rparr>
      } else Some st)"
  by pat_completeness auto
termination
  by (relation "measure (\<lambda>(buf, s, len, tail_done, st). len - tail_done)") auto

declare CityHash128_loop.simps [simp del]
declare CityHash128_tail.simps [simp del]

definition CityHash128WithSeed ::
  "byte list \<Rightarrow> int \<Rightarrow> nat \<Rightarrow> u64 \<times> u64 \<Rightarrow> (u64 \<times> u64) option" where
  "CityHash128WithSeed buf s len seed =
     (if len < 128 then CityMurmur buf s len seed
      else do {
        let x = Uint128Low64 seed;
        let y = Uint128High64 seed;
        let z = of_nat len * k1;
        f0 \<leftarrow> Fetch64 buf s;
        let vf = Rotate (y XOR k1) 49 * k1 + f0;
        f8 \<leftarrow> Fetch64 buf (s + 8);
        let vs = Rotate vf 42 * k1 + f8;
        let wf = Rotate (y + z) 35 * k1 + x;
        f88 \<leftarrow> Fetch64 buf (s + 88);
        let ws = Rotate (x + f88) 53 * k1;
        (s, len, st) \<leftarrow> CityHash128_loop buf s len
           \<lparr>v_first = vf, v_second = vs, w_first = wf, w_second = ws, st_x = x, st_y = y, st_z = z\<rparr>;
        let x = st_x st + Rotate (v_first st + st_z st) 49 * k0;
        let y = st_y st * k0 + Rotate (w_second st) 37;
        let z = st_z st * k0 + Rotate (w_first st) 27;
        st \<leftarrow> CityHash128_tail buf s len 0
           \<lparr>v_first = v_first st * k0, v_second = v_second st, w_first = w_first st * 9, w_second = w_second st, st_x = x, st_y = y, st_z = z\<rparr>;
        let x = HashLen16 (st_x st) (v_first st);
        let y = HashLen16 (st_y st + st_z st) (w_first st);
        Some (HashLen16 (x + v_second st) (w_second st) + y, HashLen16 (x + w_second st) (y + v_second st))
      })"

definition CityHash128 :: "byte list \<Rightarrow> int \<Rightarrow> nat \<Rightarrow> (u64 \<times> u64) option" where
  "CityHash128 buf s len =
     (if len \<ge> 16 then do {
        a \<leftarrow> Fetch64 buf s;
        b \<leftarrow> Fetch64 buf (s + 8);
        CityHash128WithSeed buf (s + 16) (len - 16) (a, b + k0)
      } else CityHash128WithSeed buf s len (k0, k1))"

section \<open>Loads inside the buffer\<close>

lemma expected_order_64: "length bs = 8 \<Longrightarrow> uint64_in_expected_order order (host_word order bs) = le_word bs"
  by (cases order) (simp_all add: uint64_in_expected_order_def host_word_def bswap_64_def le_bytes_of_nat)

lemma expected_order_32: "length bs = 4 \<Longrightarrow> uint32_in_expected_order order (host_word order bs) = le_word bs"
  by (cases order) (simp_all add: uint32_in_expected_order_def host_word_def bswap_32_def le_bytes_of_nat)

lemma load_in_expected_order:
  "map_option (uint64_in_expected_order order) (UNALIGNED_LOAD64 order buf p)
     = (if 0 \<le> p \<and> p + 8 \<le> int (length buf) then Some (le_word (take 8 (drop (nat p) buf))) else None)"
  "map_option (uint32_in_expected_order order) (UNALIGNED_LOAD32 order buf p)
     = (if 0 \<le> p \<and> p + 4 \<le> int (length buf) then Some (le_word (take 4 (drop (nat p) buf))) else None)"
proof -
  have "length (take 8 (drop (nat p) buf)) = 8" if "0 \<le> p \<and> p + 8 \<le> int (length buf)" using that by auto
  then show "map_option (uint64_in_expected_order order) (UNALIGNED_LOAD64 order buf p)
     = (if 0 \<le> p \<and> p + 8 \<le> int (length buf) then Some (le_word (take 8 (drop (nat p) buf))) else None)"
    by (simp add: UNALIGNED_LOAD64_def expected_order_64 del: length_take)
  have "length (take 4 (drop (nat p) buf)) = 4" if "0 \<le> p \<and> p + 4 \<le> int (length buf)" using that by auto
  then show "map_option (uint32_in_expected_order order) (UNALIGNED_LOAD32 order buf p)
     = (if 0 \<le> p \<and> p + 4 \<le> int (length buf) then Some (le_word (take 4 (drop (nat p) buf))) else None)"
    by (simp add: UNALIGNED_LOAD32_def expected_order_32 del: length_take)
qed

text \<open>The loads of the hashes do not depend on the byte order of the host.\<close>

theorem Fetch_byte_order:
  "map_option (uint64_in_expected_order order) (UNALIGNED_LOAD64 order buf p) = Fetch64 buf p
   \<and> map_option (uint32_in_expected_order order) (UNALIGNED_LOAD32 order buf p) = Fetch32 buf p"
  by (simp add: Fetch64_def Fetch32_def load_in_expected_order)

lemma Fetch64_Some [simp]:
  "0 \<le> p \<Longrightarrow> p + 8 \<le> int (length buf) \<Longrightarrow>
     Fetch64 buf p = Some (le_word (take 8 (drop (nat p) buf)))"
  by (simp add: Fetch64_def load_in_expected_order)

lemma Fetch32_Some [simp]:
  "0 \<le> p \<Longrightarrow> p + 4 \<le> int (length buf) \<Longrightarrow>
     Fetch32 buf p = Some (le_word (take 4 (drop (nat p) buf)))"
  by (simp add: Fetch32_def load_in_expected_order)

lemma load_char_Some [simp]:
  "0 \<le> p \<Longrightarrow> p < int (length buf) \<Longrightarrow> load_char buf p = Some (buf ! nat p)"
  by (simp add: load_char_def)

lemma WeakHash_Some [simp]:
  "0 \<le> p \<Longrightarrow> p + 32 \<le> int (length buf) \<Longrightarrow>
     \<exists>v. WeakHashLen32WithSeeds buf p a b = Some v"
  by (simp add: WeakHashLen32WithSeeds_def)

section \<open>Every load is inside the buffer\<close>

lemma Hash32Len0to4_loop_Some:
  assumes "0 \<le> s" "s + int len \<le> int (length buf)"
  shows "\<exists>r. Hash32Len0to4_loop buf s len i b c = Some r"
  using assms
proof (induction buf s len i b c rule: Hash32Len0to4_loop.induct)
  case (1 buf s len i b c)
  then show ?case
    by (subst Hash32Len0to4_loop.simps) (simp add: Let_def)
qed

lemma Hash32Len5to12_Some:
  assumes "0 \<le> s" "s + int len \<le> int (length buf)" "5 \<le> len" "len \<le> 12"
  shows "\<exists>h. Hash32Len5to12 buf s len = Some h"
proof -
  have "len \<in> {5,6,7,8,9,10,11,12}" using assms by auto
  then have "(len div 2 AND (4::nat)) + 4 \<le> len" by auto
  then show ?thesis using assms by (simp add: Hash32Len5to12_def Let_def)
qed

lemma Hash32Len13to24_Some:
  assumes "0 \<le> s" "s + int len \<le> int (length buf)" "13 \<le> len"
  shows "\<exists>h. Hash32Len13to24 buf s len = Some h"
proof -
  have "4 \<le> len div 2" "len div 2 + 4 \<le> len" using assms by auto
  then show ?thesis using assms by (simp add: Hash32Len13to24_def Let_def)
qed

lemma CityHash32_loop_Some:
  assumes "0 \<le> s" "s + 20 * int iters \<le> int (length buf)" "0 < iters"
  shows "\<exists>r. CityHash32_loop buf s iters f g h = Some r"
  using assms
proof (induction iters arbitrary: s f g h)
  case 0
  then show ?case by simp
next
  case (Suc n)
  show ?case
    using Suc.prems Suc.IH [of "s + 20"]
    by (subst CityHash32_loop.simps) (auto simp: Let_def PERMUTE3_def)
qed

lemma CityHash32_Some:
  assumes "0 \<le> s" "s + int len \<le> int (length buf)"
  shows "\<exists>h. CityHash32 buf s len = Some h"
proof -
  consider "len \<le> 4" | "5 \<le> len" "len \<le> 12" | "13 \<le> len" "len \<le> 24" | "25 \<le> len"
    by linarith
  then show ?thesis
  proof cases
    case 1
    then show ?thesis
      using Hash32Len0to4_loop_Some [OF assms, of 0 0 9]
      by (auto simp: CityHash32_def Hash32Len0to4_def)
  next
    case 2
    then show ?thesis using Hash32Len5to12_Some [OF assms] by (simp add: CityHash32_def)
  next
    case 3
    then show ?thesis using Hash32Len13to24_Some [OF assms] by (simp add: CityHash32_def)
  next
    case 4
    have "20 * int ((len - 1) div 20) \<le> int len" "0 < (len - 1) div 20"
      using 4 by auto
    then have "\<exists>r. CityHash32_loop buf s ((len - 1) div 20) f g h = Some r" for f g h
      using assms by (intro CityHash32_loop_Some) auto
    then show ?thesis using assms 4
      by (auto simp: CityHash32_def Let_def split: prod.splits bind_splits)
  qed
qed

lemma HashLen0to16_Some:
  assumes "0 \<le> s" "s + int len \<le> int (length buf)"
  shows "\<exists>h. HashLen0to16 buf s len = Some h"
  using assms by (auto simp: HashLen0to16_def Let_def)

lemma CityHash64_round_Some:
  assumes "0 \<le> s" "s + 64 \<le> int (length buf)"
  shows "\<exists>st'. CityHash64_round buf s st = Some st'"
  using assms by (auto simp: CityHash64_round_def Let_def WeakHashLen32WithSeeds_def)

lemma CityHash64_loop_Some:
  assumes "0 \<le> s" "s + int len \<le> int (length buf)" "64 \<le> len" "64 dvd len"
  shows "\<exists>st'. CityHash64_loop buf s len st = Some st'"
  using assms
proof (induction buf s len st rule: CityHash64_loop.induct)
  case (1 buf s len st)
  obtain st' where st': "CityHash64_round buf s st = Some st'"
    using CityHash64_round_Some 1 by fastforce
  show ?case
  proof (cases "len - 64 = 0")
    case True
    then show ?thesis by (subst CityHash64_loop.simps) (simp add: st')
  next
    case False
    have "64 dvd len - 64" using "1.prems" by (simp add: dvd_diff_nat)
    then have "64 \<le> len - 64" using False dvd_imp_le by blast
    then show ?thesis
      using 1 False st' \<open>64 dvd len - 64\<close> by (subst CityHash64_loop.simps) (simp add: of_nat_diff)
  qed
qed

lemma city64_chunk_bytes_eq: "city64_chunk_bytes len = (len - 1) div 64 * 64"
proof -
  define n where "n = len - 1"
  have "int n AND NOT (mask 6) = push_bit 6 (drop_bit 6 (int n))"
    by (rule bit_eqI) (auto simp: bit_simps)
  then have "int n AND NOT 63 = int n div 64 * 64"
    by (simp add: mask_eq_exp_minus_1 push_bit_eq_mult drop_bit_eq_div)
  then show ?thesis
    unfolding city64_chunk_bytes_def n_def [symmetric] by (simp add: nat_mult_distrib nat_div_distrib)
qed

lemma CityHash64_Some:
  assumes "0 \<le> s" "s + int len \<le> int (length buf)"
  shows "\<exists>h. CityHash64 buf s len = Some h"
proof -
  consider "len \<le> 16" | "17 \<le> len" "len \<le> 32" | "33 \<le> len" "len \<le> 64" | "65 \<le> len"
    by linarith
  then show ?thesis
  proof cases
    case 1
    then show ?thesis using HashLen0to16_Some [OF assms] by (simp add: CityHash64_def)
  next
    case 2
    then show ?thesis using assms by (simp add: CityHash64_def HashLen17to32_def Let_def)
  next
    case 3
    then show ?thesis using assms by (simp add: CityHash64_def HashLen33to64_def Let_def)
  next
    case 4
    let ?l = "(len - 1) div 64 * 64"
    have "64 \<le> ?l" "?l \<le> len" using 4 by auto
    then have "\<exists>st'. CityHash64_loop buf s ?l st = Some st'" for st
      using assms by (intro CityHash64_loop_Some) auto
    then have "CityHash64_loop buf s (city64_chunk_bytes len) st \<noteq> None" for st
      by (simp add: city64_chunk_bytes_eq)
    then have loop: "CityHash64_loop buf s (city64_chunk_bytes len) st \<bind> (\<lambda>st. Some (k st)) \<noteq> None"
      for st and k :: "city_state \<Rightarrow> u64"
      by (simp add: bind_eq_None_conv)
    have "CityHash64 buf s len \<noteq> None" using assms 4
      by (simp add: CityHash64_def Let_def WeakHashLen32WithSeeds_def loop del: not_None_eq)
    then show ?thesis by simp
  qed
qed

text \<open>The unrolled body of the 128-bit hash is two rounds of the 64-bit one.\<close>

lemma CityHash128_body_rounds:
  "CityHash128_body buf s st = CityHash64_round buf s st \<bind> CityHash64_round buf (s + 64)"
  by (simp add: CityHash128_body_def CityHash64_round_def Let_def case_prod_beta)

lemma CityHash128_body_Some:
  assumes "0 \<le> s" "s + 128 \<le> int (length buf)"
  shows "\<exists>st'. CityHash128_body buf s st = Some st'"
proof -
  obtain st1 where "CityHash64_round buf s st = Some st1"
    using CityHash64_round_Some assms by fastforce
  moreover have "\<exists>st2. CityHash64_round buf (s + 64) st1 = Some st2"
    using assms by (intro CityHash64_round_Some) auto
  ultimately show ?thesis by (simp add: CityHash128_body_rounds)
qed

lemma CityHash128_loop_Some:
  assumes "0 \<le> s" "s + int len \<le> int (length buf)" "128 \<le> len"
  shows "\<exists>s' len' st'. CityHash128_loop buf s len st = Some (s', len', st')
           \<and> len' < 128 \<and> s + 128 \<le> s' \<and> s' + int len' = s + int len"
  using assms
proof (induction buf s len st rule: CityHash128_loop.induct)
  case (1 buf s len st)
  obtain st' where st': "CityHash128_body buf s st = Some st'"
    using CityHash128_body_Some 1 by fastforce
  show ?case
  proof (cases "len - 128 \<ge> 128")
    case True
    then have "\<exists>s' len' st''. CityHash128_loop buf (s + 128) (len - 128) st' = Some (s', len', st'')
           \<and> len' < 128 \<and> s + 128 + 128 \<le> s' \<and> s' + int len' = s + 128 + int (len - 128)"
      using "1.prems" by (intro "1.IH" [OF st' refl refl]) auto
    then show ?thesis using True
      by (subst CityHash128_loop.simps) (auto simp: st')
  next
    case False
    then show ?thesis using "1.prems"
      by (subst CityHash128_loop.simps) (auto simp: st')
  qed
qed

lemma CityHash128_tail_Some:
  assumes "128 \<le> s" "s + int len \<le> int (length buf)" "tail_done < len + 32" "len < 128"
  shows "\<exists>st'. CityHash128_tail buf s len tail_done st = Some st'"
  using assms
proof (induction buf s len tail_done st rule: CityHash128_tail.induct)
  case (1 buf s len tail_done st)
  show ?case
  proof (cases "tail_done < len")
    case True
    then show ?thesis using 1
      by (subst CityHash128_tail.simps) (simp add: Let_def WeakHashLen32WithSeeds_def)
  next
    case False
    then show ?thesis by (subst CityHash128_tail.simps) simp
  qed
qed

lemma CityMurmur_loop_Some:
  assumes "0 \<le> s" "s + l + 16 \<le> int (length buf)" "0 < l"
  shows "\<exists>r. CityMurmur_loop buf s l a b c d = Some r"
  using assms
proof (induction buf s l a b c d rule: CityMurmur_loop.induct)
  case (1 buf s l a b c d)
  then show ?case
    by (subst CityMurmur_loop.simps) (simp add: Let_def)
qed

lemma CityMurmur_Some:
  assumes "0 \<le> s" "s + int len \<le> int (length buf)"
  shows "\<exists>h. CityMurmur buf s len seed = Some h"
proof (cases "len \<le> 16")
  case True
  obtain x where "HashLen0to16 buf s len = Some x"
    using HashLen0to16_Some [OF assms] by blast
  then show ?thesis using True assms by (simp add: CityMurmur_def Let_def)
next
  case False
  then have "\<exists>r. CityMurmur_loop buf s (int len - 16) a b c d = Some r" for a b c d
    using assms by (intro CityMurmur_loop_Some) auto
  then show ?thesis using False assms
    by (auto simp: CityMurmur_def Let_def split: prod.splits bind_splits)
qed

lemma CityHash128WithSeed_Some:
  assumes "0 \<le> s" "s + int len \<le> int (length buf)"
  shows "\<exists>h. CityHash128WithSeed buf s len seed = Some h"
proof (cases "len < 128")
  case True
  then show ?thesis using CityMurmur_Some [OF assms] by (simp add: CityHash128WithSeed_def)
next
  case False
  have loop: "CityHash128_loop buf s len st \<bind> (\<lambda>(s, len, st).
      CityHash128_tail buf s len 0 (f st) \<bind> (\<lambda>st. Some (k st))) \<noteq> None"
    for st f and k :: "city_state \<Rightarrow> u64 \<times> u64"
  proof -
    obtain s' len' st' where l: "CityHash128_loop buf s len st = Some (s', len', st')"
      "len' < 128" "s + 128 \<le> s'" "s' + int len' = s + int len"
      using CityHash128_loop_Some [OF assms, of st] False by auto
    have "\<exists>st''. CityHash128_tail buf s' len' 0 (f st') = Some st''"
      using l assms by (intro CityHash128_tail_Some) auto
    with l show ?thesis by auto
  qed
  have "CityHash128WithSeed buf s len seed \<noteq> None" using False assms
    by (simp add: CityHash128WithSeed_def Let_def loop del: not_None_eq)
  then show ?thesis by simp
qed

lemma CityHash128_Some:
  assumes "0 \<le> s" "s + int len \<le> int (length buf)"
  shows "\<exists>h. CityHash128 buf s len = Some h"
  using assms CityHash128WithSeed_Some [of "s + 16" "len - 16" buf] CityHash128WithSeed_Some [OF assms]
  by (simp add: CityHash128_def)

section \<open>Mixers lose no information\<close>

lemma Rotate32_inj:
  assumes "k < 32" "Rotate32 x k = Rotate32 y k" shows "x = y"
proof (cases "k = 0")
  case True
  then show ?thesis using assms by (simp add: Rotate32_def)
next
  case False
  have bits: "bit (Rotate32 w k) ((n + (32 - k)) mod 32) = bit w n" if "n < 32" for w n
    using that False assms(1)
    by (cases "n < k") (auto simp: Rotate32_def bit_simps mod_if dest: bit_imp_le_length)
  show ?thesis
  proof (rule bit_word_eqI)
    fix n assume "n < LENGTH(32)"
    then show "bit x n = bit y n" using bits [of n x] bits [of n y] assms(2) by simp
  qed
qed

lemma fmix_inj: "fmix x = fmix y \<Longrightarrow> x = y"
proof -
  have a: "(0x85ebca6b :: u32) * 0xA5CB9243 = 1" by simp
  have b: "(0xc2b2ae35 :: u32) * 0x7ED1B41D = 1" by simp
  assume "fmix x = fmix y"
  then show "x = y"
    unfolding fmix_def Let_def
    by (auto dest!: xor_shift_inj [rotated] mult_unit_inj [OF a] mult_unit_inj [OF b])
qed


lemma Mur_fold_inj:
  assumes "Rotate32 x 19 * 5 + 0xe6546b64 = Rotate32 y 19 * 5 + 0xe6546b64"
  shows "x = y"
proof -
  have "(5::u32) * 0xCCCCCCCD = 1" by simp
  moreover have "Rotate32 x 19 * 5 = Rotate32 y 19 * 5" using assms by (rule add_right_imp_eq)
  ultimately have "Rotate32 x 19 = Rotate32 y 19" by (rule mult_unit_inj)
  then show ?thesis by (rule Rotate32_inj [rotated]) simp
qed

lemma Mur_inj_state: "Mur a h = Mur a h' \<Longrightarrow> h = h'"
  unfolding Mur_def Let_def by (rule xor_left_inj, rule Mur_fold_inj)

lemma Mur_inj_key:
  assumes "Mur a h = Mur a' h" shows "a = a'"
proof -
  have i1: "c1 * 0xDEE13BB1 = 1" by (simp add: c1_def)
  have i2: "c2 * 0x56ED309B = 1" by (simp add: c2_def)
  have "h XOR Rotate32 (a * c1) 17 * c2 = h XOR Rotate32 (a' * c1) 17 * c2"
    using assms unfolding Mur_def Let_def by (rule Mur_fold_inj)
  then have "Rotate32 (a * c1) 17 * c2 = Rotate32 (a' * c1) 17 * c2" by (rule xor_right_inj)
  then have "Rotate32 (a * c1) 17 = Rotate32 (a' * c1) 17" by (rule mult_unit_inj [OF i2])
  then have "a * c1 = a' * c1" by (rule Rotate32_inj [rotated]) simp
  then show ?thesis by (rule mult_unit_inj [OF i1])
qed

lemma HashLen16_inj:
  assumes "HashLen16 u w = HashLen16 u' w" shows "u = u'"
proof -
  define m :: u64 where "m = 0x9ddfea08eb382d69"
  have k: "m * 0xdc56e6f5090b32d9 = 1" by (simp add: m_def)
  define g where "g x = x XOR drop_bit 47 x" for x :: u64
  have g: "x = y" if "g x = g y" for x y
    using that unfolding g_def by (rule xor_shift_inj [rotated]) simp
  have "g ((w XOR g ((u XOR w) * m)) * m) * m = g ((w XOR g ((u' XOR w) * m)) * m) * m"
    using assms by (simp add: HashLen16_def Hash128to64_def Let_def Uint128Low64_def
        Uint128High64_def m_def g_def)
  then have "g ((w XOR g ((u XOR w) * m)) * m) = g ((w XOR g ((u' XOR w) * m)) * m)"
    by (rule mult_unit_inj [OF k])
  then have "w XOR g ((u XOR w) * m) = w XOR g ((u' XOR w) * m)"
    by (rule mult_unit_inj [OF k, OF g])
  then have "g ((u XOR w) * m) = g ((u' XOR w) * m)" by (rule xor_right_inj)
  then have "u XOR w = u' XOR w" by (rule mult_unit_inj [OF k, OF g])
  then show ?thesis by (rule xor_left_inj)
qed

section \<open>Properties\<close>

text \<open>
  C37: Every hash terminates and reads only bytes of the buffer it was given, for every length class: the short
  strings, the 20-byte loop of \<^verbatim>\<open>CityHash32\<close>, the 64-byte loop of \<^verbatim>\<open>CityHash64\<close> and the tail loop of
  \<^verbatim>\<open>CityHash128\<close>, which reads backwards from the end and never reaches before the start of the string.
\<close>

theorem CityHash_in_bounds:
  assumes "0 \<le> s" "s + int len \<le> int (length buf)"
  shows "(\<exists>h. CityHash32 buf s len = Some h) \<and> (\<exists>h. CityHash64 buf s len = Some h)
    \<and> (\<exists>h. CityHash128 buf s len = Some h)"
  using CityHash32_Some [OF assms] CityHash64_Some [OF assms] CityHash128_Some [OF assms] by blast

theorem CityHash_in_bounds_witness:
  "(\<exists>h. CityHash32 (replicate 400 7) 5 391 = Some h) \<and> (\<exists>h. CityHash64 (replicate 400 7) 5 391 = Some h)
    \<and> (\<exists>h. CityHash128 (replicate 400 7) 5 391 = Some h)"
  by (rule CityHash_in_bounds) simp_all


text \<open>
  the 32-bit finalizer \<^verbatim>\<open>fmix\<close> is a bijection, and \<^verbatim>\<open>Mur\<close> is injective in the state
  for a fixed key and in the key for a fixed state: no mixing step of the 32-bit hash merges
  two accumulator values.
\<close>

theorem mixers_lose_nothing:
  "bij fmix \<and> inj (Mur a) \<and> inj (\<lambda>k. Mur k h)"
proof (intro conjI)
  have "inj fmix" by (rule injI) (rule fmix_inj)
  then show "bij fmix" by (simp add: bij_def finite_UNIV_inj_surj)
  show "inj (Mur a)" by (rule injI) (rule Mur_inj_state)
  show "inj (\<lambda>k. Mur k h)" by (rule injI) (rule Mur_inj_key)
qed

text \<open>
  Seeding with \<^verbatim>\<open>CityHash64WithSeeds\<close> neither creates nor removes collisions: for fixed
  seeds two strings collide exactly when their unseeded \<^verbatim>\<open>CityHash64\<close> values do, and for a
  fixed string distinct first seeds give distinct hashes.
\<close>

theorem seeding_preserves_collisions:
  assumes "CityHash64WithSeeds buf s len a b = Some h"
    and "CityHash64WithSeeds buf' s' len' a' b = Some h'"
    and "CityHash64 buf s len = Some x" and "CityHash64 buf' s' len' = Some x'"
  shows "h = h' \<longleftrightarrow> x - a = x' - a'"
  using assms HashLen16_inj by (auto simp: CityHash64WithSeeds_def)

theorem seeding_preserves_collisions_witness:
  "(HashLen16 (k2 - 1) 5 = HashLen16 (k2 - 2) 5) = (k2 - 1 = k2 - (2::u64))"
  by (rule seeding_preserves_collisions [of "[]" 0 0 1 5 _ "[]" 0 0 2])
    (simp_all add: CityHash64WithSeeds_def CityHash64_def HashLen0to16_def)

end
