(* ===== verification/City_Crc.thy ===== *)
theory City_Crc
  imports City_Hash
begin

text \<open>
  The variants of \<^verbatim>\<open>rpc/detail/city.cc\<close> that a build for SSE 4.2 adds: \<^verbatim>\<open>CityHashCrc256\<close> and the
  128-bit hashes on top of it. The instruction \<^verbatim>\<open>_mm_crc32_u64\<close> is the parameter \<open>crc\<close>. As in
  \<^verbatim>\<open>City_Hash\<close> a load outside the buffer gives \<open>None\<close>.
\<close>

section \<open>Definitions\<close>

record crc_state =
  reg_a :: u64
  reg_b :: u64
  reg_c :: u64
  reg_d :: u64
  reg_e :: u64
  reg_f :: u64
  reg_g :: u64
  reg_h :: u64
  reg_x :: u64
  reg_y :: u64
  reg_z :: u64

definition CHUNK :: "(u64 \<Rightarrow> u64 \<Rightarrow> u64) \<Rightarrow> byte list \<Rightarrow> nat \<Rightarrow> int \<times> crc_state \<Rightarrow> (int \<times> crc_state) option" where
  "CHUNK crc buf r p = do {
     let (s, st) = p;
     let (x, z, y) = PERMUTE3 (reg_x st) (reg_z st) (reg_y st);
     f0 \<leftarrow> Fetch64 buf s;
     let b = reg_b st + f0;
     f8 \<leftarrow> Fetch64 buf (s + 8);
     let c = reg_c st + f8;
     f16 \<leftarrow> Fetch64 buf (s + 16);
     let d = reg_d st + f16;
     f24 \<leftarrow> Fetch64 buf (s + 24);
     let e = reg_e st + f24;
     f32 \<leftarrow> Fetch64 buf (s + 32);
     let f = reg_f st + f32;
     let a = reg_a st + b;
     let h = reg_h st + f;
     let b = b + c;
     let f = f + d;
     let g = reg_g st + e;
     let e = e + z;
     let g = g + x;
     let z = crc z (b + g);
     let y = crc y (e + h);
     let x = crc x (f + a);
     let e = Rotate e r;
     let c = c + e;
     Some (s + 40, \<lparr>reg_a = a, reg_b = b, reg_c = c, reg_d = d, reg_e = e, reg_f = f, reg_g = g, reg_h = h,
       reg_x = x, reg_y = y, reg_z = z\<rparr>)
   }"

text \<open>The permutations between the chunks of one iteration.\<close>

definition permute_ahc :: "crc_state \<Rightarrow> crc_state" where
  "permute_ahc st = (case PERMUTE3 (reg_a st) (reg_h st) (reg_c st) of (a, h, c) \<Rightarrow> st\<lparr>reg_a := a, reg_h := h, reg_c := c\<rparr>)"

definition permute_ahf :: "crc_state \<Rightarrow> crc_state" where
  "permute_ahf st = (case PERMUTE3 (reg_a st) (reg_h st) (reg_f st) of (a, h, f) \<Rightarrow> st\<lparr>reg_a := a, reg_h := h, reg_f := f\<rparr>)"

definition permute_bhf :: "crc_state \<Rightarrow> crc_state" where
  "permute_bhf st = (case PERMUTE3 (reg_b st) (reg_h st) (reg_f st) of (b, h, f) \<Rightarrow> st\<lparr>reg_b := b, reg_h := h, reg_f := f\<rparr>)"

definition permute_bhd :: "crc_state \<Rightarrow> crc_state" where
  "permute_bhd st = (case PERMUTE3 (reg_b st) (reg_h st) (reg_d st) of (b, h, d) \<Rightarrow> st\<lparr>reg_b := b, reg_h := h, reg_d := d\<rparr>)"

definition permute_bhe :: "crc_state \<Rightarrow> crc_state" where
  "permute_bhe st = (case PERMUTE3 (reg_b st) (reg_h st) (reg_e st) of (b, h, e) \<Rightarrow> st\<lparr>reg_b := b, reg_h := h, reg_e := e\<rparr>)"

definition permute_ahe :: "crc_state \<Rightarrow> crc_state" where
  "permute_ahe st = (case PERMUTE3 (reg_a st) (reg_h st) (reg_e st) of (a, h, e) \<Rightarrow> st\<lparr>reg_a := a, reg_h := h, reg_e := e\<rparr>)"

definition permute_chg :: "crc_state \<Rightarrow> crc_state" where
  "permute_chg st = (case PERMUTE3 (reg_c st) (reg_h st) (reg_g st) of (c, h, g) \<Rightarrow> st\<lparr>reg_c := c, reg_h := h, reg_g := g\<rparr>)"

definition crc_iteration :: "(u64 \<Rightarrow> u64 \<Rightarrow> u64) \<Rightarrow> byte list \<Rightarrow> int \<times> crc_state \<Rightarrow> (int \<times> crc_state) option" where
  "crc_iteration crc buf p = do {
     (s, st) \<leftarrow> CHUNK crc buf 0 p;
     (s, st) \<leftarrow> CHUNK crc buf 33 (s, permute_ahc st);
     (s, st) \<leftarrow> CHUNK crc buf 0 (s, permute_ahf st);
     (s, st) \<leftarrow> CHUNK crc buf 42 (s, permute_bhf st);
     (s, st) \<leftarrow> CHUNK crc buf 0 (s, permute_bhd st);
     (s, st) \<leftarrow> CHUNK crc buf 33 (s, permute_bhe st);
     Some (s, permute_ahe st)
   }"

text \<open>The \<^verbatim>\<open>do\<close> loop, entered with at least one iteration to go.\<close>

fun crc_iterations ::
  "(u64 \<Rightarrow> u64 \<Rightarrow> u64) \<Rightarrow> byte list \<Rightarrow> nat \<Rightarrow> int \<times> crc_state \<Rightarrow> (int \<times> crc_state) option" where
  "crc_iterations crc buf iters p = do {
     p \<leftarrow> crc_iteration crc buf p;
     if 1 < iters then crc_iterations crc buf (iters - 1) p else Some p
   }"

declare crc_iterations.simps [simp del]

definition crc_mix :: "nat \<Rightarrow> nat \<Rightarrow> nat \<Rightarrow> nat \<Rightarrow> crc_state \<Rightarrow> crc_state" where
  "crc_mix i j k l st = st\<lparr>reg_e := reg_e st XOR Rotate (reg_a st) i, reg_h := reg_h st + Rotate (reg_b st) j,
     reg_g := reg_g st XOR Rotate (reg_c st) k, reg_f := reg_f st + Rotate (reg_d st) l\<rparr>"

function crc_rest ::
  "(u64 \<Rightarrow> u64 \<Rightarrow> u64) \<Rightarrow> byte list \<Rightarrow> nat \<Rightarrow> int \<times> crc_state \<Rightarrow> (nat \<times> int \<times> crc_state) option" where
  "crc_rest crc buf len p =
     (if 40 \<le> len then do {
        (s, st) \<leftarrow> CHUNK crc buf 29 p;
        crc_rest crc buf (len - 40) (s, permute_chg (crc_mix 20 30 40 34 st))
      } else Some (len, p))"
  by pat_completeness auto
termination
  by (relation "measure (\<lambda>(crc, buf, len, p). len)") auto

declare crc_rest.simps [simp del]

definition crc_finish :: "u64 \<Rightarrow> u64 \<Rightarrow> crc_state \<Rightarrow> u64 \<times> u64 \<times> u64 \<times> u64" where
  "crc_finish result0 result1 st =
     (let a = reg_a st; b = reg_b st; c = reg_c st; d = reg_d st; e = reg_e st; f = reg_f st; g = reg_g st; h = reg_h st;
          x = reg_x st; y = reg_y st; z = reg_z st;
          result0 = result0 XOR h;
          result1 = result1 XOR g;
          g = g + h;
          a = HashLen16 a (g + z);
          x = x + push_bit 32 y;
          b = b + x;
          c = HashLen16 c z + h;
          d = HashLen16 d (e + result0);
          g = g + e;
          h = h + HashLen16 x f;
          e = HashLen16 a d + g;
          z = HashLen16 b c + a;
          y = HashLen16 g h + c;
          result0 = e + z + y + x;
          a = ShiftMix ((a + y) * k0) * k0 + b;
          result1 = result1 + (a + result0);
          a = ShiftMix (a * k0) * k0 + c;
          result2 = a + result1;
          a = ShiftMix ((a + e) * k0) * k0;
          result3 = a + result2
      in (result0, result1, result2, result3))"

text \<open>All the input, from the first iteration to the last, overlapping chunk.\<close>

definition crc_input ::
  "(u64 \<Rightarrow> u64 \<Rightarrow> u64) \<Rightarrow> byte list \<Rightarrow> int \<Rightarrow> nat \<Rightarrow> crc_state \<Rightarrow> crc_state option" where
  "crc_input crc buf s len st = do {
     let iters = len div 240;
     p \<leftarrow> crc_iterations crc buf iters (s, st);
     (len, s, st) \<leftarrow> crc_rest crc buf (len - iters * 240) p;
     if 0 < len then do {
       (s, st) \<leftarrow> CHUNK crc buf 33 (s + int len - 40, st);
       Some (crc_mix 43 42 41 40 st)
     } else Some st
   }"

definition CityHashCrc256Long ::
  "(u64 \<Rightarrow> u64 \<Rightarrow> u64) \<Rightarrow> byte list \<Rightarrow> int \<Rightarrow> nat \<Rightarrow> u32 \<Rightarrow> (u64 \<times> u64 \<times> u64 \<times> u64) option" where
  "CityHashCrc256Long crc buf s len seed = do {
     f56 \<leftarrow> Fetch64 buf (s + 56);
     let a = f56 + k0;
     f96 \<leftarrow> Fetch64 buf (s + 96);
     let b = f96 + k0;
     let c = HashLen16 b (of_nat len);
     f120 \<leftarrow> Fetch64 buf (s + 120);
     let d = f120 * k0 + of_nat len;
     f184 \<leftarrow> Fetch64 buf (s + 184);
     let e = f184 + ucast seed;
     let st = \<lparr>reg_a = a, reg_b = b, reg_c = c, reg_d = d, reg_e = e, reg_f = 0, reg_g = 0, reg_h = c + d,
                reg_x = ucast seed, reg_y = 0, reg_z = 0\<rparr>;
     st \<leftarrow> crc_input crc buf s len st;
     Some (crc_finish c d st)
   }"

definition CityHashCrc256Short ::
  "(u64 \<Rightarrow> u64 \<Rightarrow> u64) \<Rightarrow> byte list \<Rightarrow> int \<Rightarrow> nat \<Rightarrow> (u64 \<times> u64 \<times> u64 \<times> u64) option" where
  "CityHashCrc256Short crc buf s len =
     (if 0 \<le> s \<and> s + int len \<le> int (length buf)
      then CityHashCrc256Long crc (take len (drop (nat s) buf) @ replicate (240 - len) 0) 0 240 (NOT (of_nat len))
      else None)"

definition CityHashCrc256 ::
  "(u64 \<Rightarrow> u64 \<Rightarrow> u64) \<Rightarrow> byte list \<Rightarrow> int \<Rightarrow> nat \<Rightarrow> (u64 \<times> u64 \<times> u64 \<times> u64) option" where
  "CityHashCrc256 crc buf s len =
     (if 240 \<le> len then CityHashCrc256Long crc buf s len 0 else CityHashCrc256Short crc buf s len)"

definition CityHashCrc128WithSeed ::
  "(u64 \<Rightarrow> u64 \<Rightarrow> u64) \<Rightarrow> byte list \<Rightarrow> int \<Rightarrow> nat \<Rightarrow> u64 \<times> u64 \<Rightarrow> (u64 \<times> u64) option" where
  "CityHashCrc128WithSeed crc buf s len seed =
     (if len \<le> 900 then CityHash128WithSeed buf s len seed
      else do {
        (result0, result1, result2, result3) \<leftarrow> CityHashCrc256 crc buf s len;
        let u = Uint128High64 seed + result0;
        let v = Uint128Low64 seed + result1;
        Some (HashLen16 u (v + result2), HashLen16 (Rotate v 32) (u * k0 + result3))
      })"

definition CityHashCrc128 :: "(u64 \<Rightarrow> u64 \<Rightarrow> u64) \<Rightarrow> byte list \<Rightarrow> int \<Rightarrow> nat \<Rightarrow> (u64 \<times> u64) option" where
  "CityHashCrc128 crc buf s len =
     (if len \<le> 900 then CityHash128 buf s len
      else do {
        (result0, result1, result2, result3) \<leftarrow> CityHashCrc256 crc buf s len;
        Some (result2, result3)
      })"

section \<open>Loads inside the buffer\<close>

lemma CHUNK_Some:
  assumes "0 \<le> s" "s + 40 \<le> int (length buf)" "s' = s + 40"
  shows "\<exists>st'. CHUNK crc buf r (s, st) = Some (s', st')"
  using assms by (simp add: CHUNK_def Let_def PERMUTE3_def)

lemma crc_iteration_Some:
  assumes "0 \<le> s" "s + 240 \<le> int (length buf)"
  shows "\<exists>st'. crc_iteration crc buf (s, st) = Some (s + 240, st')"
proof -
  obtain st1 where 1: "CHUNK crc buf 0 (s, st) = Some (s + 40, st1)" using CHUNK_Some [of s buf] assms by fastforce
  obtain st2 where 2: "CHUNK crc buf 33 (s + 40, permute_ahc st1) = Some (s + 80, st2)"
    using CHUNK_Some [of "s + 40" buf "s + 80"] assms by fastforce
  obtain st3 where 3: "CHUNK crc buf 0 (s + 80, permute_ahf st2) = Some (s + 120, st3)"
    using CHUNK_Some [of "s + 80" buf "s + 120"] assms by fastforce
  obtain st4 where 4: "CHUNK crc buf 42 (s + 120, permute_bhf st3) = Some (s + 160, st4)"
    using CHUNK_Some [of "s + 120" buf "s + 160"] assms by fastforce
  obtain st5 where 5: "CHUNK crc buf 0 (s + 160, permute_bhd st4) = Some (s + 200, st5)"
    using CHUNK_Some [of "s + 160" buf "s + 200"] assms by fastforce
  obtain st6 where "CHUNK crc buf 33 (s + 200, permute_bhe st5) = Some (s + 240, st6)"
    using CHUNK_Some [of "s + 200" buf "s + 240"] assms by fastforce
  with 1 2 3 4 5 show ?thesis by (simp add: crc_iteration_def)
qed

lemma crc_iterations_Some:
  "0 < iters \<Longrightarrow> 0 \<le> s \<Longrightarrow> s + 240 * int iters \<le> int (length buf) \<Longrightarrow>
     \<exists>st'. crc_iterations crc buf iters (s, st) = Some (s + 240 * int iters, st')"
proof (induction iters arbitrary: s st)
  case (Suc n)
  then obtain st1 where st1: "crc_iteration crc buf (s, st) = Some (s + 240, st1)"
    using crc_iteration_Some [of s buf crc st] by auto
  show ?case
  proof (cases "n = 0")
    case False
    then have "\<exists>st'. crc_iterations crc buf n (s + 240, st1) = Some (s + 240 + 240 * int n, st')"
      using Suc by (intro Suc.IH) auto
    with False st1 show ?thesis by (subst crc_iterations.simps) (auto simp: algebra_simps)
  qed (use st1 in \<open>subst crc_iterations.simps, simp\<close>)
qed simp

lemma crc_rest_Some:
  "0 \<le> s \<Longrightarrow> s + int len \<le> int (length buf) \<Longrightarrow>
     \<exists>len' st'. crc_rest crc buf len (s, st) = Some (len', s + int len - int len', st') \<and> len' < 40"
proof (induction len arbitrary: s st rule: less_induct)
  case (less len)
  show ?case
  proof (cases "40 \<le> len")
    case True
    obtain st1 where st1: "CHUNK crc buf 29 (s, st) = Some (s + 40, st1)"
      using CHUNK_Some [of s buf "s + 40" crc 29 st] less.prems True by auto
    have "\<exists>len' st'. crc_rest crc buf (len - 40) (s + 40, permute_chg (crc_mix 20 30 40 34 st1))
        = Some (len', s + 40 + int (len - 40) - int len', st') \<and> len' < 40"
      using less.prems True by (intro less.IH) auto
    with st1 True show ?thesis by (subst crc_rest.simps) (auto simp: of_nat_diff algebra_simps)
  qed (auto simp: crc_rest.simps)
qed

lemma crc_input_Some:
  assumes "0 \<le> s" "s + int len \<le> int (length buf)" "240 \<le> len"
  shows "\<exists>st'. crc_input crc buf s len st = Some st'"
proof -
  let ?iters = "len div 240"
  have iters: "0 < ?iters" "240 * ?iters \<le> len" using assms(3) by (auto simp: div_greater_zero_iff)
  then have le: "240 * int ?iters \<le> int len" by linarith
  obtain st1 where st1: "crc_iterations crc buf ?iters (s, st) = Some (s + 240 * int ?iters, st1)"
    using crc_iterations_Some [OF iters(1) assms(1), of buf crc st] le assms(2) by auto
  have "int (len - ?iters * 240) = int len - 240 * int ?iters" using iters(2) by (simp add: of_nat_diff)
  then obtain len' st2 where st2: "crc_rest crc buf (len - ?iters * 240) (s + 240 * int ?iters, st1)
      = Some (len', s + int len - int len', st2)"
    using crc_rest_Some [of "s + 240 * int ?iters" "len - ?iters * 240" buf crc st1] assms by auto
  show ?thesis
    using CHUNK_Some [of "s + int len - 40" buf "s + int len" crc 33 st2] assms st1 st2
    by (auto simp: crc_input_def Let_def)
qed

lemma CityHashCrc256Long_Some:
  assumes "0 \<le> s" "s + int len \<le> int (length buf)" "240 \<le> len"
  shows "\<exists>h. CityHashCrc256Long crc buf s len seed = Some h"
  using assms crc_input_Some [OF assms] by (simp add: CityHashCrc256Long_def Let_def bind_eq_Some_conv del: split_paired_Ex)

lemma CityHashCrc256_Some:
  assumes "0 \<le> s" "s + int len \<le> int (length buf)"
  shows "\<exists>h. CityHashCrc256 crc buf s len = Some h"
proof (cases "240 \<le> len")
  case False
  then have "\<exists>h. CityHashCrc256Long crc (take len (drop (nat s) buf) @ replicate (240 - len) 0) 0 240 (NOT (of_nat len)) = Some h"
    using assms by (intro CityHashCrc256Long_Some) auto
  with False assms show ?thesis by (simp add: CityHashCrc256_def CityHashCrc256Short_def)
qed (use assms in \<open>simp add: CityHashCrc256_def CityHashCrc256Long_Some del: split_paired_Ex\<close>)

section \<open>Properties\<close>

text \<open>
  C38: The SSE 4.2 hashes load only bytes of their input, whatever its length: the loads ahead of
  the loop, the chunks of 40 bytes and the last one that overlaps its predecessor.
\<close>

theorem CityHashCrc_in_bounds:
  assumes "0 \<le> s" "s + int len \<le> int (length buf)"
  shows "(\<exists>h. CityHashCrc256 crc buf s len = Some h) \<and> (\<exists>h. CityHashCrc128 crc buf s len = Some h)
    \<and> (\<exists>h. CityHashCrc128WithSeed crc buf s len seed = Some h)"
  using assms CityHashCrc256_Some [OF assms, of crc] CityHash128_Some [OF assms] CityHash128WithSeed_Some [OF assms, of seed]
  by (auto simp: CityHashCrc128_def CityHashCrc128WithSeed_def Let_def)

theorem CityHashCrc_in_bounds_witness:
  "\<exists>h. CityHashCrc128 (\<lambda>x y. x XOR y) (replicate 1000 7) 5 991 = Some h"
  using CityHashCrc_in_bounds [of 5 991 "replicate 1000 7" "\<lambda>x y. x XOR y" "(0, 0)"] by simp

end
