(* ===== verification/Wire_Format.thy ===== *)
theory Wire_Format
  imports Rpc_Prelude
begin

text \<open>
  The part of the Protocol Buffers runtime that the generated message code calls
  (\<^verbatim>\<open>WireFormatLite\<close>, \<^verbatim>\<open>CodedInputStream\<close>, \<^verbatim>\<open>CodedOutputStream\<close>, \<^verbatim>\<open>UnknownFieldSet\<close>). It is not part of
  the repository, so it is a record of functions that the generated code's model takes as an
  argument, and the locale \<open>wire_format\<close> states what its documentation promises. An input
  stream is the list of bytes that are left. The runtime written out in the second half of
  the theory, base-128 varints as the encoding guide defines them, satisfies the contract.
\<close>

section \<open>The runtime as a parameter\<close>

record 'u wire_runtime =
  UInt64Size :: "u64 \<Rightarrow> nat"
  UInt32Size :: "u32 \<Rightarrow> nat"
  Int32Size :: "i32 \<Rightarrow> nat"
  WriteUInt64ToArray :: "nat \<Rightarrow> u64 \<Rightarrow> byte list"
  WriteUInt32ToArray :: "nat \<Rightarrow> u32 \<Rightarrow> byte list"
  WriteInt32ToArray :: "nat \<Rightarrow> i32 \<Rightarrow> byte list"
  WriteUInt64 :: "nat \<Rightarrow> u64 \<Rightarrow> byte list \<Rightarrow> byte list"
  WriteUInt32 :: "nat \<Rightarrow> u32 \<Rightarrow> byte list \<Rightarrow> byte list"
  WriteInt32 :: "nat \<Rightarrow> i32 \<Rightarrow> byte list \<Rightarrow> byte list"
  ReadTagWithCutoff :: "nat \<Rightarrow> byte list \<Rightarrow> (u32 \<times> bool) \<times> byte list"
  ReadUInt64 :: "byte list \<Rightarrow> (u64 \<times> byte list) option"
  ReadUInt32 :: "byte list \<Rightarrow> (u32 \<times> byte list) option"
  ReadInt32 :: "byte list \<Rightarrow> (i32 \<times> byte list) option"
  ExpectTag :: "u32 \<Rightarrow> byte list \<Rightarrow> byte list option"
  ExpectAtEnd :: "byte list \<Rightarrow> bool"
  GetTagFieldNumber :: "u32 \<Rightarrow> nat"
  is_end_group_tag :: "u32 \<Rightarrow> bool"
  SkipField :: "u32 \<Rightarrow> 'u \<Rightarrow> byte list \<Rightarrow> ('u \<times> byte list) option"
  unknown_none :: 'u
  unknown_empty :: "'u \<Rightarrow> bool"
  unknown_MergeFrom :: "'u \<Rightarrow> 'u \<Rightarrow> 'u"
  SerializeUnknownFieldsToArray :: "'u \<Rightarrow> byte list"
  SerializeUnknownFields :: "'u \<Rightarrow> byte list \<Rightarrow> byte list"
  ComputeUnknownFieldsSize :: "'u \<Rightarrow> nat"

text \<open>
  The contract. A scalar field with a number below 16 is written as a one-byte tag, eight
  times the number plus the wire type 0, and the value; \<^verbatim>\<open>ReadTagWithCutoff\<close> yields the tag 0
  at the end of the input and its second component says that the tag is between 1 and the
  cutoff; \<^verbatim>\<open>ExpectTag\<close> and \<^verbatim>\<open>ExpectAtEnd\<close> may answer no for no reason, but their yes is
  right; no read gives bytes back.
\<close>

locale wire_format =
  fixes rt :: "'u wire_runtime"
  assumes size_u64: "length (WriteUInt64ToArray rt f v64) = 1 + UInt64Size rt v64"
    and size_u32: "length (WriteUInt32ToArray rt f v32) = 1 + UInt32Size rt v32"
    and size_i32: "length (WriteInt32ToArray rt f v32) = 1 + Int32Size rt v32"
    and tag_u64: "0 < f \<Longrightarrow> f < 16 \<Longrightarrow> ReadTagWithCutoff rt 127 (WriteUInt64ToArray rt f v64 @ rest)
                   = ((of_nat (8 * f), True), tl (WriteUInt64ToArray rt f v64) @ rest)"
    and tag_u32: "0 < f \<Longrightarrow> f < 16 \<Longrightarrow> ReadTagWithCutoff rt 127 (WriteUInt32ToArray rt f v32 @ rest)
                   = ((of_nat (8 * f), True), tl (WriteUInt32ToArray rt f v32) @ rest)"
    and tag_i32: "0 < f \<Longrightarrow> f < 16 \<Longrightarrow> ReadTagWithCutoff rt 127 (WriteInt32ToArray rt f v32 @ rest)
                   = ((of_nat (8 * f), True), tl (WriteInt32ToArray rt f v32) @ rest)"
    and read_u64: "ReadUInt64 rt (tl (WriteUInt64ToArray rt f v64) @ rest) = Some (v64, rest)"
    and read_u32: "ReadUInt32 rt (tl (WriteUInt32ToArray rt f v32) @ rest) = Some (v32, rest)"
    and read_i32: "ReadInt32 rt (tl (WriteInt32ToArray rt f v32) @ rest) = Some (v32, rest)"
    and expect_tag: "ExpectTag rt t inp = Some inp' \<Longrightarrow> 0 < t \<Longrightarrow> t \<le> 127 \<Longrightarrow>
                   ReadTagWithCutoff rt 127 inp = ((t, True), inp')"
    and expect_at_end: "ExpectAtEnd rt inp \<Longrightarrow> inp = []"
    and tag_at_end: "ReadTagWithCutoff rt n [] = ((0, False), [])"
    and tag_nonzero: "ReadTagWithCutoff rt n inp = ((t, True), inp') \<Longrightarrow> t \<noteq> 0"
    and tag_progress: "ReadTagWithCutoff rt n inp = ((t, b), inp') \<Longrightarrow> t \<noteq> 0 \<Longrightarrow>
                   length inp' < length inp"
    and u64_progress: "ReadUInt64 rt inp = Some (v64, inp') \<Longrightarrow> length inp' \<le> length inp"
    and u32_progress: "ReadUInt32 rt inp = Some (v32, inp') \<Longrightarrow> length inp' \<le> length inp"
    and i32_progress: "ReadInt32 rt inp = Some (v32, inp') \<Longrightarrow> length inp' \<le> length inp"
    and expect_progress: "ExpectTag rt t inp = Some inp' \<Longrightarrow> length inp' \<le> length inp"
    and skip_progress: "SkipField rt t u inp = Some (u', inp') \<Longrightarrow> length inp' \<le> length inp"
    and field_number: "f < 16 \<Longrightarrow> GetTagFieldNumber rt (of_nat (8 * f)) = f"
    and unknown_none_empty: "unknown_empty rt (unknown_none rt)"
    and unknown_merge_none: "unknown_MergeFrom rt (unknown_none rt) u = u"
    and size_unknown: "length (SerializeUnknownFieldsToArray rt u) = ComputeUnknownFieldsSize rt u"
    and stream_u64: "WriteUInt64 rt f v64 out = out @ WriteUInt64ToArray rt f v64"
    and stream_u32: "WriteUInt32 rt f v32 out = out @ WriteUInt32ToArray rt f v32"
    and stream_i32: "WriteInt32 rt f v32 out = out @ WriteInt32ToArray rt f v32"
    and stream_unknown: "SerializeUnknownFields rt u out = out @ SerializeUnknownFieldsToArray rt u"

section \<open>The encoding guide's runtime\<close>

fun varint_encode :: "nat \<Rightarrow> byte list" where
  "varint_encode n =
     (if n < 128 then [of_nat n] else of_nat (n mod 128 + 128) # varint_encode (n div 128))"

declare varint_encode.simps [simp del]

text \<open>A varint is read byte by byte, seven bits each, and has at most ten bytes.\<close>

fun varint_decode :: "nat \<Rightarrow> byte list \<Rightarrow> (nat \<times> byte list) option" where
  "varint_decode 0 inp = None"
| "varint_decode (Suc k) [] = None"
| "varint_decode (Suc k) (b # inp) =
     (if unat b < 128 then Some (unat b, inp)
      else map_option (\<lambda>(n, inp). (unat b - 128 + 128 * n, inp)) (varint_decode k inp))"

definition ReadVarint :: "byte list \<Rightarrow> (nat \<times> byte list) option" where
  "ReadVarint inp = varint_decode 10 inp"

definition varint_size :: "nat \<Rightarrow> nat" where
  "varint_size n = length (varint_encode n)"

definition skip_bytes :: "nat \<Rightarrow> byte list \<Rightarrow> (byte list \<times> byte list) option" where
  "skip_bytes n inp = (if n \<le> length inp then Some (take n inp, drop n inp) else None)"

text \<open>
  Unknown fields are kept as the bytes they came in. Wire types: 0 varint, 1 eight bytes,
  2 length-delimited, 5 four bytes; the deprecated groups are not accepted.
\<close>

definition guide_SkipField :: "u32 \<Rightarrow> byte list \<Rightarrow> byte list \<Rightarrow> (byte list \<times> byte list) option" where
  "guide_SkipField t u inp =
     (let keep = (\<lambda>payload. u @ varint_encode (unat t) @ payload) in
      case unat t mod 8 of
        0 \<Rightarrow> map_option (\<lambda>(n, inp). (keep (varint_encode n), inp)) (ReadVarint inp)
      | wt \<Rightarrow>
        if wt = 1 then map_option (\<lambda>(p, inp). (keep p, inp)) (skip_bytes 8 inp)
        else if wt = 5 then map_option (\<lambda>(p, inp). (keep p, inp)) (skip_bytes 4 inp)
        else if wt = 2 then
          (case ReadVarint inp of
             None \<Rightarrow> None
           | Some (n, inp) \<Rightarrow>
               map_option (\<lambda>(p, inp). (keep (varint_encode n @ p), inp)) (skip_bytes n inp))
        else None)"

definition guide_tag :: "nat \<Rightarrow> byte list \<Rightarrow> (u32 \<times> bool) \<times> byte list" where
  "guide_tag cutoff inp =
     (case ReadVarint inp of
        None \<Rightarrow> ((0, False), [])
      | Some (n, inp) \<Rightarrow>
          let t = of_nat n :: u32 in ((t, 1 \<le> unat t \<and> unat t \<le> cutoff), inp))"

definition guide_runtime :: "byte list wire_runtime" where
  "guide_runtime = \<lparr>
     UInt64Size = (\<lambda>v. varint_size (unat v)),
     UInt32Size = (\<lambda>v. varint_size (unat v)),
     Int32Size = (\<lambda>v. varint_size (unat (scast v :: u64))),
     WriteUInt64ToArray = (\<lambda>f v. of_nat (8 * f) # varint_encode (unat v)),
     WriteUInt32ToArray = (\<lambda>f v. of_nat (8 * f) # varint_encode (unat v)),
     WriteInt32ToArray = (\<lambda>f v. of_nat (8 * f) # varint_encode (unat (scast v :: u64))),
     WriteUInt64 = (\<lambda>f v out. out @ of_nat (8 * f) # varint_encode (unat v)),
     WriteUInt32 = (\<lambda>f v out. out @ of_nat (8 * f) # varint_encode (unat v)),
     WriteInt32 = (\<lambda>f v out. out @ of_nat (8 * f) # varint_encode (unat (scast v :: u64))),
     ReadTagWithCutoff = guide_tag,
     ReadUInt64 = (\<lambda>inp. map_option (\<lambda>(n, inp). (of_nat n, inp)) (ReadVarint inp)),
     ReadUInt32 = (\<lambda>inp. map_option (\<lambda>(n, inp). (of_nat n, inp)) (ReadVarint inp)),
     ReadInt32 = (\<lambda>inp. map_option (\<lambda>(n, inp). (of_nat n, inp)) (ReadVarint inp)),
     ExpectTag = (\<lambda>t inp. case inp of [] \<Rightarrow> None
                   | b # inp \<Rightarrow> if 0 < t \<and> t < 128 \<and> ucast b = t then Some inp else None),
     ExpectAtEnd = (\<lambda>inp. inp = []),
     GetTagFieldNumber = (\<lambda>t. unat t div 8),
     is_end_group_tag = (\<lambda>t. unat t mod 8 = 4),
     SkipField = guide_SkipField,
     unknown_none = [],
     unknown_empty = (\<lambda>u. u = []),
     unknown_MergeFrom = (\<lambda>u v. u @ v),
     SerializeUnknownFieldsToArray = (\<lambda>u. u),
     SerializeUnknownFields = (\<lambda>u out. out @ u),
     ComputeUnknownFieldsSize = length\<rparr>"

lemma unat_byte_less: "unat (b :: byte) < 256"
  using unsigned_less [of b, where ?'a = nat] by simp

lemma unat_of_nat_byte: "n < 256 \<Longrightarrow> unat (of_nat n :: byte) = n"
  by (simp add: unat_of_nat)

lemma varint_decode_encode:
  "n < 128 ^ k \<Longrightarrow> 0 < k \<Longrightarrow> varint_decode k (varint_encode n @ rest) = Some (n, rest)"
proof (induction n arbitrary: k rule: varint_encode.induct)
  case (1 n)
  obtain j where k: "k = Suc j" using 1 by (cases k) auto
  show ?case
  proof (cases "n < 128")
    case True
    then show ?thesis by (subst varint_encode.simps) (simp add: k unat_of_nat_byte)
  next
    case False
    have "n div 128 < 128 ^ j" using "1.prems"(1) k by (simp add: less_mult_imp_div_less mult.commute)
    moreover have "0 < j" using False "1.prems"(1) k by (cases j) auto
    ultimately have "varint_decode j (varint_encode (n div 128) @ rest) = Some (n div 128, rest)"
      using "1.IH" False by simp
    moreover have "unat (of_nat (n mod 128 + 128) :: byte) = n mod 128 + 128"
      by (rule unat_of_nat_byte) simp
    ultimately show ?thesis using False
      by (subst varint_encode.simps) (simp add: k del: of_nat_add)
  qed
qed

lemma varint_length: "n < 128 ^ k \<Longrightarrow> 0 < k \<Longrightarrow> length (varint_encode n) \<le> k"
proof (induction n arbitrary: k rule: varint_encode.induct)
  case (1 n)
  obtain j where k: "k = Suc j" using 1 by (cases k) auto
  show ?case
  proof (cases "n < 128")
    case True
    then show ?thesis by (subst varint_encode.simps) (simp add: k)
  next
    case False
    have "n div 128 < 128 ^ j" using "1.prems"(1) k by (simp add: less_mult_imp_div_less mult.commute)
    moreover have "0 < j" using False "1.prems"(1) k by (cases j) auto
    ultimately show ?thesis using "1.IH" False by (subst varint_encode.simps) (simp add: k)
  qed
qed

lemma varint_length_word: "length (varint_encode (unat (w :: u64))) \<le> 10"
  using unsigned_less [of w, where ?'a = nat] by (intro varint_length) simp_all

lemma varint_length_word32: "length (varint_encode (unat (w :: u32))) \<le> 10"
  using unsigned_less [of w, where ?'a = nat] by (intro varint_length) simp_all

lemma ReadVarint_encode: "n < 2 ^ 64 \<Longrightarrow> ReadVarint (varint_encode n @ rest) = Some (n, rest)"
  unfolding ReadVarint_def by (rule varint_decode_encode) simp_all

lemma varint_decode_progress: "varint_decode k inp = Some (n, inp') \<Longrightarrow> length inp' < length inp"
proof (induction k inp arbitrary: n inp' rule: varint_decode.induct)
  case (3 k b inp)
  then show ?case by (fastforce split: if_splits)
qed simp_all

lemma ReadVarint_progress: "ReadVarint inp = Some (n, inp') \<Longrightarrow> length inp' < length inp"
  unfolding ReadVarint_def by (rule varint_decode_progress)

lemma ReadVarint_u64: "ReadVarint (varint_encode (unat (w :: u64)) @ rest) = Some (unat w, rest)"
  by (rule ReadVarint_encode) (use unsigned_less [of w, where ?'a = nat] in simp)

lemma ReadVarint_u32: "ReadVarint (varint_encode (unat (w :: u32)) @ rest) = Some (unat w, rest)"
  by (rule ReadVarint_encode) (use unsigned_less [of w, where ?'a = nat] in simp)

lemma ucast_scast_i32: "ucast (scast (v :: i32) :: u64) = v"
proof (rule bit_word_eqI)
  fix n assume "n < LENGTH(32)"
  then show "bit (ucast (scast v :: u64) :: i32) n = bit v n"
    by (cases "n = 31") (auto simp: bit_simps)
qed

lemma guide_SkipField_progress:
  "guide_SkipField t u inp = Some (u', inp') \<Longrightarrow> length inp' \<le> length inp"
  by (fastforce simp: guide_SkipField_def Let_def skip_bytes_def
      split: nat.splits if_splits option.splits dest: ReadVarint_progress)

lemma ReadVarint_small: "unat b < 128 \<Longrightarrow> ReadVarint (b # inp) = Some (unat b, inp)"
  by (simp add: ReadVarint_def eval_nat_numeral)

lemma ReadVarint_Nil: "ReadVarint [] = None"
  by (simp add: ReadVarint_def eval_nat_numeral)

lemma guide_tag_small:
  "0 < f \<Longrightarrow> f < 16 \<Longrightarrow> guide_tag 127 (of_nat (8 * f) # inp) = ((of_nat (8 * f), True), inp)"
  using ReadVarint_small [of "of_nat (8 * f)" inp]
  by (simp add: guide_tag_def unat_of_nat_byte unat_of_nat del: of_nat_mult)

lemma guide_ExpectTag:
  assumes "ExpectTag guide_runtime t inp = Some inp'"
  shows "ReadTagWithCutoff guide_runtime 127 inp = ((t, True), inp')"
proof -
  obtain b where b: "inp = b # inp'" "0 < t" "t < 128" "ucast b = t"
    using assms by (auto simp: guide_runtime_def split: list.splits if_splits)
  have "unat t < 128" "0 < unat t" using b by (simp_all add: word_less_nat_alt unat_gt_0)
  moreover have "unat b = unat t"
    using b unat_byte_less [of b] by (auto simp: unsigned_ucast_eq take_bit_nat_eq_self)
  ultimately show ?thesis using b ReadVarint_small [of b inp']
    by (simp add: guide_runtime_def guide_tag_def)
qed

lemmas guide_laws = guide_runtime_def varint_size_def guide_tag_small ReadVarint_u64 ReadVarint_u32
  ucast_scast_i32

interpretation guide: wire_format guide_runtime
proof unfold_locales
  show "ExpectTag guide_runtime t inp = Some inp' \<Longrightarrow> 0 < t \<Longrightarrow> t \<le> 127 \<Longrightarrow>
      ReadTagWithCutoff guide_runtime 127 inp = ((t, True), inp')" for t inp inp'
    by (rule guide_ExpectTag)
  show "ExpectTag guide_runtime t inp = Some inp' \<Longrightarrow> length inp' \<le> length inp" for t inp inp'
    by (auto simp: guide_runtime_def split: list.splits if_splits)
  show "SkipField guide_runtime t u inp = Some (u', inp') \<Longrightarrow> length inp' \<le> length inp" for t u inp u' inp'
    using guide_SkipField_progress by (simp add: guide_runtime_def)
  show "ReadTagWithCutoff guide_runtime n [] = ((0, False), [])" for n
    by (simp add: guide_runtime_def guide_tag_def ReadVarint_Nil)
  show "ReadTagWithCutoff guide_runtime n inp = ((t, b), inp') \<Longrightarrow> t \<noteq> 0 \<Longrightarrow> length inp' < length inp"
    for n inp t b inp'
    by (auto simp: guide_runtime_def guide_tag_def Let_def dest: ReadVarint_progress split: option.splits)
  show "ReadTagWithCutoff guide_runtime n inp = ((t, True), inp') \<Longrightarrow> t \<noteq> 0" for n inp t inp'
    by (auto simp: guide_runtime_def guide_tag_def Let_def split: option.splits)
  show "f < 16 \<Longrightarrow> GetTagFieldNumber guide_runtime (of_nat (8 * f)) = f" for f
    by (simp add: guide_runtime_def unat_of_nat del: of_nat_mult)
qed (auto simp: guide_laws simp del: of_nat_mult dest: less_imp_le [OF ReadVarint_progress])

end
