(* ===== verification/Rpc_Meta.thy ===== *)
theory Rpc_Meta
  imports Wire_Format
begin

text \<open>
  The message header \<^verbatim>\<open>RPCMetaData\<close> of \<^verbatim>\<open>rpc/detail/protocol/rpc.proto\<close>, as the generated code
  in \<^verbatim>\<open>rpc.pb.h\<close> and \<^verbatim>\<open>rpc.pb.cc\<close> implements it: presence bits, accessors, merging, size,
  serialization and parsing, over the runtime of theory \<open>Wire_Format\<close>. The fields keep the
  generated names without the trailing underscore; \<^verbatim>\<open>_cached_size_\<close>, a mutable memo of
  \<^verbatim>\<open>ByteSize\<close> that nothing in the repository reads, is left out.
\<close>

section \<open>The message and its accessors\<close>

record 'u RPCMetaData =
  md_has_bits :: u32
  md_seq :: u64
  md_service_id :: i32
  md_method_id :: i32
  md_message_length :: u32
  md_unknown_fields :: 'u

definition has_seq :: "'u RPCMetaData \<Rightarrow> bool" where
  "has_seq m \<longleftrightarrow> md_has_bits m AND 0x00000001 \<noteq> 0"
definition set_has_seq :: "'u RPCMetaData \<Rightarrow> 'u RPCMetaData" where
  "set_has_seq m = m\<lparr>md_has_bits := md_has_bits m OR 0x00000001\<rparr>"
definition clear_has_seq :: "'u RPCMetaData \<Rightarrow> 'u RPCMetaData" where
  "clear_has_seq m = m\<lparr>md_has_bits := md_has_bits m AND NOT 0x00000001\<rparr>"
definition clear_seq :: "'u RPCMetaData \<Rightarrow> 'u RPCMetaData" where
  "clear_seq m = clear_has_seq (m\<lparr>md_seq := 0\<rparr>)"
definition set_seq :: "u64 \<Rightarrow> 'u RPCMetaData \<Rightarrow> 'u RPCMetaData" where
  "set_seq v m = (set_has_seq m)\<lparr>md_seq := v\<rparr>"

definition has_service_id :: "'u RPCMetaData \<Rightarrow> bool" where
  "has_service_id m \<longleftrightarrow> md_has_bits m AND 0x00000002 \<noteq> 0"
definition set_has_service_id :: "'u RPCMetaData \<Rightarrow> 'u RPCMetaData" where
  "set_has_service_id m = m\<lparr>md_has_bits := md_has_bits m OR 0x00000002\<rparr>"
definition clear_has_service_id :: "'u RPCMetaData \<Rightarrow> 'u RPCMetaData" where
  "clear_has_service_id m = m\<lparr>md_has_bits := md_has_bits m AND NOT 0x00000002\<rparr>"
definition clear_service_id :: "'u RPCMetaData \<Rightarrow> 'u RPCMetaData" where
  "clear_service_id m = clear_has_service_id (m\<lparr>md_service_id := 0\<rparr>)"
definition set_service_id :: "i32 \<Rightarrow> 'u RPCMetaData \<Rightarrow> 'u RPCMetaData" where
  "set_service_id v m = (set_has_service_id m)\<lparr>md_service_id := v\<rparr>"

definition has_method_id :: "'u RPCMetaData \<Rightarrow> bool" where
  "has_method_id m \<longleftrightarrow> md_has_bits m AND 0x00000004 \<noteq> 0"
definition set_has_method_id :: "'u RPCMetaData \<Rightarrow> 'u RPCMetaData" where
  "set_has_method_id m = m\<lparr>md_has_bits := md_has_bits m OR 0x00000004\<rparr>"
definition clear_has_method_id :: "'u RPCMetaData \<Rightarrow> 'u RPCMetaData" where
  "clear_has_method_id m = m\<lparr>md_has_bits := md_has_bits m AND NOT 0x00000004\<rparr>"
definition clear_method_id :: "'u RPCMetaData \<Rightarrow> 'u RPCMetaData" where
  "clear_method_id m = clear_has_method_id (m\<lparr>md_method_id := 0\<rparr>)"
definition set_method_id :: "i32 \<Rightarrow> 'u RPCMetaData \<Rightarrow> 'u RPCMetaData" where
  "set_method_id v m = (set_has_method_id m)\<lparr>md_method_id := v\<rparr>"

definition has_message_length :: "'u RPCMetaData \<Rightarrow> bool" where
  "has_message_length m \<longleftrightarrow> md_has_bits m AND 0x00000008 \<noteq> 0"
definition set_has_message_length :: "'u RPCMetaData \<Rightarrow> 'u RPCMetaData" where
  "set_has_message_length m = m\<lparr>md_has_bits := md_has_bits m OR 0x00000008\<rparr>"
definition clear_has_message_length :: "'u RPCMetaData \<Rightarrow> 'u RPCMetaData" where
  "clear_has_message_length m = m\<lparr>md_has_bits := md_has_bits m AND NOT 0x00000008\<rparr>"
definition clear_message_length :: "'u RPCMetaData \<Rightarrow> 'u RPCMetaData" where
  "clear_message_length m = clear_has_message_length (m\<lparr>md_message_length := 0\<rparr>)"
definition set_message_length :: "u32 \<Rightarrow> 'u RPCMetaData \<Rightarrow> 'u RPCMetaData" where
  "set_message_length v m = (set_has_message_length m)\<lparr>md_message_length := v\<rparr>"

section \<open>Construction, clearing and merging\<close>

definition SharedCtor :: "'u wire_runtime \<Rightarrow> 'u RPCMetaData" where
  "SharedCtor rt = \<lparr>md_has_bits = 0, md_seq = 0, md_service_id = 0, md_method_id = 0,
     md_message_length = 0, md_unknown_fields = unknown_none rt\<rparr>"

definition RPCMetaData_new :: "'u wire_runtime \<Rightarrow> 'u RPCMetaData" where
  "RPCMetaData_new rt = SharedCtor rt"

definition Meta_Clear :: "'u wire_runtime \<Rightarrow> 'u RPCMetaData \<Rightarrow> 'u RPCMetaData" where
  "Meta_Clear rt m = m\<lparr>md_seq := 0, md_service_id := 0, md_method_id := 0, md_message_length := 0,
     md_has_bits := 0, md_unknown_fields := unknown_none rt\<rparr>"

definition Meta_MergeFrom ::
  "'u wire_runtime \<Rightarrow> 'u RPCMetaData \<Rightarrow> 'u RPCMetaData \<Rightarrow> 'u RPCMetaData" where
  "Meta_MergeFrom rt m src =
     (let m = (if md_has_bits src AND 0xff \<noteq> 0 then
          let m = (if has_seq src then set_seq (md_seq src) m else m);
              m = (if has_service_id src then set_service_id (md_service_id src) m else m);
              m = (if has_method_id src then set_method_id (md_method_id src) m else m);
              m = (if has_message_length src then set_message_length (md_message_length src) m else m)
          in m
        else m)
      in m\<lparr>md_unknown_fields := unknown_MergeFrom rt (md_unknown_fields m) (md_unknown_fields src)\<rparr>)"

text \<open>The copy constructor, and \<^verbatim>\<open>CopyFrom\<close> for a source other than the target.\<close>

definition RPCMetaData_copy :: "'u wire_runtime \<Rightarrow> 'u RPCMetaData \<Rightarrow> 'u RPCMetaData" where
  "RPCMetaData_copy rt src = Meta_MergeFrom rt (SharedCtor rt) src"

definition Meta_CopyFrom ::
  "'u wire_runtime \<Rightarrow> 'u RPCMetaData \<Rightarrow> 'u RPCMetaData \<Rightarrow> 'u RPCMetaData" where
  "Meta_CopyFrom rt m src = Meta_MergeFrom rt (Meta_Clear rt m) src"

definition Meta_IsInitialized :: "'u RPCMetaData \<Rightarrow> bool" where
  "Meta_IsInitialized m \<longleftrightarrow> \<not> (md_has_bits m AND 0x0000000f \<noteq> 0x0000000f)"

definition Meta_Swap :: "'u RPCMetaData \<Rightarrow> 'u RPCMetaData \<Rightarrow> 'u RPCMetaData \<times> 'u RPCMetaData" where
  "Meta_Swap m other =
     (m\<lparr>md_seq := md_seq other, md_service_id := md_service_id other, md_method_id := md_method_id other,
        md_message_length := md_message_length other, md_has_bits := md_has_bits other,
        md_unknown_fields := md_unknown_fields other\<rparr>,
      other\<lparr>md_seq := md_seq m, md_service_id := md_service_id m, md_method_id := md_method_id m,
        md_message_length := md_message_length m, md_has_bits := md_has_bits m,
        md_unknown_fields := md_unknown_fields m\<rparr>)"

section \<open>Size and serialization\<close>

definition Meta_ByteSize :: "'u wire_runtime \<Rightarrow> 'u RPCMetaData \<Rightarrow> nat" where
  "Meta_ByteSize rt m =
     (let total_size = 0;
          total_size = (if md_has_bits m AND 0xff \<noteq> 0 then
            let total_size = (if has_seq m then total_size + (1 + UInt64Size rt (md_seq m)) else total_size);
                total_size = (if has_service_id m then total_size + (1 + Int32Size rt (md_service_id m)) else total_size);
                total_size = (if has_method_id m then total_size + (1 + Int32Size rt (md_method_id m)) else total_size);
                total_size = (if has_message_length m then total_size + (1 + UInt32Size rt (md_message_length m)) else total_size)
            in total_size
          else total_size);
          total_size = (if \<not> unknown_empty rt (md_unknown_fields m)
            then total_size + ComputeUnknownFieldsSize rt (md_unknown_fields m) else total_size)
      in total_size)"

definition SerializeWithCachedSizes :: "'u wire_runtime \<Rightarrow> 'u RPCMetaData \<Rightarrow> byte list \<Rightarrow> byte list" where
  "SerializeWithCachedSizes rt m output =
     (let output = (if has_seq m then WriteUInt64 rt 1 (md_seq m) output else output);
          output = (if has_service_id m then WriteInt32 rt 2 (md_service_id m) output else output);
          output = (if has_method_id m then WriteInt32 rt 3 (md_method_id m) output else output);
          output = (if has_message_length m then WriteUInt32 rt 4 (md_message_length m) output else output);
          output = (if \<not> unknown_empty rt (md_unknown_fields m)
                    then SerializeUnknownFields rt (md_unknown_fields m) output else output)
      in output)"

definition SerializeWithCachedSizesToArray :: "'u wire_runtime \<Rightarrow> 'u RPCMetaData \<Rightarrow> byte list \<Rightarrow> byte list" where
  "SerializeWithCachedSizesToArray rt m target =
     (let target = (if has_seq m then target @ WriteUInt64ToArray rt 1 (md_seq m) else target);
          target = (if has_service_id m then target @ WriteInt32ToArray rt 2 (md_service_id m) else target);
          target = (if has_method_id m then target @ WriteInt32ToArray rt 3 (md_method_id m) else target);
          target = (if has_message_length m then target @ WriteUInt32ToArray rt 4 (md_message_length m) else target);
          target = (if \<not> unknown_empty rt (md_unknown_fields m)
                    then target @ SerializeUnknownFieldsToArray rt (md_unknown_fields m) else target)
      in target)"

section \<open>Parsing\<close>

text \<open>
  \<^verbatim>\<open>MergePartialFromCodedStream\<close> is a \<^verbatim>\<open>for (;;)\<close> loop whose cases jump into one another: each
  label is a function, and the value says where control goes next, to the head of the loop,
  to \<^verbatim>\<open>success\<close> or to \<^verbatim>\<open>failure\<close>, with the message and the rest of the input.
\<close>

datatype 'u parse_step =
    Parse_next "'u RPCMetaData" "byte list"
  | Parse_success "'u RPCMetaData" "byte list"
  | Parse_failure "'u RPCMetaData"

definition parse_message_length :: "'u wire_runtime \<Rightarrow> 'u RPCMetaData \<Rightarrow> byte list \<Rightarrow> 'u parse_step" where
  "parse_message_length rt m inp =
     (case ReadUInt32 rt inp of
        None \<Rightarrow> Parse_failure m
      | Some (v, inp) \<Rightarrow>
          let m = set_has_message_length (m\<lparr>md_message_length := v\<rparr>) in
          if ExpectAtEnd rt inp then Parse_success m inp else Parse_next m inp)"

definition parse_method_id :: "'u wire_runtime \<Rightarrow> 'u RPCMetaData \<Rightarrow> byte list \<Rightarrow> 'u parse_step" where
  "parse_method_id rt m inp =
     (case ReadInt32 rt inp of
        None \<Rightarrow> Parse_failure m
      | Some (v, inp) \<Rightarrow>
          let m = set_has_method_id (m\<lparr>md_method_id := v\<rparr>) in
          (case ExpectTag rt 32 inp of
             Some inp \<Rightarrow> parse_message_length rt m inp
           | None \<Rightarrow> Parse_next m inp))"

definition parse_service_id :: "'u wire_runtime \<Rightarrow> 'u RPCMetaData \<Rightarrow> byte list \<Rightarrow> 'u parse_step" where
  "parse_service_id rt m inp =
     (case ReadInt32 rt inp of
        None \<Rightarrow> Parse_failure m
      | Some (v, inp) \<Rightarrow>
          let m = set_has_service_id (m\<lparr>md_service_id := v\<rparr>) in
          (case ExpectTag rt 24 inp of
             Some inp \<Rightarrow> parse_method_id rt m inp
           | None \<Rightarrow> Parse_next m inp))"

definition parse_seq :: "'u wire_runtime \<Rightarrow> 'u RPCMetaData \<Rightarrow> byte list \<Rightarrow> 'u parse_step" where
  "parse_seq rt m inp =
     (case ReadUInt64 rt inp of
        None \<Rightarrow> Parse_failure m
      | Some (v, inp) \<Rightarrow>
          let m = set_has_seq (m\<lparr>md_seq := v\<rparr>) in
          (case ExpectTag rt 16 inp of
             Some inp \<Rightarrow> parse_service_id rt m inp
           | None \<Rightarrow> Parse_next m inp))"

definition handle_unusual :: "'u wire_runtime \<Rightarrow> u32 \<Rightarrow> 'u RPCMetaData \<Rightarrow> byte list \<Rightarrow> 'u parse_step" where
  "handle_unusual rt tag m inp =
     (if tag = 0 \<or> is_end_group_tag rt tag then Parse_success m inp
      else case SkipField rt tag (md_unknown_fields m) inp of
        None \<Rightarrow> Parse_failure m
      | Some (u, inp) \<Rightarrow> Parse_next (m\<lparr>md_unknown_fields := u\<rparr>) inp)"

definition parse_iteration :: "'u wire_runtime \<Rightarrow> 'u RPCMetaData \<Rightarrow> byte list \<Rightarrow> 'u parse_step" where
  "parse_iteration rt m inp =
     (case ReadTagWithCutoff rt 127 inp of
        ((tag, ok), inp) \<Rightarrow>
          if \<not> ok then handle_unusual rt tag m inp
          else if GetTagFieldNumber rt tag = 1 then
            (if tag = 8 then parse_seq rt m inp else handle_unusual rt tag m inp)
          else if GetTagFieldNumber rt tag = 2 then
            (if tag = 16 then parse_service_id rt m inp else handle_unusual rt tag m inp)
          else if GetTagFieldNumber rt tag = 3 then
            (if tag = 24 then parse_method_id rt m inp else handle_unusual rt tag m inp)
          else if GetTagFieldNumber rt tag = 4 then
            (if tag = 32 then parse_message_length rt m inp else handle_unusual rt tag m inp)
          else handle_unusual rt tag m inp)"

text \<open>
  The loop may not end for an arbitrary runtime: then there is no value (\<open>None\<close>). A value
  \<open>Inl m\<close> is the return of \<^verbatim>\<open>false\<close>, \<open>Inr (m, rest)\<close> the return of \<^verbatim>\<open>true\<close>.
\<close>

partial_function (option) MergePartialFromCodedStream ::
  "'u wire_runtime \<Rightarrow> 'u RPCMetaData \<Rightarrow> byte list \<Rightarrow>
     ('u RPCMetaData + 'u RPCMetaData \<times> byte list) option" where
  "MergePartialFromCodedStream rt m inp =
     (case parse_iteration rt m inp of
        Parse_next m inp \<Rightarrow> MergePartialFromCodedStream rt m inp
      | Parse_success m inp \<Rightarrow> Some (Inr (m, inp))
      | Parse_failure m \<Rightarrow> Some (Inl m))"

section \<open>Presence bits\<close>

named_theorems meta_bits \<open>presence bits as bits of the word\<close>

lemma and_exp_neq_0 [meta_bits]:
  "w AND 1 \<noteq> (0 :: u32) \<longleftrightarrow> bit w 0" "w AND 2 \<noteq> (0 :: u32) \<longleftrightarrow> bit w 1"
  "w AND 4 \<noteq> (0 :: u32) \<longleftrightarrow> bit w 2" "w AND 8 \<noteq> (0 :: u32) \<longleftrightarrow> bit w 3"
  using and_exp_eq_0_iff_not_bit [of w 0] and_exp_eq_0_iff_not_bit [of w 1]
    and_exp_eq_0_iff_not_bit [of w 2] and_exp_eq_0_iff_not_bit [of w 3] by simp_all

lemma has_bits_iff [meta_bits]:
  "has_seq m \<longleftrightarrow> bit (md_has_bits m) 0"
  "has_service_id m \<longleftrightarrow> bit (md_has_bits m) 1"
  "has_method_id m \<longleftrightarrow> bit (md_has_bits m) 2"
  "has_message_length m \<longleftrightarrow> bit (md_has_bits m) 3"
  by (simp_all only: has_seq_def has_service_id_def has_method_id_def has_message_length_def and_exp_neq_0)

lemma or_exp_set_bit [meta_bits]:
  "w OR 1 = set_bit 0 (w :: u32)" "w OR 2 = set_bit 1 (w :: u32)"
  "w OR 4 = set_bit 2 (w :: u32)" "w OR 8 = set_bit 3 (w :: u32)"
  by (simp_all add: set_bit_eq_or)

lemma and_not_exp_unset_bit [meta_bits]:
  "w AND NOT 1 = unset_bit 0 (w :: u32)" "w AND NOT 2 = unset_bit 1 (w :: u32)"
  "w AND NOT 4 = unset_bit 2 (w :: u32)" "w AND NOT 8 = unset_bit 3 (w :: u32)"
  by (simp_all add: unset_bit_eq_and_not)

lemma and_ff_neq_0:
  "w AND 0xff \<noteq> (0 :: u32) \<longleftrightarrow> (\<exists>k < 8. bit w k)"
proof -
  have "w AND 0xff = take_bit 8 w" by (simp add: take_bit_eq_mask mask_eq_exp_minus_1)
  moreover have "take_bit 8 w = 0 \<longleftrightarrow> (\<forall>k < 8. \<not> bit w k)"
    by (auto simp: word_bits_iff bit_take_bit_iff)
  ultimately show ?thesis by simp
qed

lemma IsInitialized_iff:
  "Meta_IsInitialized m \<longleftrightarrow> has_seq m \<and> has_service_id m \<and> has_method_id m \<and> has_message_length m"
proof -
  have e: "(0xf :: u32) = mask 4" by (simp add: mask_eq_exp_minus_1)
  have "md_has_bits m AND mask 4 = mask 4 \<longleftrightarrow> (\<forall>k < 4. bit (md_has_bits m) k)"
    unfolding word_bits_iff bit_and_iff bit_mask_iff possible_bit_word by force
  then have "Meta_IsInitialized m \<longleftrightarrow> (\<forall>k < 4. bit (md_has_bits m) k)"
    unfolding Meta_IsInitialized_def e by simp
  also have "\<dots> \<longleftrightarrow> bit (md_has_bits m) 0 \<and> bit (md_has_bits m) 1 \<and> bit (md_has_bits m) 2 \<and> bit (md_has_bits m) 3"
    by (auto simp: eval_nat_numeral less_Suc_eq)
  finally show ?thesis by (simp add: has_bits_iff)
qed

lemmas meta_setters = set_seq_def set_service_id_def set_method_id_def set_message_length_def
  set_has_seq_def set_has_service_id_def set_has_method_id_def set_has_message_length_def

lemma clear_has_unset_bit:
  "clear_has_seq m = m\<lparr>md_has_bits := unset_bit 0 (md_has_bits m)\<rparr>"
  "clear_has_service_id m = m\<lparr>md_has_bits := unset_bit 1 (md_has_bits m)\<rparr>"
  "clear_has_method_id m = m\<lparr>md_has_bits := unset_bit 2 (md_has_bits m)\<rparr>"
  "clear_has_message_length m = m\<lparr>md_has_bits := unset_bit 3 (md_has_bits m)\<rparr>"
  by (simp_all only: clear_has_seq_def clear_has_service_id_def clear_has_method_id_def
      clear_has_message_length_def and_not_exp_unset_bit)

lemmas meta_clearers = clear_seq_def clear_service_id_def clear_method_id_def clear_message_length_def
  clear_has_unset_bit

text \<open>
  What every message the generated code builds satisfies: an absent field holds its default,
  and only the four declared presence bits are ever set.
\<close>

definition Meta_wf :: "'u RPCMetaData \<Rightarrow> bool" where
  "Meta_wf m \<longleftrightarrow> (has_seq m \<or> md_seq m = 0) \<and> (has_service_id m \<or> md_service_id m = 0)
     \<and> (has_method_id m \<or> md_method_id m = 0) \<and> (has_message_length m \<or> md_message_length m = 0)
     \<and> take_bit 4 (md_has_bits m) = md_has_bits m"

lemma take_bit_4_self: "take_bit 4 (w :: u32) = w \<longleftrightarrow> (\<forall>k. bit w k \<longrightarrow> k < 4)"
  by (auto simp: word_bits_iff bit_take_bit_iff)

lemmas Meta_wf_simps = Meta_wf_def has_bits_iff take_bit_4_self

lemma Meta_wf_new [intro!, simp]: "Meta_wf (RPCMetaData_new rt)" "Meta_wf (SharedCtor rt)" "Meta_wf (Meta_Clear rt m)"
  by (simp_all add: Meta_wf_simps RPCMetaData_new_def SharedCtor_def Meta_Clear_def)

lemma Meta_wf_set [intro!]:
  "Meta_wf m \<Longrightarrow> Meta_wf (set_seq a m)" "Meta_wf m \<Longrightarrow> Meta_wf (set_service_id b m)"
  "Meta_wf m \<Longrightarrow> Meta_wf (set_method_id b m)" "Meta_wf m \<Longrightarrow> Meta_wf (set_message_length b m)"
  by (auto simp: Meta_wf_simps meta_setters or_exp_set_bit bit_simps)

lemma Meta_wf_clear [intro!]:
  "Meta_wf m \<Longrightarrow> Meta_wf (clear_seq m)" "Meta_wf m \<Longrightarrow> Meta_wf (clear_service_id m)"
  "Meta_wf m \<Longrightarrow> Meta_wf (clear_method_id m)" "Meta_wf m \<Longrightarrow> Meta_wf (clear_message_length m)"
  by (auto simp: Meta_wf_simps meta_clearers bit_simps)

lemma Meta_wf_unknown [simp]: "Meta_wf (m\<lparr>md_unknown_fields := u\<rparr>) = Meta_wf m"
  by (simp add: Meta_wf_simps)

lemma MergeFrom_fields:
  "md_seq (Meta_MergeFrom rt m src) = (if has_seq src then md_seq src else md_seq m)"
  "md_service_id (Meta_MergeFrom rt m src) = (if has_service_id src then md_service_id src else md_service_id m)"
  "md_method_id (Meta_MergeFrom rt m src) = (if has_method_id src then md_method_id src else md_method_id m)"
  "md_message_length (Meta_MergeFrom rt m src)
     = (if has_message_length src then md_message_length src else md_message_length m)"
  "bit (md_has_bits (Meta_MergeFrom rt m src)) k \<longleftrightarrow> bit (md_has_bits m) k
     \<or> k < 4 \<and> bit (md_has_bits src) k"
  "md_unknown_fields (Meta_MergeFrom rt m src)
     = unknown_MergeFrom rt (md_unknown_fields m) (md_unknown_fields src)"
proof -
  have none: "\<not> has_seq src \<and> \<not> has_service_id src \<and> \<not> has_method_id src \<and> \<not> has_message_length src
      \<and> (\<forall>k < 4. \<not> bit (md_has_bits src) k)"
    if "md_has_bits src AND 0xff = 0"
    using that and_ff_neq_0 [of "md_has_bits src"] by (auto simp: has_bits_iff)
  have 4: "k < 4 \<longleftrightarrow> k = 0 \<or> k = 1 \<or> k = 2 \<or> k = 3" for k :: nat by auto
  note split = none Meta_MergeFrom_def Let_def meta_setters
  show "md_seq (Meta_MergeFrom rt m src) = (if has_seq src then md_seq src else md_seq m)"
    by (cases "md_has_bits src AND 0xff = 0") (simp_all add: split)
  show "md_service_id (Meta_MergeFrom rt m src) = (if has_service_id src then md_service_id src else md_service_id m)"
    by (cases "md_has_bits src AND 0xff = 0") (simp_all add: split)
  show "md_method_id (Meta_MergeFrom rt m src) = (if has_method_id src then md_method_id src else md_method_id m)"
    by (cases "md_has_bits src AND 0xff = 0") (simp_all add: split)
  show "md_message_length (Meta_MergeFrom rt m src)
     = (if has_message_length src then md_message_length src else md_message_length m)"
    by (cases "md_has_bits src AND 0xff = 0") (simp_all add: split)
  show "md_unknown_fields (Meta_MergeFrom rt m src)
     = unknown_MergeFrom rt (md_unknown_fields m) (md_unknown_fields src)"
    by (cases "md_has_bits src AND 0xff = 0") (simp_all add: split)
  show "bit (md_has_bits (Meta_MergeFrom rt m src)) k \<longleftrightarrow> bit (md_has_bits m) k
     \<or> k < 4 \<and> bit (md_has_bits src) k"
  proof (cases "md_has_bits src AND 0xff = 0")
    case True
    then show ?thesis using none by (auto simp: Meta_MergeFrom_def Let_def)
  next
    case False
    then show ?thesis
      by (auto simp: Meta_MergeFrom_def Let_def meta_setters or_exp_set_bit bit_simps 4 has_bits_iff)
  qed
qed

lemma Meta_wf_MergeFrom: "Meta_wf m \<Longrightarrow> Meta_wf (Meta_MergeFrom rt m src)"
  by (auto simp: Meta_MergeFrom_def Let_def)

text \<open>The parser stores the value first and then the presence bit: the same as the setter.\<close>

lemma set_has_after_store:
  "set_has_seq (m\<lparr>md_seq := a\<rparr>) = set_seq a m"
  "set_has_service_id (m\<lparr>md_service_id := b\<rparr>) = set_service_id b m"
  "set_has_method_id (m\<lparr>md_method_id := b\<rparr>) = set_method_id b m"
  "set_has_message_length (m\<lparr>md_message_length := b\<rparr>) = set_message_length b m"
  by (simp_all add: meta_setters)

lemma set_all_fields:
  assumes "Meta_wf n" "Meta_IsInitialized n" "md_unknown_fields m = md_unknown_fields n"
    "take_bit 4 (md_has_bits m) = md_has_bits m"
  shows "set_message_length (md_message_length n) (set_method_id (md_method_id n)
           (set_service_id (md_service_id n) (set_seq (md_seq n) m))) = n"
proof -
  have init: "bit (md_has_bits n) 0" "bit (md_has_bits n) 1" "bit (md_has_bits n) 2" "bit (md_has_bits n) 3"
    using assms(2) by (simp_all add: IsInitialized_iff has_bits_iff)
  have "set_bit 3 (set_bit 2 (set_bit 1 (set_bit 0 (md_has_bits m)))) = md_has_bits n" (is "?w = _")
  proof (rule bit_word_eqI)
    fix k assume "k < LENGTH(32)"
    show "bit ?w k = bit (md_has_bits n) k"
    proof (cases "k < 4")
      case True
      then have "k = 0 \<or> k = 1 \<or> k = 2 \<or> k = 3" by auto
      then show ?thesis using init by (auto simp: bit_simps)
    next
      case False
      then show ?thesis using assms by (auto simp: bit_simps Meta_wf_simps)
    qed
  qed
  then show ?thesis using assms(3)
    by (simp add: meta_setters or_exp_set_bit)
qed

section \<open>The generated code over any runtime that keeps the contract\<close>

context wire_format
begin

lemma stream_and_array_serialize:
  "SerializeWithCachedSizes rt m out = SerializeWithCachedSizesToArray rt m out"
  by (simp add: SerializeWithCachedSizes_def SerializeWithCachedSizesToArray_def Let_def
      stream_u64 stream_u32 stream_i32 stream_unknown)

lemma serialize_append:
  "SerializeWithCachedSizesToArray rt m out = out @ SerializeWithCachedSizesToArray rt m []"
  by (simp add: SerializeWithCachedSizesToArray_def Let_def)

lemma byte_size: "Meta_ByteSize rt m = length (SerializeWithCachedSizesToArray rt m [])"
proof (cases "md_has_bits m AND 0xff = 0")
  case True
  then have "\<not> bit (md_has_bits m) k" if "k < 8" for k using that and_ff_neq_0 [of "md_has_bits m"] by auto
  then show ?thesis using True
    by (simp add: Meta_ByteSize_def SerializeWithCachedSizesToArray_def Let_def has_bits_iff size_unknown)
next
  case False
  then show ?thesis
    by (simp add: Meta_ByteSize_def SerializeWithCachedSizesToArray_def Let_def
        size_u64 size_u32 size_i32 size_unknown)
qed

lemma merge_into_empty:
  assumes "Meta_wf src" "md_has_bits m = 0" "md_seq m = 0" "md_service_id m = 0" "md_method_id m = 0"
    "md_message_length m = 0" "md_unknown_fields m = unknown_none rt"
  shows "Meta_MergeFrom rt m src = (src :: 'u RPCMetaData)"
proof (rule RPCMetaData.equality)
  show "md_has_bits (Meta_MergeFrom rt m src) = md_has_bits src"
  proof (rule bit_word_eqI)
    fix k assume "k < LENGTH(32)"
    show "bit (md_has_bits (Meta_MergeFrom rt m src)) k = bit (md_has_bits src) k"
    proof (cases "k < 4")
      case True
      then have "k = 0 \<or> k = 1 \<or> k = 2 \<or> k = 3" by auto
      then show ?thesis using assms(2) by (auto simp: MergeFrom_fields bit_simps has_bits_iff)
    next
      case False
      then show ?thesis using assms(1,2) by (auto simp: MergeFrom_fields bit_simps Meta_wf_simps)
    qed
  qed
qed (use assms in \<open>auto simp: MergeFrom_fields Meta_wf_def unknown_merge_none\<close>)

text \<open>Where control goes from a step, followed to the end of the loop.\<close>

lemma follow_next:
  "MergePartialFromCodedStream rt m inp =
     (case parse_iteration rt m inp of
        Parse_next m inp \<Rightarrow> MergePartialFromCodedStream rt m inp
      | Parse_success m inp \<Rightarrow> Some (Inr (m, inp))
      | Parse_failure m \<Rightarrow> Some (Inl m))"
  by (rule MergePartialFromCodedStream.simps)

lemma iteration_after_tag:
  "ReadTagWithCutoff rt 127 inp = ((8, True), inp') \<Longrightarrow> parse_iteration rt m inp = parse_seq rt m inp'"
  "ReadTagWithCutoff rt 127 inp = ((16, True), inp') \<Longrightarrow> parse_iteration rt m inp = parse_service_id rt m inp'"
  "ReadTagWithCutoff rt 127 inp = ((24, True), inp') \<Longrightarrow> parse_iteration rt m inp = parse_method_id rt m inp'"
  "ReadTagWithCutoff rt 127 inp = ((32, True), inp') \<Longrightarrow> parse_iteration rt m inp = parse_message_length rt m inp'"
  using field_number [of 1] field_number [of 2] field_number [of 3] field_number [of 4]
  by (simp_all add: parse_iteration_def)

lemma merge_at_end: "MergePartialFromCodedStream rt m [] = Some (Inr (m, []))"
  by (subst follow_next) (simp add: parse_iteration_def tag_at_end handle_unusual_def)

lemma merge_message_length:
  "MergePartialFromCodedStream rt m (WriteUInt32ToArray rt 4 v) = Some (Inr (set_message_length v m, []))"
proof -
  have r: "ReadUInt32 rt (tl (WriteUInt32ToArray rt 4 v)) = Some (v, [])"
    using read_u32 [of 4 v "[]"] by simp
  have "parse_iteration rt m (WriteUInt32ToArray rt 4 v)
      = parse_message_length rt m (tl (WriteUInt32ToArray rt 4 v))"
    using tag_u32 [of 4 v "[]"] by (intro iteration_after_tag) simp
  then show ?thesis
    by (subst follow_next) (simp add: parse_message_length_def Let_def r set_has_after_store merge_at_end)
qed

text \<open>
  After a field the parser either jumps to the next one or goes round the loop, which reads
  the same tag: both give the loop's result on the rest of the input.
\<close>

lemma merge_method_id:
  "MergePartialFromCodedStream rt m (WriteInt32ToArray rt 3 v @ rest)
     = MergePartialFromCodedStream rt (set_method_id v m) rest"
proof -
  have "parse_iteration rt m (WriteInt32ToArray rt 3 v @ rest)
      = parse_method_id rt m (tl (WriteInt32ToArray rt 3 v) @ rest)"
    using tag_i32 [of 3 v rest] by (intro iteration_after_tag) simp
  moreover have "parse_iteration rt m' rest = parse_message_length rt m' inp'"
    if "ExpectTag rt 32 rest = Some inp'" for m' :: "'u RPCMetaData" and inp'
    using expect_tag [OF that] by (intro iteration_after_tag) simp
  ultimately show ?thesis
    by (subst (1 2) follow_next)
      (simp add: parse_method_id_def Let_def read_i32 set_has_after_store follow_next [of _ rest] split: option.split)
qed

lemma merge_service_id:
  "MergePartialFromCodedStream rt m (WriteInt32ToArray rt 2 v @ rest)
     = MergePartialFromCodedStream rt (set_service_id v m) rest"
proof -
  have "parse_iteration rt m (WriteInt32ToArray rt 2 v @ rest)
      = parse_service_id rt m (tl (WriteInt32ToArray rt 2 v) @ rest)"
    using tag_i32 [of 2 v rest] by (intro iteration_after_tag) simp
  moreover have "parse_iteration rt m' rest = parse_method_id rt m' inp'"
    if "ExpectTag rt 24 rest = Some inp'" for m' :: "'u RPCMetaData" and inp'
    using expect_tag [OF that] by (intro iteration_after_tag) simp
  ultimately show ?thesis
    by (subst (1 2) follow_next)
      (simp add: parse_service_id_def Let_def read_i32 set_has_after_store follow_next [of _ rest] split: option.split)
qed

lemma merge_seq:
  "MergePartialFromCodedStream rt m (WriteUInt64ToArray rt 1 v @ rest)
     = MergePartialFromCodedStream rt (set_seq v m) rest"
proof -
  have "parse_iteration rt m (WriteUInt64ToArray rt 1 v @ rest)
      = parse_seq rt m (tl (WriteUInt64ToArray rt 1 v) @ rest)"
    using tag_u64 [of 1 v rest] by (intro iteration_after_tag) (simp del: One_nat_def)
  moreover have "parse_iteration rt m' rest = parse_service_id rt m' inp'"
    if "ExpectTag rt 16 rest = Some inp'" for m' :: "'u RPCMetaData" and inp'
    using expect_tag [OF that] by (intro iteration_after_tag) simp
  ultimately show ?thesis
    by (subst (1 2) follow_next)
      (simp add: parse_seq_def Let_def read_u64 set_has_after_store follow_next [of _ rest]
        split: option.split del: One_nat_def)
qed

lemma parse_serialize:
  assumes "Meta_wf m" "Meta_IsInitialized m" "md_unknown_fields m = unknown_none rt"
  shows "MergePartialFromCodedStream rt (RPCMetaData_new rt) (SerializeWithCachedSizesToArray rt m [])
           = Some (Inr (m, []))"
proof -
  have "SerializeWithCachedSizesToArray rt m [] = WriteUInt64ToArray rt 1 (md_seq m)
      @ WriteInt32ToArray rt 2 (md_service_id m) @ WriteInt32ToArray rt 3 (md_method_id m)
      @ WriteUInt32ToArray rt 4 (md_message_length m)"
    using assms unknown_none_empty
    by (simp add: SerializeWithCachedSizesToArray_def Let_def IsInitialized_iff)
  then show ?thesis
    using set_all_fields [OF assms(1,2), of "RPCMetaData_new rt"] assms(3)
    by (simp add: merge_seq merge_service_id merge_method_id merge_message_length
        RPCMetaData_new_def SharedCtor_def del: One_nat_def)
qed

lemma iteration_progress:
  assumes "parse_iteration rt m inp = Parse_next m' inp'"
  shows "length inp' < length inp"
proof -
  obtain t ok inp1 where t: "ReadTagWithCutoff rt 127 inp = ((t, ok), inp1)"
    by (metis surj_pair)
  have unusual: "length i' \<le> length inp1" if "handle_unusual rt t m inp1 = Parse_next m' i'" for i'
    using that by (auto simp: handle_unusual_def split: if_splits option.splits dest: skip_progress)
  have len: "length i' \<le> length i" if "parse_message_length rt n i = Parse_next m' i'" for n i i'
    using that by (auto simp: parse_message_length_def Let_def split: option.splits if_splits dest: u32_progress)
  have meth: "length i' \<le> length i" if "parse_method_id rt n i = Parse_next m' i'" for n i i'
    using that by (fastforce simp: parse_method_id_def Let_def split: option.splits
        dest: i32_progress expect_progress len)
  have serv: "length i' \<le> length i" if "parse_service_id rt n i = Parse_next m' i'" for n i i'
    using that by (fastforce simp: parse_service_id_def Let_def split: option.splits
        dest: i32_progress expect_progress meth)
  have sq: "length i' \<le> length i" if "parse_seq rt n i = Parse_next m' i'" for n i i'
    using that by (fastforce simp: parse_seq_def Let_def split: option.splits
        dest: u64_progress expect_progress serv)
  have "t \<noteq> 0"
    using assms t tag_nonzero [of 127 inp t inp1]
    by (cases ok) (auto simp: parse_iteration_def handle_unusual_def)
  then have "length inp1 < length inp" using tag_progress t by blast
  moreover have "length inp' \<le> length inp1"
    using assms by (auto simp: parse_iteration_def t split: if_splits intro: unusual len meth serv sq)
  ultimately show ?thesis by simp
qed

lemma parser_returns: "\<exists>r. MergePartialFromCodedStream rt m inp = Some r"
proof (induction "length inp" arbitrary: m inp rule: less_induct)
  case less
  then show ?case
    by (subst follow_next) (auto split: parse_step.split dest: iteration_progress)
qed

end

section \<open>Messages the generated code can build\<close>

lemma parse_iteration_wf:
  assumes "Meta_wf m"
  shows "case parse_iteration rt m inp of
      Parse_next m' inp' \<Rightarrow> Meta_wf m' | Parse_success m' inp' \<Rightarrow> Meta_wf m' | Parse_failure m' \<Rightarrow> Meta_wf m'"
    (is "?ok (parse_iteration rt m inp)")
proof -
  have 0: "?ok (handle_unusual rt t m i)" for t i
    using assms by (auto simp: handle_unusual_def split: option.split)
  have 1: "?ok (parse_message_length rt n i)" if "Meta_wf n" for n i
    using that Meta_wf_set(4) [OF that]
    by (auto simp: parse_message_length_def Let_def set_has_after_store split: option.split)
  have 2: "?ok (parse_method_id rt n i)" if "Meta_wf n" for n i
    using that Meta_wf_set(3) [OF that]
    by (auto simp: parse_method_id_def Let_def set_has_after_store intro: 1 split: option.split)
  have 3: "?ok (parse_service_id rt n i)" if "Meta_wf n" for n i
    using that Meta_wf_set(2) [OF that]
    by (auto simp: parse_service_id_def Let_def set_has_after_store intro: 2 split: option.split)
  have 4: "?ok (parse_seq rt n i)" if "Meta_wf n" for n i
    using that Meta_wf_set(1) [OF that]
    by (auto simp: parse_seq_def Let_def set_has_after_store intro: 3 split: option.split)
  show ?thesis
    using 0 1 [OF assms] 2 [OF assms] 3 [OF assms] 4 [OF assms]
    by (simp add: parse_iteration_def split: prod.split)
qed

definition parsed_message :: "'u RPCMetaData + 'u RPCMetaData \<times> byte list \<Rightarrow> 'u RPCMetaData" where
  "parsed_message r = (case r of Inl m \<Rightarrow> m | Inr (m, rest) \<Rightarrow> m)"

lemma merge_partial_wf:
  assumes "MergePartialFromCodedStream rt m inp = Some r"
  shows "Meta_wf m \<Longrightarrow> Meta_wf (parsed_message r)"
proof (induction rule: MergePartialFromCodedStream.raw_induct [OF _ assms])
  case (1 parse rt m inp r)
  then show ?case
    using parse_iteration_wf [of m rt inp]
    by (auto simp: parsed_message_def split: parse_step.splits)
qed

text \<open>Every way the generated code offers to make or change a message.\<close>

inductive meta_reachable :: "'u wire_runtime \<Rightarrow> 'u RPCMetaData \<Rightarrow> bool" for rt where
  new: "meta_reachable rt (RPCMetaData_new rt)"
| set_seq: "meta_reachable rt m \<Longrightarrow> meta_reachable rt (set_seq a m)"
| set_service_id: "meta_reachable rt m \<Longrightarrow> meta_reachable rt (set_service_id b m)"
| set_method_id: "meta_reachable rt m \<Longrightarrow> meta_reachable rt (set_method_id b m)"
| set_message_length: "meta_reachable rt m \<Longrightarrow> meta_reachable rt (set_message_length c m)"
| clear_seq: "meta_reachable rt m \<Longrightarrow> meta_reachable rt (clear_seq m)"
| clear_service_id: "meta_reachable rt m \<Longrightarrow> meta_reachable rt (clear_service_id m)"
| clear_method_id: "meta_reachable rt m \<Longrightarrow> meta_reachable rt (clear_method_id m)"
| clear_message_length: "meta_reachable rt m \<Longrightarrow> meta_reachable rt (clear_message_length m)"
| Clear: "meta_reachable rt m \<Longrightarrow> meta_reachable rt (Meta_Clear rt m)"
| MergeFrom: "meta_reachable rt m \<Longrightarrow> meta_reachable rt n \<Longrightarrow> meta_reachable rt (Meta_MergeFrom rt m n)"
| CopyFrom: "meta_reachable rt m \<Longrightarrow> meta_reachable rt n \<Longrightarrow> meta_reachable rt (Meta_CopyFrom rt m n)"
| copy: "meta_reachable rt m \<Longrightarrow> meta_reachable rt (RPCMetaData_copy rt m)"
| Swap: "meta_reachable rt m \<Longrightarrow> meta_reachable rt n \<Longrightarrow> meta_reachable rt (fst (Meta_Swap m n))"
| Swap_other: "meta_reachable rt m \<Longrightarrow> meta_reachable rt n \<Longrightarrow> meta_reachable rt (snd (Meta_Swap m n))"
| parse: "meta_reachable rt m \<Longrightarrow> MergePartialFromCodedStream rt m inp = Some r \<Longrightarrow>
            meta_reachable rt (parsed_message r)"

lemma Meta_wf_merge [intro]: "Meta_wf m \<Longrightarrow> Meta_wf n \<Longrightarrow> Meta_wf (Meta_MergeFrom rt m n)"
  by (auto simp: Meta_wf_simps MergeFrom_fields)

lemma Meta_Swap_exchanges [simp]: "Meta_Swap m n = (n, m)"
  by (simp add: Meta_Swap_def)

section \<open>Properties of the header message\<close>

text \<open>
  C20: Every message the generated code can build, whatever was set, cleared, merged, copied,
  swapped or parsed from arbitrary bytes, is well formed: an absent field holds its default
  and only the declared presence bits are set.
\<close>

theorem meta_invariant: "meta_reachable rt m \<Longrightarrow> Meta_wf m"
proof (induction rule: meta_reachable.induct)
  case (parse m inp r)
  then show ?case by (blast intro: merge_partial_wf)
qed (auto simp: Meta_CopyFrom_def RPCMetaData_copy_def)

theorem meta_invariant_witness:
  "Meta_wf (clear_seq (set_service_id 7 (set_seq 5 (RPCMetaData_new guide_runtime))))"
  by (rule meta_invariant [of guide_runtime]) (intro meta_reachable.intros)

text \<open>
  C19: Parsing what the serializer wrote gives the message back and consumes all of it, for
  every complete message without unknown fields, whatever the runtime answers to the
  optional look-ahead questions.
\<close>

theorem meta_roundtrip:
  assumes "wire_format rt" "Meta_wf m" "Meta_IsInitialized m" "md_unknown_fields m = unknown_none rt"
  shows "MergePartialFromCodedStream rt (RPCMetaData_new rt) (SerializeWithCachedSizesToArray rt m [])
           = Some (Inr (m, []))"
  using assms by (rule wire_format.parse_serialize)

text \<open>A complete header, as \<^verbatim>\<open>RPCClientImpl::CallMethod\<close> fills one.\<close>

definition sample_meta :: "u64 \<Rightarrow> i32 \<Rightarrow> i32 \<Rightarrow> u32 \<Rightarrow> byte list RPCMetaData" where
  "sample_meta s sid mid len =
     set_message_length len (set_method_id mid (set_service_id sid (set_seq s (RPCMetaData_new guide_runtime))))"

lemma sample_meta_simps [simp]:
  "Meta_wf (sample_meta s sid mid len)" "Meta_IsInitialized (sample_meta s sid mid len)"
  "md_unknown_fields (sample_meta s sid mid len) = unknown_none guide_runtime"
  "md_message_length (sample_meta s sid mid len) = len"
  "md_seq (sample_meta s sid mid len) = s"
  by (auto simp: sample_meta_def IsInitialized_iff)
    (simp_all add: meta_setters RPCMetaData_new_def SharedCtor_def has_bits_iff or_exp_set_bit bit_simps)

theorem meta_roundtrip_witness:
  "MergePartialFromCodedStream guide_runtime (RPCMetaData_new guide_runtime)
     (SerializeWithCachedSizesToArray guide_runtime (sample_meta 5 (-3) 2 300) [])
     = Some (Inr (sample_meta 5 (-3) 2 300, []))"
  by (rule meta_roundtrip) (simp_all add: guide.wire_format_axioms)

text \<open>
  C22: \<^verbatim>\<open>ByteSize\<close> is exactly the number of bytes either serializer writes, so the buffer it
  sizes is neither overrun nor left with a gap, and both serializers write the same bytes
  after what is there.
\<close>

theorem meta_serialized_size:
  assumes "wire_format rt"
  shows "length (SerializeWithCachedSizesToArray rt m out) = length out + Meta_ByteSize rt m
    \<and> SerializeWithCachedSizes rt m out = SerializeWithCachedSizesToArray rt m out
    \<and> take (length out) (SerializeWithCachedSizesToArray rt m out) = out"
  using wire_format.serialize_append [OF assms, of m out] wire_format.byte_size [OF assms, of m]
    wire_format.stream_and_array_serialize [OF assms, of m out]
  by (simp_all add: append_eq_conv_conj)

theorem meta_serialized_size_witness:
  "length (SerializeWithCachedSizesToArray guide_runtime (sample_meta 5 7 2 300) [1, 2])
     = 2 + Meta_ByteSize guide_runtime (sample_meta 5 7 2 300)"
  using meta_serialized_size [OF guide.wire_format_axioms, of "sample_meta 5 7 2 300" "[1, 2]"] by simp

text \<open>
  C21: The parser's loop ends on every input, valid or not, and leaves a well-formed message.
\<close>

theorem meta_parser_returns:
  assumes "wire_format rt" "Meta_wf m"
  shows "\<exists>r. MergePartialFromCodedStream rt m inp = Some r \<and> Meta_wf (parsed_message r)"
  using wire_format.parser_returns [OF assms(1), of m inp] merge_partial_wf [OF _ assms(2)] by blast

theorem meta_parser_returns_witness:
  "\<exists>r. MergePartialFromCodedStream guide_runtime (RPCMetaData_new guide_runtime) [0x08, 0xff] = Some r
     \<and> Meta_wf (parsed_message r)"
  by (rule meta_parser_returns) (simp_all add: guide.wire_format_axioms)

text \<open>
  Copy construction and \<^verbatim>\<open>CopyFrom\<close> reproduce the source whatever the target held, and
  \<^verbatim>\<open>MergeFrom\<close> takes each field present in the source and keeps the others.
\<close>

theorem meta_copy:
  assumes "wire_format rt" "Meta_wf src"
  shows "RPCMetaData_copy rt src = src \<and> Meta_CopyFrom rt m src = src
    \<and> md_seq (Meta_MergeFrom rt m src) = (if has_seq src then md_seq src else md_seq m)
    \<and> (has_seq (Meta_MergeFrom rt m src) \<longleftrightarrow> has_seq m \<or> has_seq src)
    \<and> md_message_length (Meta_MergeFrom rt m src)
      = (if has_message_length src then md_message_length src else md_message_length m)"
  using assms
  by (simp_all add: RPCMetaData_copy_def Meta_CopyFrom_def Meta_Clear_def SharedCtor_def
      wire_format.merge_into_empty MergeFrom_fields has_bits_iff)

theorem meta_copy_witness:
  "Meta_CopyFrom guide_runtime (sample_meta 1 2 3 4) (clear_seq (sample_meta 5 6 7 8))
     = clear_seq (sample_meta 5 6 7 8)"
  using meta_copy [OF guide.wire_format_axioms, of "clear_seq (sample_meta 5 6 7 8)" "sample_meta 1 2 3 4"]
  by (simp add: Meta_wf_clear)

end
