(* ===== verification/Rpc_Data.thy ===== *)
theory Rpc_Data
  imports Rpc_Meta "HOL-Library.Sublist"
begin

text \<open>
  \<^verbatim>\<open>RPCData\<close> of \<^verbatim>\<open>rpc/detail/rpc_data.h\<close> and \<^verbatim>\<open>rpc_data.cc\<close>: one message on the wire, which is
  a four-byte big-endian header length, the serialized \<^verbatim>\<open>RPCMetaData\<close> and the serialized
  payload. The input side collects a message from the pieces the socket delivers
  (\<^verbatim>\<open>AppendBinaries\<close>, \<^verbatim>\<open>Partial\<close>), the output side builds the frame (\<^verbatim>\<open>ToBuffer\<close>,
  \<^verbatim>\<open>GetBuffer\<close>).

  The lengths of one piece are natural numbers: a piece is at most \<^verbatim>\<open>FLAGS_read_buf_size\<close>, an
  \<^verbatim>\<open>int32\<close>, so the \<^verbatim>\<open>int32\<close> and \<^verbatim>\<open>uint32\<close> counters of one call do not wrap. The announced
  lengths that come from the peer and the size of an outgoing buffer keep their 32 bits.
\<close>

section \<open>The message library as a parameter\<close>

text \<open>
  \<^verbatim>\<open>Message::ParseFromArray\<close>, \<^verbatim>\<open>Message::SerializeToArray\<close> and the payload's class are code of
  the protobuf library and of its user. \<^verbatim>\<open>ParseFromArray\<close> gives the message as it is left and
  its answer; \<^verbatim>\<open>SerializeToArray\<close> the bytes it writes into a buffer of the given size, or
  failure.
\<close>

record ('u, 'm) rpc_codec =
  wire :: "'u wire_runtime"
  ParseFromArray :: "'u RPCMetaData \<Rightarrow> byte list \<Rightarrow> 'u RPCMetaData \<times> bool"
  SerializeToArray :: "'u RPCMetaData \<Rightarrow> nat \<Rightarrow> byte list option"
  payload_ByteSize :: "'m \<Rightarrow> nat"
  payload_SerializeToArray :: "'m \<Rightarrow> nat \<Rightarrow> byte list option"

text \<open>
  The documented behaviour: parsing clears the message, merges all bytes and answers whether
  they were a complete message; serializing fails only if required fields are missing or the
  buffer is too small, and writes what the generated serializer writes; a payload fills
  exactly the buffer its own size asks for.
\<close>

locale message_codec =
  fixes c :: "('u, 'm) rpc_codec"
  assumes wire: "wire_format (wire c)"
    and parse: "MergePartialFromCodedStream (wire c) (Meta_Clear (wire c) m) bs = Some r \<Longrightarrow>
      ParseFromArray c m bs = (parsed_message r,
        case r of Inl _ \<Rightarrow> False | Inr (m', rest) \<Rightarrow> Meta_IsInitialized m' \<and> rest = [])"
    and serialize: "Meta_IsInitialized m \<Longrightarrow> Meta_ByteSize (wire c) m \<le> n \<Longrightarrow>
      SerializeToArray c m n = Some (SerializeWithCachedSizesToArray (wire c) m [])"
    and payload: "payload_SerializeToArray c p (payload_ByteSize c p) = Some bs \<Longrightarrow>
      length bs = payload_ByteSize c p"

section \<open>The class\<close>

text \<open>
  \<^verbatim>\<open>rd_owned\<close> stands for a non-empty \<^verbatim>\<open>resource_holder_\<close>, which deletes the payload. The
  output buffer is \<^verbatim>\<open>boost::asio::mutable_buffer\<close>, a pointer and a size.
\<close>

datatype out_buffer = No_buffer | Buffer "byte list" | Freed_buffer nat

record ('u, 'm) RPCData =
  rd_owned :: bool
  rd_meta :: "'u RPCMetaData pointer"
  rd_payload_binaries :: "byte list"
  rd_meta_size :: u32
  rd_payload :: "'m pointer"
  rd_buffer :: out_buffer
  rd_is_pending :: bool

definition NumMetaSizeBytes :: nat where "NumMetaSizeBytes = 4"

definition buffer_size :: "out_buffer \<Rightarrow> nat" where
  "buffer_size b = (case b of No_buffer \<Rightarrow> 0 | Buffer bs \<Rightarrow> length bs | Freed_buffer n \<Rightarrow> n)"

definition buffer_freed :: "out_buffer \<Rightarrow> bool" where
  "buffer_freed b = (case b of Freed_buffer n \<Rightarrow> True | _ \<Rightarrow> False)"

definition RPCData_new :: "('u, 'm) rpc_codec \<Rightarrow> ('u, 'm) RPCData" where
  "RPCData_new c = \<lparr>rd_owned = False, rd_meta = Live (RPCMetaData_new (wire c)),
     rd_payload_binaries = [], rd_meta_size = 0, rd_payload = Null, rd_buffer = No_buffer,
     rd_is_pending = False\<rparr>"

subsection \<open>Input\<close>

text \<open>\<^verbatim>\<open>at(offset)\<close> throws \<^verbatim>\<open>std::out_of_range\<close> when nothing was added behind the offset.\<close>

definition FastAppend :: "byte list \<Rightarrow> byte list \<Rightarrow> nat \<Rightarrow> byte list result" where
  "FastAppend buffer content n =
     (if n = 0 then Inl Out_of_range else Inr (buffer @ take n content))"

text \<open>The three parts of \<^verbatim>\<open>AppendBinaries\<close> either return or fall through to the next.\<close>

datatype ('u, 'm) append_flow =
    Append_return int "('u, 'm) RPCData"
  | Append_continue nat nat "('u, 'm) RPCData"

definition append_meta_size ::
  "byte list \<Rightarrow> nat \<Rightarrow> nat \<Rightarrow> ('u, 'm) RPCData \<Rightarrow> ('u, 'm) append_flow result" where
  "append_meta_size binaries offset len d =
     (if rd_meta_size d \<noteq> 0 then Inr (Append_continue offset len d)
      else CHECK (length (rd_payload_binaries d) < NumMetaSizeBytes)
        (let bytes_lacked = NumMetaSizeBytes - length (rd_payload_binaries d) in
         if len < bytes_lacked then
           bind_result (FastAppend (rd_payload_binaries d) binaries len) (\<lambda>pb.
           Inr (Append_return (int len) (d\<lparr>rd_payload_binaries := pb\<rparr>)))
         else
           bind_result (if rd_payload_binaries d \<noteq> []
             then FastAppend (rd_payload_binaries d) binaries bytes_lacked
             else Inr (rd_payload_binaries d)) (\<lambda>pb.
           let meta_size_binaries = (if pb \<noteq> [] then pb else binaries);
               meta_size = ntohl (le_word (take 4 meta_size_binaries)) in
           CHECK (0 < meta_size)
             (let d = d\<lparr>rd_meta_size := meta_size, rd_payload_binaries := []\<rparr>;
                  offset = offset + bytes_lacked;
                  len = len - bytes_lacked in
              if len = 0 then Inr (Append_return (int offset) d)
              else Inr (Append_continue offset len d)))))"

definition append_meta ::
  "('u, 'm) rpc_codec \<Rightarrow> byte list \<Rightarrow> nat \<Rightarrow> nat \<Rightarrow> ('u, 'm) RPCData \<Rightarrow> ('u, 'm) append_flow result" where
  "append_meta c binaries offset len d =
     bind_result (deref (rd_meta d)) (\<lambda>meta.
     if Meta_ByteSize (wire c) meta \<noteq> 0 then Inr (Append_continue offset len d)
     else CHECK (0 < rd_meta_size d)
       (CHECK (length (rd_payload_binaries d) < unat (rd_meta_size d))
         (let bytes_lacked = unat (rd_meta_size d) - length (rd_payload_binaries d) in
          if len < bytes_lacked then
            bind_result (FastAppend (rd_payload_binaries d) (drop offset binaries) len) (\<lambda>pb.
            CHECK (length pb < unat (rd_meta_size d))
              (Inr (Append_return (int (offset + len)) (d\<lparr>rd_payload_binaries := pb\<rparr>))))
          else
            bind_result (if rd_payload_binaries d \<noteq> []
              then bind_result (FastAppend (rd_payload_binaries d) (drop offset binaries) bytes_lacked) (\<lambda>pb.
                CHECK (length pb < unat (rd_meta_size d)) (Inr (pb, offset + len)))
              else Inr (rd_payload_binaries d, offset)) (\<lambda>(pb, offset).
            let meta_binaries = (if pb \<noteq> [] then pb else drop offset binaries) in
            case ParseFromArray c meta (take (unat (rd_meta_size d)) meta_binaries) of (meta, ok) \<Rightarrow>
            let d = d\<lparr>rd_payload_binaries := pb, rd_meta := Live meta\<rparr> in
            if \<not> ok then Inr (Append_return (- 1) d)
            else
              let d = (if md_message_length meta \<noteq> 0 then d\<lparr>rd_payload_binaries := []\<rparr> else d);
                  offset = offset + bytes_lacked;
                  len = len - bytes_lacked in
              if len = 0 \<or> md_message_length meta = 0 then Inr (Append_return (int offset) d)
              else Inr (Append_continue offset len d)))))"

definition append_payload ::
  "byte list \<Rightarrow> nat \<Rightarrow> nat \<Rightarrow> ('u, 'm) RPCData \<Rightarrow> (int \<times> ('u, 'm) RPCData) result" where
  "append_payload binaries offset len d =
     bind_result (deref (rd_meta d)) (\<lambda>meta.
     CHECK (length (rd_payload_binaries d) < unat (md_message_length meta))
       (let bytes_lacked = unat (md_message_length meta) - length (rd_payload_binaries d) in
        if len < bytes_lacked then
          bind_result (FastAppend (rd_payload_binaries d) (drop offset binaries) len) (\<lambda>pb.
          CHECK (length pb < unat (md_message_length meta))
            (Inr (int (offset + len), d\<lparr>rd_payload_binaries := pb\<rparr>)))
        else
          bind_result (FastAppend (rd_payload_binaries d) (drop offset binaries) bytes_lacked) (\<lambda>pb.
          CHECK (length pb = unat (md_message_length meta))
            (Inr (int (offset + bytes_lacked), d\<lparr>rd_payload_binaries := pb\<rparr>)))))"

definition AppendBinaries ::
  "('u, 'm) rpc_codec \<Rightarrow> byte list \<Rightarrow> ('u, 'm) RPCData \<Rightarrow> (int \<times> ('u, 'm) RPCData) result" where
  "AppendBinaries c binaries d =
     bind_result (append_meta_size binaries 0 (length binaries) d) (\<lambda>f. case f of
       Append_return r d \<Rightarrow> Inr (r, d)
     | Append_continue offset len d \<Rightarrow>
         bind_result (append_meta c binaries offset len d) (\<lambda>f. case f of
           Append_return r d \<Rightarrow> Inr (r, d)
         | Append_continue offset len d \<Rightarrow> append_payload binaries offset len d))"

definition Partial :: "('u, 'm) rpc_codec \<Rightarrow> ('u, 'm) RPCData \<Rightarrow> bool result" where
  "Partial c d =
     bind_result (deref (rd_meta d)) (\<lambda>meta.
     if Meta_ByteSize (wire c) meta = 0 then Inr True
     else let message_length = of_nat (length (rd_payload_binaries d)) :: u32 in
       CHECK (message_length \<le> md_message_length meta)
         (Inr (message_length < md_message_length meta)))"

subsection \<open>Output\<close>

text \<open>
  A failed serialization deletes the buffer it wrote to; when that was the one in use, the
  object keeps the pointer. A frame whose size does not fit 32 bits overruns its buffer.
\<close>

definition ToBuffer :: "('u, 'm) rpc_codec \<Rightarrow> ('u, 'm) RPCData \<Rightarrow> ('u, 'm) RPCData result" where
  "ToBuffer c d =
     CHECK (rd_meta d \<noteq> Null) (CHECK (rd_payload d \<noteq> Null)
       (bind_result (deref (rd_meta d)) (\<lambda>meta.
        bind_result (deref (rd_payload d)) (\<lambda>payload.
        let descriptor_size = Meta_ByteSize (wire c) meta;
            message_size = payload_ByteSize c payload;
            size = of_nat NumMetaSizeBytes + of_nat descriptor_size + of_nat message_size :: u32;
            reuse = (rd_buffer d \<noteq> No_buffer \<and> unat size \<le> buffer_size (rd_buffer d));
            failed = Inr (if reuse then d\<lparr>rd_buffer := Freed_buffer (buffer_size (rd_buffer d))\<rparr> else d) in
        if reuse \<and> buffer_freed (rd_buffer d) then Inl Dangling_pointer
        else if unat size < NumMetaSizeBytes + descriptor_size + message_size then Inl Out_of_range
        else case SerializeToArray c meta descriptor_size of
          None \<Rightarrow> failed
        | Some mb \<Rightarrow>
          (case payload_SerializeToArray c payload message_size of
             None \<Rightarrow> failed
           | Some pb \<Rightarrow>
               Inr (d\<lparr>rd_buffer := Buffer (le_bytes 4 (htonl (of_nat descriptor_size)) @ mb @ pb)\<rparr>))))))"

definition RPCData_of ::
  "('u, 'm) rpc_codec \<Rightarrow> 'u RPCMetaData pointer \<Rightarrow> 'm pointer \<Rightarrow> ('u, 'm) RPCData result" where
  "RPCData_of c meta payload =
     ToBuffer c \<lparr>rd_owned = False, rd_meta = meta, rd_payload_binaries = [], rd_meta_size = 0,
       rd_payload = payload, rd_buffer = No_buffer, rd_is_pending = False\<rparr>"

definition GetBuffer ::
  "('u, 'm) rpc_codec \<Rightarrow> ('u, 'm) RPCData \<Rightarrow> (out_buffer \<times> ('u, 'm) RPCData) result" where
  "GetBuffer c d =
     bind_result (if rd_buffer d = No_buffer then ToBuffer c d else Inr d) (\<lambda>d.
     let d = d\<lparr>rd_is_pending := True\<rparr> in Inr (rd_buffer d, d))"

subsection \<open>The rest of the class\<close>

definition OwnMetaAndPayload :: "('u, 'm) RPCData \<Rightarrow> ('u, 'm) RPCData result" where
  "OwnMetaAndPayload d = CHECK (\<not> rd_owned d) (Inr (d\<lparr>rd_owned := True\<rparr>))"

definition IsPending :: "('u, 'm) RPCData \<Rightarrow> bool" where
  "IsPending d = rd_is_pending d"

definition Data_ClearPendingState :: "('u, 'm) RPCData \<Rightarrow> ('u, 'm) RPCData" where
  "Data_ClearPendingState d = d\<lparr>rd_is_pending := False\<rparr>"

definition Data_Meta :: "('u, 'm) RPCData \<Rightarrow> 'u RPCMetaData result" where
  "Data_Meta d = CHECK (rd_meta d \<noteq> Null) (deref (rd_meta d))"

definition MessageBinary :: "('u, 'm) RPCData \<Rightarrow> byte list result" where
  "MessageBinary d = CHECK (rd_meta d \<noteq> Null) (Inr (rd_payload_binaries d))"

text \<open>\<^verbatim>\<open>DeleteMetaAndPayload\<close> deletes the payload only; \<^verbatim>\<open>payload_\<close> keeps pointing at it.\<close>

definition DeleteMetaAndPayload :: "('u, 'm) RPCData \<Rightarrow> ('u, 'm) RPCData result" where
  "DeleteMetaAndPayload d =
     (case rd_payload d of
        Freed \<Rightarrow> Inl Dangling_pointer
      | Null \<Rightarrow> Inr d
      | Live p \<Rightarrow> Inr (d\<lparr>rd_payload := Freed\<rparr>))"

definition Data_Clear :: "('u, 'm) rpc_codec \<Rightarrow> ('u, 'm) RPCData \<Rightarrow> ('u, 'm) RPCData result" where
  "Data_Clear c d =
     (let d = d\<lparr>rd_meta_size := 0, rd_is_pending := False, rd_payload_binaries := []\<rparr>;
          d = (case rd_meta d of Live m \<Rightarrow> d\<lparr>rd_meta := Live (Meta_Clear (wire c) m)\<rparr> | _ \<Rightarrow> d) in
      if rd_owned d
      then bind_result (DeleteMetaAndPayload d) (\<lambda>d. Inr (d\<lparr>rd_owned := False\<rparr>))
      else Inr d)"

text \<open>
  The destructor runs the holder, which deletes the payload, and frees the output buffer. It is
  safe on objects whose owned payload was not deleted and whose buffer was not freed before.
\<close>

definition RPCData_delete :: "('u, 'm) RPCData \<Rightarrow> unit result" where
  "RPCData_delete d =
     bind_result (if rd_owned d then DeleteMetaAndPayload d else Inr d) (\<lambda>d.
     if buffer_freed (rd_buffer d) then Inl Dangling_pointer else Inr ())"

definition deletable :: "('u, 'm) RPCData \<Rightarrow> bool" where
  "deletable d \<longleftrightarrow> (rd_owned d \<longrightarrow> rd_payload d \<noteq> Freed) \<and> \<not> buffer_freed (rd_buffer d)"

lemma RPCData_delete_cases: "RPCData_delete d = (if deletable d then Inr () else Inl Dangling_pointer)"
  by (auto simp: RPCData_delete_def deletable_def DeleteMetaAndPayload_def split: pointer.splits)

lemma deletable_update [simp]:
  "deletable (d\<lparr>rd_is_pending := p\<rparr>) = deletable d" "deletable (Data_ClearPendingState d) = deletable d"
  by (simp_all add: deletable_def Data_ClearPendingState_def)

text \<open>Collecting input touches neither the payload nor the buffer.\<close>

definition result_all :: "('a \<Rightarrow> bool) \<Rightarrow> 'a result \<Rightarrow> bool" where
  "result_all P r = (case r of Inl e \<Rightarrow> True | Inr x \<Rightarrow> P x)"

lemma result_all_Inr [simp]: "result_all P (Inr x) = P x"
  by (simp add: result_all_def)

lemma result_all_bind: "(\<And>x. result_all P (k x)) \<Longrightarrow> result_all P (bind_result r k)"
  by (cases r) (simp_all add: result_all_def)

lemma result_all_CHECK: "result_all P k \<Longrightarrow> result_all P (CHECK b k)"
  by (cases b) (simp_all add: result_all_def)

lemmas result_all_intros = result_all_bind result_all_CHECK

definition flow_deletable :: "('u, 'm) RPCData \<Rightarrow> ('u, 'm) append_flow \<Rightarrow> bool" where
  "flow_deletable d f =
     ((case f of Append_return r d' \<Rightarrow> deletable d' | Append_continue offset len d' \<Rightarrow> deletable d') = deletable d)"

lemma deletable_input [simp]:
  "deletable (d\<lparr>rd_payload_binaries := pb\<rparr>) = deletable d" "deletable (d\<lparr>rd_meta := m\<rparr>) = deletable d"
  "deletable (d\<lparr>rd_meta_size := n\<rparr>) = deletable d"
  by (simp_all add: deletable_def)

lemma append_meta_size_deletable: "result_all (flow_deletable d) (append_meta_size bs offset len d)"
  unfolding append_meta_size_def Let_def
  by (auto intro!: result_all_intros simp: flow_deletable_def)

lemma append_meta_deletable: "result_all (flow_deletable d) (append_meta c bs offset len d)"
  unfolding append_meta_def Let_def
  by (auto intro!: result_all_intros simp: flow_deletable_def split: prod.split)

lemma append_payload_deletable: "result_all (\<lambda>(n, d'). deletable d' = deletable d) (append_payload bs offset len d)"
  unfolding append_payload_def Let_def
  by (auto intro!: result_all_intros)

lemma result_allD: "result_all P r \<Longrightarrow> r = Inr x \<Longrightarrow> P x"
  by simp

lemma AppendBinaries_deletable:
  assumes "AppendBinaries c bytes d = Inr (n, d')"
  shows "deletable d' = deletable d"
proof -
  obtain f where f: "append_meta_size bytes 0 (length bytes) d = Inr f"
    using assms by (auto simp: AppendBinaries_def bind_result_eq_Inr)
  note fd = result_allD [OF append_meta_size_deletable f]
  show ?thesis
  proof (cases f)
    case (Append_continue offset len e)
    obtain g where g: "append_meta c bytes offset len e = Inr g"
      using assms f Append_continue by (auto simp: AppendBinaries_def bind_result_eq_Inr)
    note gd = result_allD [OF append_meta_deletable g]
    show ?thesis
    proof (cases g)
      case (Append_continue offset' len' e')
      then have "append_payload bytes offset' len' e' = Inr (n, d')"
        using assms f g \<open>f = Append_continue offset len e\<close> by (simp add: AppendBinaries_def)
      note result_allD [OF append_payload_deletable this]
      then show ?thesis using fd gd Append_continue \<open>f = Append_continue offset len e\<close> by (simp add: flow_deletable_def)
    qed (use assms f g fd gd Append_continue in \<open>simp add: AppendBinaries_def flow_deletable_def\<close>)
  qed (use assms f fd in \<open>simp add: AppendBinaries_def flow_deletable_def\<close>)
qed

section \<open>A frame and its reception\<close>

definition meta_bytes :: "('u, 'm) rpc_codec \<Rightarrow> 'u RPCMetaData \<Rightarrow> byte list" where
  "meta_bytes c meta = SerializeWithCachedSizesToArray (wire c) meta []"

definition frame_prefix :: "('u, 'm) rpc_codec \<Rightarrow> 'u RPCMetaData \<Rightarrow> byte list" where
  "frame_prefix c meta = le_bytes 4 (htonl (of_nat (length (meta_bytes c meta))))"

definition frame_bytes :: "('u, 'm) rpc_codec \<Rightarrow> 'u RPCMetaData \<Rightarrow> byte list \<Rightarrow> byte list" where
  "frame_bytes c meta body = frame_prefix c meta @ meta_bytes c meta @ body"

text \<open>A message as a peer sends it: a complete header that announces the payload's length.\<close>

definition frame_ok :: "('u, 'm) rpc_codec \<Rightarrow> 'u RPCMetaData \<Rightarrow> byte list \<Rightarrow> bool" where
  "frame_ok c meta body \<longleftrightarrow> Meta_wf meta \<and> Meta_IsInitialized meta
     \<and> md_unknown_fields meta = unknown_none (wire c)
     \<and> unat (md_message_length meta) = length body
     \<and> length (meta_bytes c meta) < 2 ^ 32"

text \<open>
  The object after the first \<open>pos\<close> bytes of a frame. A position strictly inside the header
  is \<open>split_header\<close>.
\<close>

definition received ::
  "('u, 'm) rpc_codec \<Rightarrow> 'u RPCMetaData \<Rightarrow> byte list \<Rightarrow> nat \<Rightarrow> ('u, 'm) RPCData" where
  "received c meta body pos =
     (if pos < 4 then (RPCData_new c)\<lparr>rd_payload_binaries := take pos (frame_prefix c meta)\<rparr>
      else if pos < 4 + length (meta_bytes c meta)
      then (RPCData_new c)\<lparr>rd_meta_size := of_nat (length (meta_bytes c meta)),
             rd_payload_binaries := take (pos - 4) (meta_bytes c meta)\<rparr>
      else (RPCData_new c)\<lparr>rd_meta_size := of_nat (length (meta_bytes c meta)), rd_meta := Live meta,
             rd_payload_binaries := take (pos - 4 - length (meta_bytes c meta)) body\<rparr>)"

lemma deletable_received [simp]: "deletable (RPCData_new c)" "deletable (received c meta body pos)"
  by (simp_all add: received_def) (simp_all add: deletable_def RPCData_new_def buffer_freed_def)

definition split_header :: "('u, 'm) rpc_codec \<Rightarrow> 'u RPCMetaData \<Rightarrow> nat \<Rightarrow> bool" where
  "split_header c meta pos \<longleftrightarrow> 4 < pos \<and> pos < 4 + length (meta_bytes c meta)"

lemma length_frame [simp]:
  "length (frame_prefix c meta) = 4"
  "length (frame_bytes c meta body) = 4 + length (meta_bytes c meta) + length body"
  by (simp_all add: frame_prefix_def frame_bytes_def)

lemma frame_nonempty [simp]: "frame_bytes c meta body \<noteq> []"
  by (rule notI) (drule arg_cong [of _ _ length], simp)

lemma new_data_fields [simp]:
  "rd_meta (RPCData_new c) = Live (RPCMetaData_new (wire c))" "rd_payload_binaries (RPCData_new c) = []"
  "rd_meta_size (RPCData_new c) = 0" "rd_is_pending (RPCData_new c) = False"
  by (simp_all add: RPCData_new_def)

lemma received_0: "received c meta body 0 = RPCData_new c"
  by (simp add: received_def RPCData_new_def)

lemma prefix_drop:
  assumes "prefix chunk (drop pos xs @ later)" "n \<le> length chunk" "pos + n \<le> length xs"
  shows "take n chunk = take n (drop pos xs)"
proof -
  obtain zs where "drop pos xs @ later = chunk @ zs" using assms(1) by (auto simp: prefix_def)
  then have "take n (drop pos xs @ later) = take n (chunk @ zs)" by simp
  then show ?thesis using assms(2,3) by simp
qed

lemma prefix_drop_first: "prefix xs (ys @ zs) \<Longrightarrow> length ys = n \<Longrightarrow> prefix (drop n xs) zs"
  by (auto simp: prefix_def append_eq_append_conv2)

context message_codec
begin

lemma new_meta_size [simp]: "Meta_ByteSize (wire c) (RPCMetaData_new (wire c)) = 0"
  using wire_format.unknown_none_empty [OF wire]
  by (simp add: Meta_ByteSize_def RPCMetaData_new_def SharedCtor_def)

lemma meta_size:
  assumes "Meta_IsInitialized meta"
  shows "Meta_ByteSize (wire c) meta = length (meta_bytes c meta)" "0 < length (meta_bytes c meta)"
proof -
  show "Meta_ByteSize (wire c) meta = length (meta_bytes c meta)"
    by (simp add: meta_bytes_def wire_format.byte_size [OF wire])
  have "length (WriteUInt64ToArray (wire c) 1 (md_seq meta)) = 1 + UInt64Size (wire c) (md_seq meta)"
    by (rule wire_format.size_u64 [OF wire])
  moreover have "has_seq meta" using assms by (simp add: IsInitialized_iff)
  ultimately show "0 < length (meta_bytes c meta)"
    unfolding meta_bytes_def SerializeWithCachedSizesToArray_def Let_def by auto
qed

lemma parse_meta:
  assumes "frame_ok c meta body"
  shows "ParseFromArray c (RPCMetaData_new (wire c)) (meta_bytes c meta) = (meta, True)"
proof -
  have "Meta_Clear (wire c) (RPCMetaData_new (wire c)) = RPCMetaData_new (wire c)"
    by (simp add: Meta_Clear_def RPCMetaData_new_def SharedCtor_def)
  then show ?thesis
    using assms parse [of "RPCMetaData_new (wire c)" "meta_bytes c meta" "Inr (meta, [])"]
      wire_format.parse_serialize [OF wire, of meta]
    by (simp add: frame_ok_def meta_bytes_def parsed_message_def)
qed

lemma announced_size:
  assumes "frame_ok c meta body"
  shows "ntohl (le_word (frame_prefix c meta)) = of_nat (length (meta_bytes c meta))"
    and "unat (of_nat (length (meta_bytes c meta)) :: u32) = length (meta_bytes c meta)"
    and "(of_nat (length (meta_bytes c meta)) :: u32) \<noteq> 0"
proof -
  show "ntohl (le_word (frame_prefix c meta)) = of_nat (length (meta_bytes c meta))"
    by (simp add: frame_prefix_def le_word_le_bytes_id ntohl_htonl)
  show u: "unat (of_nat (length (meta_bytes c meta)) :: u32) = length (meta_bytes c meta)"
    using assms by (simp add: frame_ok_def unat_of_nat)
  show "(of_nat (length (meta_bytes c meta)) :: u32) \<noteq> 0"
    using u meta_size(2) [of meta] assms by (auto simp: frame_ok_def)
qed

lemma append_meta_size_before:
  assumes "frame_ok c meta body" "pos < 4" "chunk \<noteq> []" "prefix chunk (drop pos (frame_prefix c meta) @ later)"
  shows "append_meta_size chunk 0 (length chunk) (received c meta body pos) =
    (if pos + length chunk < 4 then Inr (Append_return (int (length chunk)) (received c meta body (pos + length chunk)))
     else if pos + length chunk = 4 then Inr (Append_return (int (4 - pos)) (received c meta body 4))
     else Inr (Append_continue (4 - pos) (length chunk - (4 - pos)) (received c meta body 4)))"
proof (cases "pos + length chunk < 4")
  case True
  have "take (length chunk) chunk = take (length chunk) (drop pos (frame_prefix c meta))"
    using True by (intro prefix_drop [OF assms(4)]) auto
  then show ?thesis
    using True assms(2,3)
    by (simp add: append_meta_size_def received_def NumMetaSizeBytes_def FastAppend_def take_add Let_def less_diff_conv add.commute)
next
  case False
  have t: "take (4 - pos) chunk = drop pos (frame_prefix c meta)"
    using False assms(2) prefix_drop [OF assms(4), of "4 - pos"] by simp
  then have s: "take pos (frame_prefix c meta) @ take (4 - pos) chunk = frame_prefix c meta" by simp
  have "pos = 0 \<Longrightarrow> take 4 chunk = frame_prefix c meta" using t by simp
  then show ?thesis
    using False assms(2,3) s announced_size [OF assms(1)] meta_size(2) [of meta] assms(1)
    by (auto simp: append_meta_size_def received_def NumMetaSizeBytes_def FastAppend_def Let_def
        frame_ok_def word_gt_0)
qed

lemma append_meta_size_after:
  assumes "frame_ok c meta body" "4 \<le> pos"
  shows "append_meta_size chunk 0 n (received c meta body pos) = Inr (Append_continue 0 n (received c meta body pos))"
  using assms announced_size(3) [OF assms(1)] by (simp add: append_meta_size_def received_def)

lemma append_meta_before:
  assumes "frame_ok c meta body" "0 < n" "prefix (drop off chunk) (meta_bytes c meta @ later)"
    "n = length chunk - off"
  shows "append_meta c chunk off n (received c meta body 4) =
    (if n < length (meta_bytes c meta) then Inr (Append_return (int (off + n)) (received c meta body (4 + n)))
     else if n = length (meta_bytes c meta) \<or> body = []
     then Inr (Append_return (int (off + length (meta_bytes c meta))) (received c meta body (4 + length (meta_bytes c meta))))
     else Inr (Append_continue (off + length (meta_bytes c meta)) (n - length (meta_bytes c meta))
            (received c meta body (4 + length (meta_bytes c meta)))))"
proof (cases "n < length (meta_bytes c meta)")
  case True
  have "take n (drop off chunk) = take n (meta_bytes c meta)"
    using True assms(4) prefix_drop [of "drop off chunk" 0 "meta_bytes c meta" later n] assms(3) by simp
  then show ?thesis
    using True assms(2) announced_size [OF assms(1)]
    by (auto simp: append_meta_def received_def FastAppend_def word_gt_0 Let_def)
next
  case False
  have t: "take (length (meta_bytes c meta)) (drop off chunk) = meta_bytes c meta"
    using False assms(4) prefix_drop [of "drop off chunk" 0 "meta_bytes c meta" later "length (meta_bytes c meta)"]
      assms(3) by simp
  have "md_message_length meta = 0 \<longleftrightarrow> body = []"
    using assms(1) by (auto simp: frame_ok_def unat_eq_zero)
  then show ?thesis
    using False assms(2) announced_size [OF assms(1)] meta_size(2) [of meta] parse_meta [OF assms(1)] t assms(1)
    by (auto simp: append_meta_def received_def FastAppend_def word_gt_0 Let_def frame_ok_def)
qed

lemma append_meta_after:
  assumes "frame_ok c meta body" "4 + length (meta_bytes c meta) \<le> pos"
  shows "append_meta c chunk off n (received c meta body pos) = Inr (Append_continue off n (received c meta body pos))"
  using assms meta_size [of meta] by (simp add: append_meta_def received_def frame_ok_def)

lemma append_payload_received:
  assumes "frame_ok c meta body" "4 + length (meta_bytes c meta) \<le> pos" "pos < length (frame_bytes c meta body)"
    "0 < n" "n = length chunk - off"
    "prefix (drop off chunk) (drop (pos - 4 - length (meta_bytes c meta)) body @ later)"
  shows "append_payload chunk off n (received c meta body pos) =
    (let k = min n (length (frame_bytes c meta body) - pos) in
     Inr (int (off + k), received c meta body (pos + k)))"
proof -
  define q where "q = pos - 4 - length (meta_bytes c meta)"
  have pos: "pos = 4 + length (meta_bytes c meta) + q" using assms(2) by (simp add: q_def)
  have "take k (drop off chunk) = take k (drop q body)" if "k \<le> n" "q + k \<le> length body" for k
    using that assms(5,6) by (intro prefix_drop [of _ _ _ later]) (simp_all add: q_def)
  moreover have "unat (md_message_length meta) = length body" using assms(1) by (simp add: frame_ok_def)
  ultimately show ?thesis
    using assms(3,4) unfolding pos
    by (auto simp: append_payload_def received_def FastAppend_def Let_def take_add min_def CHECK_def)
qed

lemma append_from_header:
  assumes "frame_ok c meta body" "0 < n" "n = length chunk - off"
    "prefix (drop off chunk) (meta_bytes c meta @ body @ later)"
  shows "bind_result (append_meta c chunk off n (received c meta body 4)) (\<lambda>f. case f of
      Append_return r d \<Rightarrow> Inr (r, d) | Append_continue off n d \<Rightarrow> append_payload chunk off n d)
    = (let k = min n (length (meta_bytes c meta) + length body) in Inr (int (off + k), received c meta body (4 + k)))"
proof (cases "n \<le> length (meta_bytes c meta) \<or> body = []")
  case True
  then show ?thesis
    by (subst append_meta_before [OF assms(1,2,4,3)]) (auto simp: Let_def min_def)
next
  case False
  let ?l = "length (meta_bytes c meta)"
  have "prefix (drop (off + ?l) chunk) (drop (4 + ?l - 4 - ?l) body @ later)"
    using prefix_drop_first [OF assms(4)] by (simp add: drop_drop add.commute)
  moreover have "n - ?l = length chunk - (off + ?l)" "off + ?l < length chunk" using assms(3) False by auto
  ultimately have "append_payload chunk (off + ?l) (n - ?l) (received c meta body (4 + ?l))
      = (let k = min (n - ?l) (length body) in Inr (int (off + ?l + k), received c meta body (4 + ?l + k)))"
    using False append_payload_received [OF assms(1), of "4 + ?l" "n - ?l" chunk "off + ?l" later] by simp
  moreover have "min n (?l + length body) = ?l + min (n - ?l) (length body)" using False by (auto simp: min_def)
  ultimately show ?thesis
    using False by (subst append_meta_before [OF assms(1,2,4,3)]) (simp add: Let_def add.assoc)
qed

text \<open>
  The main fact on reception: from any position that is not inside the header, a non-empty
  piece of the stream is taken up to the end of the frame.
\<close>

lemma append_received:
  assumes "frame_ok c meta body" "pos < length (frame_bytes c meta body)" "\<not> split_header c meta pos"
    "chunk \<noteq> []" "prefix chunk (drop pos (frame_bytes c meta body) @ later)"
  shows "AppendBinaries c chunk (received c meta body pos) =
    (let k = min (length chunk) (length (frame_bytes c meta body) - pos) in
     Inr (int k, received c meta body (pos + k)))"
proof -
  let ?l = "length (meta_bytes c meta)"
  consider "pos < 4" | "pos = 4" | "4 + ?l \<le> pos" using assms(3) by (force simp: split_header_def)
  then show ?thesis
  proof cases
    case 1
    then have pre: "prefix chunk (drop pos (frame_prefix c meta) @ meta_bytes c meta @ body @ later)"
      using assms(5) by (simp add: frame_bytes_def)
    have rest: "prefix (drop (4 - pos) chunk) (meta_bytes c meta @ body @ later)"
      using prefix_drop_first [OF pre] by simp
    show ?thesis
    proof (cases "pos + length chunk \<le> 4")
      case True
      then show ?thesis
        using 1 append_meta_size_before [OF assms(1) 1 assms(4) pre]
        by (auto simp: AppendBinaries_def Let_def min_def)
    next
      case False
      let ?n = "length chunk - (4 - pos)"
      have "min (length chunk) (4 + ?l + length body - pos) = 4 - pos + min ?n (?l + length body)"
        using False 1 by simp
      moreover have "pos + (4 - pos + k) = 4 + k" for k using 1 by simp
      ultimately show ?thesis
        using False 1 append_meta_size_before [OF assms(1) 1 assms(4) pre]
          append_from_header [OF assms(1) _ refl rest]
        by (simp add: AppendBinaries_def Let_def)
    qed
  next
    case 2
    then have "prefix (drop 0 chunk) (meta_bytes c meta @ body @ later)"
      using assms(5) by (simp add: frame_bytes_def)
    then show ?thesis
      using 2 assms(4) append_meta_size_after [OF assms(1)]
        append_from_header [OF assms(1), of "length chunk" chunk 0 later]
      by (simp add: AppendBinaries_def)
  next
    case 3
    then have "prefix (drop 0 chunk) (drop (pos - 4 - ?l) body @ later)"
      using assms(5) by (simp add: frame_bytes_def)
    then show ?thesis
      using 3 assms(2,4) append_meta_size_after [OF assms(1)] append_meta_after [OF assms(1)]
        append_payload_received [OF assms(1), of pos "length chunk" chunk 0 later]
      by (simp add: AppendBinaries_def)
  qed
qed

lemma Partial_received:
  assumes "frame_ok c meta body" "pos \<le> length (frame_bytes c meta body)"
  shows "Partial c (received c meta body pos) = Inr (pos < length (frame_bytes c meta body))"
proof (cases "pos < 4 + length (meta_bytes c meta)")
  case True
  then show ?thesis using assms(2) by (auto simp: Partial_def received_def)
next
  case False
  define q where "q = pos - 4 - length (meta_bytes c meta)"
  have q: "pos = 4 + length (meta_bytes c meta) + q" "q \<le> length body"
    using False assms(2) by (auto simp: q_def)
  have len: "unat (md_message_length meta) = length body" and init: "Meta_IsInitialized meta"
    using assms(1) by (simp_all add: frame_ok_def)
  then have "unat (of_nat q :: u32) = q"
    using q(2) unsigned_less [of "md_message_length meta", where ?'a = nat]
    by (simp add: unat_of_nat)
  then show ?thesis
    using q len meta_size [OF init]
    by (simp add: Partial_def received_def word_le_nat_alt word_less_nat_alt min_def Let_def)
qed

text \<open>A further piece of a split header fails one of the checks.\<close>

lemma append_split_header:
  assumes "frame_ok c meta body" "split_header c meta pos"
    "4 + length (meta_bytes c meta) \<le> pos + length chunk"
  shows "AppendBinaries c chunk (received c meta body pos) = Inl Check_failed"
proof -
  have "append_meta_size chunk 0 (length chunk) (received c meta body pos)
      = Inr (Append_continue 0 (length chunk) (received c meta body pos))"
    using assms by (intro append_meta_size_after) (auto simp: split_header_def)
  moreover have "append_meta c chunk 0 (length chunk) (received c meta body pos) = Inl Check_failed"
    using assms announced_size [OF assms(1)]
    by (auto simp: append_meta_def received_def split_header_def FastAppend_def Let_def CHECK_def word_gt_0)
  ultimately show ?thesis by (simp add: AppendBinaries_def)
qed

lemma ToBuffer_frame:
  assumes "rd_meta d = Live meta" "rd_payload d = Live p" "Meta_IsInitialized meta"
    "payload_SerializeToArray c p (payload_ByteSize c p) = Some body"
    "4 + length (meta_bytes c meta) + length body < 2 ^ 32" "\<not> buffer_freed (rd_buffer d)"
  shows "ToBuffer c d = Inr (d\<lparr>rd_buffer := Buffer (frame_bytes c meta body)\<rparr>)"
proof -
  have "SerializeToArray c meta (Meta_ByteSize (wire c) meta) = Some (meta_bytes c meta)"
    using serialize [OF assms(3) order_refl] by (simp add: meta_bytes_def)
  moreover have "of_nat NumMetaSizeBytes + of_nat (length (meta_bytes c meta)) + of_nat (length body)
      = (of_nat (4 + length (meta_bytes c meta) + length body) :: u32)"
    by (simp add: NumMetaSizeBytes_def)
  then have "unat (of_nat NumMetaSizeBytes + of_nat (length (meta_bytes c meta)) + of_nat (length body) :: u32)
      = 4 + length (meta_bytes c meta) + length body"
    using unat_of_nat_u32 [OF assms(5)] by simp
  ultimately show ?thesis
    using assms payload [OF assms(4)] meta_size(1) [OF assms(3)]
    by (simp add: ToBuffer_def Let_def NumMetaSizeBytes_def frame_bytes_def frame_prefix_def)
qed

end

section \<open>Arbitrary input\<close>

text \<open>
  Whatever the bytes are: a call on a non-empty piece either fails a check, or gives up
  (\<open>-1\<close>), or takes at least one byte and at most the piece.
\<close>

definition append_outcome :: "nat \<Rightarrow> (int \<times> ('u, 'm) RPCData) result \<Rightarrow> bool" where
  "append_outcome n r = (case r of
     Inl f \<Rightarrow> f = Check_failed
   | Inr (k, d) \<Rightarrow> (k = - 1 \<or> 1 \<le> k \<and> k \<le> int n) \<and> (case rd_meta d of Live _ \<Rightarrow> True | _ \<Rightarrow> False))"

lemma append_outcome_simps [simp]:
  "append_outcome n (Inl f) \<longleftrightarrow> f = Check_failed"
  "append_outcome n (Inr (k, d)) \<longleftrightarrow>
     (k = - 1 \<or> 1 \<le> k \<and> k \<le> int n) \<and> (case rd_meta d of Live _ \<Rightarrow> True | _ \<Rightarrow> False)"
  by (simp_all add: append_outcome_def)

lemma append_outcome_CHECK [simp]:
  "append_outcome n (CHECK b r) \<longleftrightarrow> (b \<longrightarrow> append_outcome n r)"
  by (cases b) simp_all

lemma append_payload_outcome:
  assumes "rd_meta d = Live meta" "0 < n" "off + n = length chunk"
  shows "append_outcome (length chunk) (append_payload chunk off n d)"
  using assms by (auto simp: append_payload_def FastAppend_def Let_def simp del: of_nat_unat)

lemma append_meta_outcome:
  assumes "rd_meta d = Live meta" "0 < n" "off + n = length chunk"
  shows "append_outcome (length chunk) (bind_result (append_meta c chunk off n d) (\<lambda>f. case f of
      Append_return r d \<Rightarrow> Inr (r, d) | Append_continue off n d \<Rightarrow> append_payload chunk off n d))"
proof -
  let ?s = "unat (rd_meta_size d)"
  have pay: "append_outcome (length chunk) (append_payload chunk (off + ?s) (n - ?s) d')"
    if "rd_meta d' = Live meta'" "?s < n" for d' :: "('a, 'b) RPCData" and meta'
    using that assms(3) by (intro append_payload_outcome) auto
  consider "Meta_ByteSize (wire c) meta \<noteq> 0"
    | "Meta_ByteSize (wire c) meta = 0" "rd_payload_binaries d = []" "?s \<le> n" "0 < ?s"
    | "Meta_ByteSize (wire c) meta = 0" "rd_payload_binaries d = []" "n < ?s"
    | "Meta_ByteSize (wire c) meta = 0" "rd_payload_binaries d \<noteq> []"
    | "Meta_ByteSize (wire c) meta = 0" "?s = 0"
    by force
  then show ?thesis
  proof cases
    case 1
    then show ?thesis using append_payload_outcome [OF assms] assms(1) by (simp add: append_meta_def)
  next
    case 2
    then show ?thesis
      using assms pay
      by (auto simp: append_meta_def Let_def bind_result_CHECK split: prod.split simp del: of_nat_unat)
  next
    case 3
    then show ?thesis
      using assms by (auto simp: append_meta_def FastAppend_def Let_def bind_result_CHECK simp del: of_nat_unat)
  next
    case 4
    then show ?thesis
      using assms by (auto simp: append_meta_def FastAppend_def Let_def bind_result_CHECK simp del: of_nat_unat)
  next
    case 5
    then show ?thesis
      using assms by (auto simp: append_meta_def CHECK_def word_gt_0 unat_eq_zero)
  qed
qed

lemma AppendBinaries_outcome:
  assumes "rd_meta d = Live meta" "chunk \<noteq> []"
  shows "append_outcome (length chunk) (AppendBinaries c chunk d)"
proof (cases "rd_meta_size d = 0 \<and> 4 - length (rd_payload_binaries d) < length chunk
    \<and> length (rd_payload_binaries d) < 4")
  case True
  let ?k = "4 - length (rd_payload_binaries d)"
  have "append_outcome (length chunk) (bind_result (append_meta c chunk ?k (length chunk - ?k) d') (\<lambda>f. case f of
      Append_return r d \<Rightarrow> Inr (r, d) | Append_continue off n d \<Rightarrow> append_payload chunk off n d))"
    if "rd_meta d' = Live meta" for d'
    using True that by (intro append_meta_outcome) auto
  then show ?thesis
    using True assms
    by (auto simp: AppendBinaries_def append_meta_size_def FastAppend_def Let_def CHECK_def NumMetaSizeBytes_def)
next
  case False
  then show ?thesis
    using assms append_meta_outcome [OF assms(1), of "length chunk" 0 chunk c]
    by (auto simp: AppendBinaries_def append_meta_size_def FastAppend_def Let_def CHECK_def NumMetaSizeBytes_def
        Suc_le_eq)
qed

section \<open>A codec that satisfies the contract\<close>

text \<open>
  The documented functions over the encoding guide's runtime, with payloads that are their
  own wire form.
\<close>

definition guide_codec :: "(byte list, byte list) rpc_codec" where
  "guide_codec = \<lparr>
     wire = guide_runtime,
     ParseFromArray = (\<lambda>m bs.
       case MergePartialFromCodedStream guide_runtime (Meta_Clear guide_runtime m) bs of
         None \<Rightarrow> (m, False)
       | Some r \<Rightarrow> (parsed_message r,
           case r of Inl _ \<Rightarrow> False | Inr (m', rest) \<Rightarrow> Meta_IsInitialized m' \<and> rest = [])),
     SerializeToArray = (\<lambda>m n.
       if Meta_IsInitialized m \<and> Meta_ByteSize guide_runtime m \<le> n
       then Some (SerializeWithCachedSizesToArray guide_runtime m []) else None),
     payload_ByteSize = length,
     payload_SerializeToArray = (\<lambda>p n. if length p \<le> n then Some p else None)\<rparr>"

lemma guide_codec_wire [simp]: "wire guide_codec = guide_runtime"
  by (simp add: guide_codec_def)

interpretation guide_messages: message_codec guide_codec
  by (rule message_codec.intro) (auto simp: guide_codec_def guide.wire_format_axioms split: if_splits)

section \<open>Properties of one message\<close>

text \<open>
  C23: A message object built from a complete header and a payload holds exactly the frame,
  which is the big-endian header length, the header and the payload, and \<^verbatim>\<open>GetBuffer\<close> hands
  out that frame and marks the object as pending.
\<close>

theorem frame_written:
  assumes "message_codec c" "Meta_IsInitialized meta"
    and "payload_SerializeToArray c p (payload_ByteSize c p) = Some body"
    and "4 + length (meta_bytes c meta) + length body < 2 ^ 32"
  shows "\<exists>d. RPCData_of c (Live meta) (Live p) = Inr d
    \<and> GetBuffer c d = Inr (Buffer (frame_bytes c meta body), d\<lparr>rd_is_pending := True\<rparr>)
    \<and> \<not> IsPending d \<and> Data_Meta d = Inr meta"
  using message_codec.ToBuffer_frame [OF assms(1) _ _ assms(2-4)]
  by (simp add: RPCData_of_def GetBuffer_def IsPending_def Data_Meta_def buffer_freed_def Let_def)

lemma guide_meta_bytes_bound:
  assumes "md_unknown_fields m = unknown_none guide_runtime"
  shows "length (meta_bytes guide_codec m) \<le> 44"
proof -
  have "length (varint_encode (unat (md_seq m))) \<le> 10" "length (varint_encode (unat (md_message_length m))) \<le> 10"
    "length (varint_encode (unat (scast (md_service_id m) :: u64))) \<le> 10"
    "length (varint_encode (unat (scast (md_method_id m) :: u64))) \<le> 10"
    by (rule varint_length_word varint_length_word32)+
  then show ?thesis
    using assms by (simp add: meta_bytes_def SerializeWithCachedSizesToArray_def Let_def guide_runtime_def)
qed

text \<open>Serialized lengths of the sample headers, by evaluation of the guide's encoder.\<close>

lemma varint_small: "n < 128 \<Longrightarrow> varint_encode n = [of_nat n]"
  by (subst varint_encode.simps) simp

lemma sample_meta_bytes:
  assumes "unat s < 128" "unat sid < 128" "unat mid < 128" "unat len < 128"
  shows "meta_bytes guide_codec (sample_meta s sid mid len)
    = [8, of_nat (unat s), 16, of_nat (unat sid), 24, of_nat (unat mid), 32, of_nat (unat len)]"
proof -
  have pos: "unat (scast w :: u64) = unat w" if "unat w < 128" for w :: i32
  proof -
    have "\<not> bit (unat w) 31" using that by (simp add: bit_iff_odd)
    then have "\<not> bit w 31" by (simp add: bit_unsigned_iff)
    then have "(scast w :: u64) = ucast w" by (intro bit_eqI) (auto simp: bit_simps min_def le_less dest: bit_imp_le_length)
    then show ?thesis using that by (simp add: unsigned_ucast_eq take_bit_nat_eq_self)
  qed
  have "has_seq (sample_meta s sid mid len) \<and> has_service_id (sample_meta s sid mid len)
      \<and> has_method_id (sample_meta s sid mid len) \<and> has_message_length (sample_meta s sid mid len)"
    using sample_meta_simps(2) [of s sid mid len] by (simp only: IsInitialized_iff)
  then show ?thesis
    using assms guide.unknown_none_empty
    by (simp add: meta_bytes_def SerializeWithCachedSizesToArray_def Let_def)
      (simp add: guide_runtime_def varint_small pos sample_meta_def meta_setters)
qed

theorem frame_written_witness:
  "\<exists>d. RPCData_of guide_codec (Live (sample_meta 1 2 3 2)) (Live [104, 105]) = Inr d
    \<and> GetBuffer guide_codec d
        = Inr (Buffer (frame_bytes guide_codec (sample_meta 1 2 3 2) [104, 105]), d\<lparr>rd_is_pending := True\<rparr>)
    \<and> \<not> IsPending d \<and> Data_Meta d = Inr (sample_meta 1 2 3 2)"
  by (rule frame_written)
    (simp_all add: guide_messages.message_codec_axioms sample_meta_bytes, simp_all add: guide_codec_def)

text \<open>
  C11: Reception of a frame. Whatever part of the frame an object has taken, unless it ends
  strictly inside the header, the next non-empty piece of the stream is consumed up to the
  end of the frame and no further, the object then holds exactly the bytes of the frame seen
  so far, and it is partial exactly while some are missing; a complete one has the sender's
  header and payload.
\<close>

theorem frame_reception:
  assumes "message_codec c" "frame_ok c meta body"
    and "pos < length (frame_bytes c meta body)" "\<not> split_header c meta pos"
    and "chunk \<noteq> []" "prefix chunk (drop pos (frame_bytes c meta body) @ later)"
    and "k = min (length chunk) (length (frame_bytes c meta body) - pos)"
  shows "AppendBinaries c chunk (received c meta body pos) = Inr (int k, received c meta body (pos + k))
    \<and> Partial c (received c meta body (pos + k)) = Inr (pos + k < length (frame_bytes c meta body))
    \<and> (pos + k = length (frame_bytes c meta body) \<longrightarrow>
         Data_Meta (received c meta body (pos + k)) = Inr meta
         \<and> MessageBinary (received c meta body (pos + k)) = Inr body)"
proof (intro conjI impI)
  show "AppendBinaries c chunk (received c meta body pos) = Inr (int k, received c meta body (pos + k))"
    using message_codec.append_received [OF assms(1-6)] unfolding assms(7) [symmetric] Let_def .
  show "Partial c (received c meta body (pos + k)) = Inr (pos + k < length (frame_bytes c meta body))"
    using assms(3,7) by (intro message_codec.Partial_received [OF assms(1,2)]) simp
qed (simp_all add: Data_Meta_def MessageBinary_def received_def)

text \<open>
  C26: A header that arrives in two pieces stops the process: with some of its bytes
  buffered, the piece that completes it fails the check that follows the append, although
  the message is well formed.
\<close>

theorem split_header_aborts:
  assumes "message_codec c" "frame_ok c meta body" "split_header c meta pos"
    and "4 + length (meta_bytes c meta) \<le> pos + length chunk"
  shows "AppendBinaries c chunk (received c meta body pos) = Inl Check_failed"
  using assms by (rule message_codec.append_split_header)

lemma sample_frame_ok:
  assumes "unat s < 128" "unat sid < 128" "unat mid < 128" "unat len < 128" "unat len = length body"
  shows "frame_ok guide_codec (sample_meta s sid mid len) body"
  using assms by (simp add: frame_ok_def sample_meta_bytes)

theorem frame_reception_witness:
  "AppendBinaries guide_codec (frame_bytes guide_codec (sample_meta 1 2 3 2) [104, 105] @ [0])
       (received guide_codec (sample_meta 1 2 3 2) [104, 105] 0)
     = Inr (14, received guide_codec (sample_meta 1 2 3 2) [104, 105] 14)
   \<and> Data_Meta (received guide_codec (sample_meta 1 2 3 2) [104, 105] 14) = Inr (sample_meta 1 2 3 2)"
proof -
  have len: "length (frame_bytes guide_codec (sample_meta 1 2 3 2) [104, 105]) = 14"
    by (simp add: sample_meta_bytes)
  show ?thesis
    using frame_reception [OF guide_messages.message_codec_axioms sample_frame_ok, of 1 2 3 2 "[104, 105]" 0
        "frame_bytes guide_codec (sample_meta 1 2 3 2) [104, 105] @ [0]" "[0]" 14]
    unfolding length_append len split_header_def by simp
qed

theorem split_header_aborts_witness:
  "AppendBinaries guide_codec [2, 24, 3, 32, 2, 104, 105]
     (received guide_codec (sample_meta 1 2 3 2) [104, 105] 7) = Inl Check_failed"
  using sample_frame_ok [of 1 2 3 2 "[104, 105]"]
  by (intro split_header_aborts)
    (simp_all add: guide_messages.message_codec_axioms sample_meta_bytes split_header_def)

text \<open>
  C24: On arbitrary bytes and any parser, a call on a non-empty piece never touches a null or
  deleted object nor an index out of range: it fails a check, answers \<open>-1\<close>, or consumes
  between one byte and the whole piece.
\<close>

theorem append_progress:
  assumes "rd_meta d = Live meta" "chunk \<noteq> []"
  shows "AppendBinaries c chunk d = Inl Check_failed
    \<or> (\<exists>k d'. AppendBinaries c chunk d = Inr (k, d') \<and> (k = - 1 \<or> 1 \<le> k \<and> k \<le> int (length chunk)))"
  using AppendBinaries_outcome [OF assms, of c] by (auto simp: append_outcome_def split: sum.splits)

theorem append_progress_witness:
  "AppendBinaries guide_codec [0, 0, 0, 0] (RPCData_new guide_codec) = Inl Check_failed
    \<or> (\<exists>k d'. AppendBinaries guide_codec [0, 0, 0, 0] (RPCData_new guide_codec) = Inr (k, d')
        \<and> (k = - 1 \<or> 1 \<le> k \<and> k \<le> int 4))"
  using append_progress [of "RPCData_new guide_codec" _ "[0, 0, 0, 0]" guide_codec] by simp

end
