(* ===== verification/Rpc_Channel.thy ===== *)
theory Rpc_Channel
  imports Rpc_Data
begin

text \<open>
  \<^verbatim>\<open>RPCChannel\<close> of \<^verbatim>\<open>rpc/detail/rpc_channel.h\<close> and \<^verbatim>\<open>rpc_channel.cc\<close>: one connection, driven
  by the completion handlers of \<^verbatim>\<open>boost::asio\<close> on a single thread. The channel reads pieces
  of the stream, cuts them into messages and hands each to a receiver, and it sends the
  queued messages one write at a time.

  A channel lives on the \<^verbatim>\<open>RPCData\<close> heap, a map from addresses. The calls into \<^verbatim>\<open>boost::asio\<close>
  are recorded in the order they are made; their completions are the steps of the step
  relations. The record is extensible, so that the callbacks can work on the state of the
  client or of the server. Log lines are not modelled.
\<close>

section \<open>State\<close>

datatype io_call =
    Async_read_some nat
  | Async_write nat "byte list"
  | Async_connect nat
  | Shutdown_both nat
  | Close_socket nat

record ('u, 'm) channel_state =
  heap :: "nat \<rightharpoonup> ('u, 'm) RPCData"
  next_addr :: nat
  io :: "io_call list"
  partial_message :: "nat option"
  pending :: "nat list"
  closed_by_peer :: bool
  terminated :: bool
  socket :: nat

text \<open>The two callbacks of the constructor, and the virtual method.\<close>

record 'st channel_calls =
  receiver :: "nat \<Rightarrow> 'st \<Rightarrow> 'st result"
  cancellation :: "'st \<Rightarrow> 'st result"
  RecycleRPCData :: "nat \<Rightarrow> 'st \<Rightarrow> 'st result"

subsection \<open>The heap\<close>

definition load :: "nat \<Rightarrow> ('u, 'm, 'z) channel_state_scheme \<Rightarrow> ('u, 'm) RPCData result" where
  "load a st = (case heap st a of None \<Rightarrow> Inl Dangling_pointer | Some d \<Rightarrow> Inr d)"

definition store ::
  "nat \<Rightarrow> ('u, 'm) RPCData \<Rightarrow> ('u, 'm, 'z) channel_state_scheme \<Rightarrow> ('u, 'm, 'z) channel_state_scheme" where
  "store a d st = st\<lparr>heap := (heap st)(a \<mapsto> d)\<rparr>"

definition allocate ::
  "('u, 'm) RPCData \<Rightarrow> ('u, 'm, 'z) channel_state_scheme \<Rightarrow> nat \<times> ('u, 'm, 'z) channel_state_scheme" where
  "allocate d st = (next_addr st, st\<lparr>heap := (heap st)(next_addr st \<mapsto> d), next_addr := next_addr st + 1\<rparr>)"

definition delete_data ::
  "nat \<Rightarrow> ('u, 'm, 'z) channel_state_scheme \<Rightarrow> ('u, 'm, 'z) channel_state_scheme result" where
  "delete_data a st =
     bind_result (load a st) (\<lambda>d.
     bind_result (RPCData_delete d) (\<lambda>u. Inr (st\<lparr>heap := (heap st)(a := None)\<rparr>)))"

lemma delete_data_ok:
  "heap st a = Some d \<Longrightarrow> deletable d \<Longrightarrow> delete_data a st = Inr (st\<lparr>heap := (heap st)(a := None)\<rparr>)"
  by (simp add: delete_data_def load_def RPCData_delete_cases)

lemma delete_data_Inr:
  "delete_data a st = Inr st' \<Longrightarrow> st' = st\<lparr>heap := (heap st)(a := None)\<rparr>"
  by (auto simp: delete_data_def bind_result_eq_Inr)

definition do_io :: "io_call \<Rightarrow> ('u, 'm, 'z) channel_state_scheme \<Rightarrow> ('u, 'm, 'z) channel_state_scheme" where
  "do_io e st = st\<lparr>io := io st @ [e]\<rparr>"

text \<open>\<^verbatim>\<open>CloseSocket\<close> of \<^verbatim>\<open>rpc/detail/helper.h\<close>: an error of \<^verbatim>\<open>close\<close> is logged and nothing else.\<close>

definition CloseSocket :: "nat \<Rightarrow> ('u, 'm, 'z) channel_state_scheme \<Rightarrow> ('u, 'm, 'z) channel_state_scheme" where
  "CloseSocket s st = do_io (Close_socket s) st"

section \<open>Operations\<close>

definition RPCChannel_new ::
  "nat \<Rightarrow> ('u, 'm, 'z) channel_state_scheme \<Rightarrow> ('u, 'm, 'z) channel_state_scheme" where
  "RPCChannel_new s st = st\<lparr>partial_message := None, pending := [], closed_by_peer := False,
     terminated := False, socket := s\<rparr>"

definition base_RecycleRPCData ::
  "nat \<Rightarrow> ('u, 'm, 'z) channel_state_scheme \<Rightarrow> ('u, 'm, 'z) channel_state_scheme result" where
  "base_RecycleRPCData a st = Inr st"

definition server_RecycleRPCData ::
  "nat \<Rightarrow> ('u, 'm, 'z) channel_state_scheme \<Rightarrow> ('u, 'm, 'z) channel_state_scheme result" where
  "server_RecycleRPCData a st = delete_data a st"

definition StartToRead :: "('u, 'm, 'z) channel_state_scheme \<Rightarrow> ('u, 'm, 'z) channel_state_scheme" where
  "StartToRead st = do_io (Async_read_some (socket st)) st"

fun recycle_all ::
  "(nat \<Rightarrow> 'st \<Rightarrow> 'st result) \<Rightarrow> nat list \<Rightarrow> 'st \<Rightarrow> 'st result" where
  "recycle_all rec [] st = Inr st"
| "recycle_all rec (a # as) st = bind_result (rec a st) (recycle_all rec as)"

definition ClearPendingPackages ::
  "('u, 'm, 'z) channel_state_scheme channel_calls \<Rightarrow> ('u, 'm, 'z) channel_state_scheme \<Rightarrow>
     ('u, 'm, 'z) channel_state_scheme result" where
  "ClearPendingPackages calls st =
     bind_result (recycle_all (RecycleRPCData calls) (pending st) st) (\<lambda>st. Inr (st\<lparr>pending := []\<rparr>))"

text \<open>In the base class destructor the virtual call reaches the base class version.\<close>

definition RPCChannel_delete ::
  "('u, 'm, 'z) channel_state_scheme channel_calls \<Rightarrow> ('u, 'm, 'z) channel_state_scheme \<Rightarrow>
     ('u, 'm, 'z) channel_state_scheme result" where
  "RPCChannel_delete calls st =
     ClearPendingPackages (calls\<lparr>RecycleRPCData := base_RecycleRPCData\<rparr>)
       (CloseSocket (socket st) st)"

definition RebuildSocket ::
  "('u, 'm, 'z) channel_state_scheme channel_calls \<Rightarrow> nat \<Rightarrow> ('u, 'm, 'z) channel_state_scheme \<Rightarrow>
     ('u, 'm, 'z) channel_state_scheme result" where
  "RebuildSocket calls s st =
     bind_result (ClearPendingPackages calls st) (\<lambda>st. Inr (st\<lparr>socket := s, closed_by_peer := False\<rparr>))"

definition ShutdownInLoop :: "('u, 'm, 'z) channel_state_scheme \<Rightarrow> ('u, 'm, 'z) channel_state_scheme" where
  "ShutdownInLoop st = do_io (Shutdown_both (socket st)) st"

definition TerminateInLoop :: "('u, 'm, 'z) channel_state_scheme \<Rightarrow> ('u, 'm, 'z) channel_state_scheme" where
  "TerminateInLoop st = ShutdownInLoop (st\<lparr>terminated := True\<rparr>)"

subsection \<open>Sending\<close>

definition WriteInLoop ::
  "('u, 'm) rpc_codec \<Rightarrow> ('u, 'm, 'z) channel_state_scheme \<Rightarrow> ('u, 'm, 'z) channel_state_scheme result" where
  "WriteInLoop c st =
     (case pending st of
        [] \<Rightarrow> Inr st
      | a # _ \<Rightarrow>
          bind_result (load a st) (\<lambda>d.
          if IsPending d then Inr st
          else bind_result (GetBuffer c d) (\<lambda>(b, d).
            CHECK (0 < buffer_size b)
              (case b of
                 Buffer bs \<Rightarrow> Inr (do_io (Async_write (socket st) bs) (store a d st))
               | _ \<Rightarrow> Inl Dangling_pointer))))"

definition SendInLoop ::
  "('u, 'm) rpc_codec \<Rightarrow> nat \<Rightarrow> ('u, 'm, 'z) channel_state_scheme \<Rightarrow>
     ('u, 'm, 'z) channel_state_scheme result" where
  "SendInLoop c a st = WriteInLoop c (st\<lparr>pending := pending st @ [a]\<rparr>)"

definition Written ::
  "('u, 'm) rpc_codec \<Rightarrow> ('u, 'm, 'z) channel_state_scheme channel_calls \<Rightarrow> bool \<Rightarrow> nat \<Rightarrow>
     ('u, 'm, 'z) channel_state_scheme \<Rightarrow> ('u, 'm, 'z) channel_state_scheme result" where
  "Written c calls error bytes_transferred st =
     (if error then Inr st
      else CHECK (0 < bytes_transferred)
        (case pending st of
           [] \<Rightarrow> Inr st
         | a # rest \<Rightarrow>
             bind_result (load a st) (\<lambda>d.
             CHECK (IsPending d)
               (bind_result (GetBuffer c d) (\<lambda>(b, d).
                CHECK (bytes_transferred = buffer_size b)
                  (bind_result (RecycleRPCData calls a ((store a d st)\<lparr>pending := rest\<rparr>))
                    (WriteInLoop c)))))))"

subsection \<open>Receiving\<close>

text \<open>The address of the message being collected; a fresh one if there is none.\<close>

definition current_message ::
  "('u, 'm) rpc_codec \<Rightarrow> ('u, 'm, 'z) channel_state_scheme \<Rightarrow> nat \<times> ('u, 'm, 'z) channel_state_scheme" where
  "current_message c st =
     (case partial_message st of
        Some a \<Rightarrow> (a, st)
      | None \<Rightarrow> (case allocate (RPCData_new c) st of (a, st) \<Rightarrow> (a, st\<lparr>partial_message := Some a\<rparr>)))"

lemma AppendBinaries_not_zero:
  assumes "AppendBinaries c chunk d = Inr (k, d')" "chunk \<noteq> []"
  shows "k = - 1 \<or> 0 < k"
proof (cases "rd_meta d")
  case (Live meta)
  then show ?thesis using AppendBinaries_outcome [OF Live assms(2), of c] assms(1) by auto
qed (use assms in \<open>auto simp: AppendBinaries_def append_meta_size_def append_meta_def FastAppend_def
  Let_def CHECK_def NumMetaSizeBytes_def bind_result_def split: if_splits sum.splits\<close>)

function read_loop ::
  "('u, 'm) rpc_codec \<Rightarrow> ('u, 'm, 'z) channel_state_scheme channel_calls \<Rightarrow> byte list \<Rightarrow>
     ('u, 'm, 'z) channel_state_scheme \<Rightarrow> ('u, 'm, 'z) channel_state_scheme result" where
  "read_loop c calls bytes st =
     (if bytes = [] then Inr st
      else case current_message c st of (a, st) \<Rightarrow>
        (case load a st of
           Inl f \<Rightarrow> Inl f
         | Inr d \<Rightarrow>
           (case AppendBinaries c bytes d of
              Inl f \<Rightarrow> Inl f
            | Inr (bytes_handled, d) \<Rightarrow>
              let st = store a d st in
              if bytes_handled < 0 then
                bind_result (delete_data a st) (\<lambda>st. Inr (st\<lparr>partial_message := None\<rparr>))
              else if int (length bytes) < bytes_handled then Inl Check_failed
              else
                (case Partial c d of
                   Inl f \<Rightarrow> Inl f
                 | Inr True \<Rightarrow> if drop (nat bytes_handled) bytes = [] then Inr st else Inl Check_failed
                 | Inr False \<Rightarrow>
                   (case receiver calls a st of
                      Inl f \<Rightarrow> Inl f
                    | Inr st \<Rightarrow>
                        read_loop c calls (drop (nat bytes_handled) bytes) (st\<lparr>partial_message := None\<rparr>))))))"
  by pat_completeness auto

termination
proof (relation "measure (\<lambda>(c, calls, bytes, st). length bytes)", simp)
  fix c :: "('u, 'm) rpc_codec" and calls :: "('u, 'm, 'z) channel_state_scheme channel_calls" and bytes st x a st1 d y k d' st2 st3
  assume "bytes \<noteq> []" "AppendBinaries c bytes d = Inr y" "(k, d') = y" "\<not> k < 0"
  then show "((c, calls, drop (nat k) bytes, st3\<lparr>partial_message := None\<rparr>), (c, calls, bytes, st))
    \<in> measure (\<lambda>(c, calls, bytes, st). length bytes)"
    using AppendBinaries_not_zero [of c bytes d k d'] by auto
qed

declare read_loop.simps [simp del]

definition ReadInLoop ::
  "('u, 'm) rpc_codec \<Rightarrow> ('u, 'm, 'z) channel_state_scheme channel_calls \<Rightarrow> bool \<Rightarrow> byte list \<Rightarrow>
     ('u, 'm, 'z) channel_state_scheme \<Rightarrow> ('u, 'm, 'z) channel_state_scheme result" where
  "ReadInLoop c calls error bytes st =
     (if terminated st then Inr st
      else if error then
        (if \<not> closed_by_peer st then cancellation calls (st\<lparr>closed_by_peer := True\<rparr>) else Inr st)
      else bind_result (read_loop c calls bytes st) (\<lambda>st. Inr (StartToRead st)))"

text \<open>The pieces one completed read after the other brings.\<close>

fun read_pieces ::
  "('u, 'm) rpc_codec \<Rightarrow> ('u, 'm, 'z) channel_state_scheme channel_calls \<Rightarrow> byte list list \<Rightarrow>
     ('u, 'm, 'z) channel_state_scheme \<Rightarrow> ('u, 'm, 'z) channel_state_scheme result" where
  "read_pieces c calls [] st = Inr st"
| "read_pieces c calls (b # bs) st = bind_result (ReadInLoop c calls False b st) (read_pieces c calls bs)"

lemma recycle_all_base [simp]: "recycle_all base_RecycleRPCData as st = Inr st"
  by (induction as) (simp_all add: base_RecycleRPCData_def)

section \<open>Reading a stream of messages\<close>

type_synonym 'u package = "'u RPCMetaData \<times> byte list"

definition stream_bytes :: "('u, 'm) rpc_codec \<Rightarrow> 'u package list \<Rightarrow> byte list" where
  "stream_bytes c fs = concat (map (\<lambda>(meta, body). frame_bytes c meta body) fs)"

lemma stream_bytes_simps [simp]:
  "stream_bytes c [] = []"
  "stream_bytes c ((meta, body) # fs) = frame_bytes c meta body @ stream_bytes c fs"
  by (simp_all add: stream_bytes_def)

text \<open>
  The packages complete in the first \<open>n\<close> bytes of a stream, those that follow, and how far
  the first of these has come.
\<close>

fun split_stream ::
  "('u, 'm) rpc_codec \<Rightarrow> 'u package list \<Rightarrow> nat \<Rightarrow> 'u package list \<times> 'u package list \<times> nat" where
  "split_stream c [] n = ([], [], 0)"
| "split_stream c ((meta, body) # fs) n =
     (if n < length (frame_bytes c meta body) then ([], (meta, body) # fs, n)
      else case split_stream c fs (n - length (frame_bytes c meta body)) of
        (ds, r, p) \<Rightarrow> ((meta, body) # ds, r, p))"

definition clean_cut :: "('u, 'm) rpc_codec \<Rightarrow> 'u package list \<Rightarrow> nat \<Rightarrow> bool" where
  "clean_cut c fs n =
     (case split_stream c fs n of
        (_, (meta, _) # _, p) \<Rightarrow> \<not> split_header c meta p
      | _ \<Rightarrow> True)"

text \<open>A channel that has taken \<open>p\<close> bytes of the first of the packages to come.\<close>

definition at_stream ::
  "('u, 'm) rpc_codec \<Rightarrow> ('u, 'm, 'z) channel_state_scheme \<Rightarrow> 'u package list \<Rightarrow> nat \<Rightarrow> bool" where
  "at_stream c st fs p =
     (if p = 0 then partial_message st = None
      else case fs of [] \<Rightarrow> False
        | (meta, body) # _ \<Rightarrow> p < length (frame_bytes c meta body)
            \<and> (\<exists>a. partial_message st = Some a \<and> heap st a = Some (received c meta body p)))"

lemma split_stream_0: "(\<And>f. f \<in> set fs \<Longrightarrow> frame_ok c (fst f) (snd f)) \<Longrightarrow> split_stream c fs 0 = ([], fs, 0)"
  by (cases fs) auto

lemma split_stream_add:
  "split_stream c fs n = (ds, r, p) \<Longrightarrow> split_stream c r (p + k) = (ds', r', p') \<Longrightarrow>
     split_stream c fs (n + k) = (ds @ ds', r', p')"
proof (induction c fs n arbitrary: ds r p rule: split_stream.induct)
  case (2 c meta body fs n)
  show ?case
  proof (cases "n < length (frame_bytes c meta body)")
    case True
    then show ?thesis using "2.prems" by auto
  next
    case False
    let ?l = "length (frame_bytes c meta body)"
    obtain ds0 where ds: "split_stream c fs (n - ?l) = (ds0, r, p)" "ds = (meta, body) # ds0"
      using "2.prems"(1) False by (cases "split_stream c fs (n - ?l)") (auto simp del: length_frame)
    have "split_stream c fs (n - ?l + k) = (ds0 @ ds', r', p')"
      by (rule "2.IH" [OF False ds(1) "2.prems"(2)])
    moreover have "n + k - ?l = n - ?l + k" "\<not> n + k < ?l" using False by auto
    ultimately show ?thesis using ds(2) by (simp only: split_stream.simps(2) if_False prod.case append_Cons)
  qed
qed simp

lemma split_stream_append:
  "split_stream c fs n = (ds, r, p) \<Longrightarrow> n \<le> length (stream_bytes c fs) \<Longrightarrow>
     fs = ds @ r \<and> n = length (stream_bytes c ds) + p"
proof (induction c fs n arbitrary: ds r p rule: split_stream.induct)
  case (2 c meta body fs n)
  then show ?case by (fastforce split: if_splits prod.splits)
qed auto

lemma split_stream_all:
  "split_stream c fs (length (stream_bytes c fs)) = (fs, [], 0)"
  by (induction fs) (auto split: prod.splits)

lemma current_message_partial: "current_message c st = (a, st') \<Longrightarrow> partial_message st' = Some a"
  by (auto simp: current_message_def allocate_def split: option.splits)

context message_codec
begin

lemma current_message_received:
  assumes "at_stream c st ((meta, body) # fs) p" "current_message c st = (a, st1)"
  shows "heap st1 a = Some (received c meta body p)"
  using assms
  by (auto simp: at_stream_def current_message_def allocate_def received_0 split: if_splits option.splits)

lemma read_step:
  assumes "frame_ok c meta body" "at_stream c st ((meta, body) # fs) p" "\<not> split_header c meta p"
    "bytes \<noteq> []" "prefix bytes (drop p (frame_bytes c meta body) @ later)"
    "current_message c st = (a, st1)"
    "k = min (length bytes) (length (frame_bytes c meta body) - p)"
  shows "read_loop c calls bytes st =
    (if p + k < length (frame_bytes c meta body) then Inr (store a (received c meta body (p + k)) st1)
     else case receiver calls a (store a (received c meta body (p + k)) st1) of
       Inl f \<Rightarrow> Inl f
     | Inr st2 \<Rightarrow> read_loop c calls (drop k bytes) (st2\<lparr>partial_message := None\<rparr>))"
proof -
  have p: "p < length (frame_bytes c meta body)"
    using assms(2) by (auto simp: at_stream_def split: if_splits)
  have d: "load a st1 = Inr (received c meta body p)"
    using current_message_received [OF assms(2,6)] by (simp add: load_def)
  have ap: "AppendBinaries c bytes (received c meta body p) = Inr (int k, received c meta body (p + k))"
    using append_received [OF assms(1) p assms(3-5)] unfolding assms(7) [symmetric] Let_def .
  have pa: "Partial c (received c meta body (p + k)) = Inr (p + k < length (frame_bytes c meta body))"
    using p assms(7) by (intro Partial_received [OF assms(1)]) simp
  have "k \<le> length bytes" "p + k < length (frame_bytes c meta body) \<Longrightarrow> drop k bytes = []"
    using assms(7) by auto
  then show ?thesis
    using assms(4) by (subst read_loop.simps) (simp add: assms(6) d ap pa Let_def split: bool.split sum.split)
qed

end

text \<open>
  What the channel needs of its receiver: in a \<open>ready\<close> state the first of a sequence of
  acceptable packages is taken without a fault, \<open>delivered\<close> records it, the state stays ready
  and the others stay acceptable.
\<close>

locale package_receiver = message_codec c
  for c :: "('u, 'm) rpc_codec" +
  fixes calls :: "('u, 'm, 'z) channel_state_scheme channel_calls"
    and ready :: "('u, 'm, 'z) channel_state_scheme \<Rightarrow> bool"
    and acceptable :: "('u, 'm, 'z) channel_state_scheme \<Rightarrow> 'u package list \<Rightarrow> bool"
    and delivered :: "('u, 'm, 'z) channel_state_scheme \<Rightarrow> 'x list"
    and view :: "'u package \<Rightarrow> 'x"
  assumes receive: "ready st \<Longrightarrow> \<not> terminated st \<Longrightarrow> partial_message st = Some a \<Longrightarrow>
      heap st a = Some (received c meta body (length (frame_bytes c meta body))) \<Longrightarrow>
      frame_ok c meta body \<Longrightarrow> acceptable st ((meta, body) # fs) \<Longrightarrow>
      \<exists>st'. receiver calls a st = Inr st' \<and> ready (st'\<lparr>partial_message := None\<rparr>)
        \<and> delivered (st'\<lparr>partial_message := None\<rparr>) = delivered st @ [view (meta, body)]
        \<and> \<not> terminated st' \<and> acceptable (st'\<lparr>partial_message := None\<rparr>) fs"
    and ready_begin: "ready st \<Longrightarrow> partial_message st = None \<Longrightarrow> ready (snd (current_message c st))"
    and ready_store: "ready st \<Longrightarrow> partial_message st = Some a \<Longrightarrow> heap st a \<noteq> None \<Longrightarrow> ready (store a d st)"
    and ready_read: "ready st \<Longrightarrow> ready (StartToRead st)"
    and delivered_begin: "ready st \<Longrightarrow> partial_message st = None \<Longrightarrow>
      delivered (snd (current_message c st)) = delivered st"
    and delivered_store: "ready st \<Longrightarrow> partial_message st = Some a \<Longrightarrow> delivered (store a d st) = delivered st"
    and delivered_read: "delivered (StartToRead st) = delivered st"
    and acceptable_begin: "ready st \<Longrightarrow> partial_message st = None \<Longrightarrow> acceptable st fs \<Longrightarrow>
      acceptable (snd (current_message c st)) fs"
    and acceptable_store: "ready st \<Longrightarrow> partial_message st = Some a \<Longrightarrow> acceptable st fs \<Longrightarrow>
      acceptable (store a d st) fs"
    and acceptable_read: "acceptable st fs \<Longrightarrow> acceptable (StartToRead st) fs"

context package_receiver
begin

definition consumes ::
  "('u, 'm, 'z) channel_state_scheme \<Rightarrow> 'u package list \<Rightarrow> 'u package list \<Rightarrow>
     ('u, 'm, 'z) channel_state_scheme \<Rightarrow> bool" where
  "consumes st ds r st' \<longleftrightarrow> ready st' \<and> \<not> terminated st' \<and> acceptable st' r
     \<and> delivered st' = delivered st @ map view ds"

lemma consumes_trans: "consumes st ds r st1 \<Longrightarrow> consumes st1 ds' r' st2 \<Longrightarrow> consumes st (ds @ ds') r' st2"
  by (simp add: consumes_def)

lemma consumes_begin:
  assumes "ready st" "\<not> terminated st" "acceptable st fs" "current_message c st = (a, st1)"
    "at_stream c st fs p"
  shows "consumes st [] fs (store a d st1)" "partial_message (store a d st1) = Some a"
proof -
  have st1: "snd (current_message c st) = st1" using assms(4) by simp
  have st1_ok: "ready st1 \<and> heap st1 a \<noteq> None \<and> acceptable st1 fs \<and> delivered st1 = delivered st"
  proof (cases "partial_message st")
    case None
    then show ?thesis
      using ready_begin [OF assms(1) None] acceptable_begin [OF assms(1) None assms(3)]
        delivered_begin [OF assms(1) None] assms(4)
      by (auto simp: st1 current_message_def allocate_def)
  next
    case (Some b)
    then show ?thesis using assms
      by (auto simp: current_message_def at_stream_def split: list.splits if_splits)
  qed
  then have "ready (store a d st1)" "acceptable (store a d st1) fs" "delivered (store a d st1) = delivered st1"
    using ready_store [of st1 a d] acceptable_store [of st1 a fs d] delivered_store [of st1 a d]
      current_message_partial [OF assms(4)]
    by blast+
  moreover have "\<not> terminated (store a d st1)"
    using assms(2,4) by (auto simp: store_def current_message_def allocate_def split: option.splits)
  ultimately show "consumes st [] fs (store a d st1)"
    using st1_ok by (simp add: consumes_def)
  show "partial_message (store a d st1) = Some a"
    using current_message_partial [OF assms(4)] by (simp add: store_def)
qed

lemma read_piece:
  assumes "ready st" "\<not> terminated st" "acceptable st fs" "\<And>f. f \<in> set fs \<Longrightarrow> frame_ok c (fst f) (snd f)"
    "at_stream c st fs p" "clean_cut c fs p" "prefix bytes (drop p (stream_bytes c fs))"
    "split_stream c fs (p + length bytes) = (ds, r, q)"
  shows "\<exists>st'. read_loop c calls bytes st = Inr st' \<and> consumes st ds r st' \<and> at_stream c st' r q"
  using assms
proof (induction fs arbitrary: st p bytes ds r q)
  case Nil
  then show ?case by (auto simp: read_loop.simps consumes_def at_stream_def split: if_splits)
next
  case (Cons f fs)
  obtain meta body where f: "f = (meta, body)" by fastforce
  have ok: "frame_ok c meta body" using Cons.prems(4) [of f] by (simp add: f)
  let ?L = "length (frame_bytes c meta body)"
  have p: "p < ?L" using Cons.prems(5) by (auto simp: f at_stream_def split: if_splits)
  have clean: "\<not> split_header c meta p" using Cons.prems(6) p by (simp add: f clean_cut_def)
  show ?case
  proof (cases "bytes = []")
    case True
    then show ?thesis using Cons.prems p
      by (auto simp: f read_loop.simps [of _ _ "[]"] consumes_def)
  next
    case False
    obtain a st1 where cm: "current_message c st = (a, st1)" by fastforce
    define k where "k = min (length bytes) (?L - p)"
    define st2 where "st2 = store a (received c meta body (p + k)) st1"
    have pre: "prefix bytes (drop p (frame_bytes c meta body) @ stream_bytes c fs)"
      using Cons.prems(7) p by (simp add: f)
    note step = read_step [OF ok Cons.prems(5) [unfolded f] clean False pre cm k_def, of calls, folded st2_def]
    have st2: "consumes st [] ((meta, body) # fs) st2" "partial_message st2 = Some a"
      using consumes_begin [OF Cons.prems(1-3) cm Cons.prems(5)] by (simp_all add: st2_def f)
    have heap2: "heap st2 a = Some (received c meta body (p + k))" by (simp add: st2_def store_def)
    show ?thesis
    proof (cases "p + k < ?L")
      case True
      then have "k = length bytes" by (auto simp: k_def)
      then show ?thesis using True step st2 heap2 Cons.prems(8) False
        by (auto simp: f at_stream_def)
    next
      case nF: False
      then have k: "p + k = ?L" "k \<le> length bytes" using p by (auto simp: k_def)
      obtain st3 where st3: "receiver calls a st2 = Inr st3" "\<not> terminated (st3\<lparr>partial_message := None\<rparr>)"
        "consumes st2 [(meta, body)] fs (st3\<lparr>partial_message := None\<rparr>)"
        using receive [of st2 a meta body fs] st2 heap2 ok k(1) by (auto simp: consumes_def)
      let ?st3 = "st3\<lparr>partial_message := None\<rparr>"
      have len: "p + length bytes - ?L = 0 + length (drop k bytes)" "\<not> p + length bytes < ?L" using k by auto
      obtain ds' where ds': "split_stream c fs (0 + length (drop k bytes)) = (ds', r, q)" "ds = (meta, body) # ds'"
        using Cons.prems(8) len(2) unfolding f split_stream.simps len(1) by (auto split: prod.splits)
      have "prefix (drop k bytes) (drop 0 (stream_bytes c fs))"
        using prefix_drop_first [OF pre, of k] k p by auto
      moreover have "clean_cut c fs 0"
        using split_stream_0 [of fs c] Cons.prems(4)
        by (auto simp: clean_cut_def split_header_def split: list.split)
      moreover have "at_stream c ?st3 fs 0" by (simp add: at_stream_def)
      ultimately obtain st' where "read_loop c calls (drop k bytes) ?st3 = Inr st'"
        "consumes ?st3 ds' r st'" "at_stream c st' r q"
        using Cons.IH [of ?st3 0 "drop k bytes" ds' r q] st3 Cons.prems(4) ds'(1)
        by (auto simp: consumes_def)
      moreover have "consumes st [(meta, body)] fs ?st3"
        using consumes_trans [OF st2(1) st3(3)] by simp
      ultimately show ?thesis
        using step nF st3(1) consumes_trans [of st "[(meta, body)]" fs ?st3 ds' r st'] ds'(2) by auto
    qed
  qed
qed

lemma clean_cut_rest:
  assumes "split_stream c fs n = (ds, r, q)"
  shows "clean_cut c r (q + k) = clean_cut c fs (n + k)"
  using split_stream_add [OF assms, of k] by (cases "split_stream c r (q + k)") (simp add: clean_cut_def)

lemma read_pieces_stream:
  assumes "ready st" "\<not> terminated st" "acceptable st fs" "\<And>f. f \<in> set fs \<Longrightarrow> frame_ok c (fst f) (snd f)"
    "at_stream c st fs p" "concat chunks = drop p (stream_bytes c fs)"
    "\<And>i. i < length chunks \<Longrightarrow> clean_cut c fs (p + length (concat (take i chunks)))"
  shows "\<exists>st'. read_pieces c calls chunks st = Inr st' \<and> consumes st fs [] st' \<and> partial_message st' = None"
  using assms
proof (induction chunks arbitrary: st fs p)
  case Nil
  have "fs = []"
  proof (rule ccontr)
    assume "fs \<noteq> []"
    then obtain meta body gs where "fs = (meta, body) # gs" by (metis list.exhaust surj_pair)
    then show False using Nil.prems(5,6) by (auto simp: at_stream_def split: if_splits)
  qed
  then show ?case using Nil.prems by (auto simp: consumes_def at_stream_def split: if_splits)
next
  case (Cons b bs)
  obtain ds r q where sp: "split_stream c fs (p + length b) = (ds, r, q)" by (metis prod_cases3)
  have pre: "prefix b (drop p (stream_bytes c fs))"
    using Cons.prems(6) by (metis concat.simps(2) prefixI)
  have le: "p \<le> length (stream_bytes c fs)"
    using Cons.prems(5) by (auto simp: at_stream_def split: if_splits list.splits)
  then have "p + length b \<le> length (stream_bytes c fs)"
    using prefix_length_le [OF pre] by simp
  then have fs: "fs = ds @ r" "p + length b = length (stream_bytes c ds) + q"
    using split_stream_append [OF sp] by auto
  obtain st1 where st1: "read_loop c calls b st = Inr st1" "consumes st ds r st1" "at_stream c st1 r q"
    using read_piece [OF Cons.prems(1-5) _ pre sp] Cons.prems(7) [of 0] by auto
  have "concat bs = drop (length b) (concat (b # bs))" by simp
  also have "\<dots> = drop (p + length b) (stream_bytes c fs)"
    unfolding Cons.prems(6) by (simp add: add.commute)
  also have "\<dots> = drop q (stream_bytes c r)"
    unfolding fs(2) by (simp add: fs(1) stream_bytes_def)
  finally have rest: "concat bs = drop q (stream_bytes c r)" .
  have "clean_cut c r (q + length (concat (take i bs)))" if "i < length bs" for i
    using Cons.prems(7) [of "Suc i"] that by (simp add: clean_cut_rest [OF sp] add.assoc)
  moreover have "at_stream c (StartToRead st1) r q"
    using st1(3) by (auto simp: at_stream_def StartToRead_def do_io_def split: list.split if_splits)
  moreover have cons: "consumes st ds r (StartToRead st1)"
    using st1(2) by (simp add: consumes_def ready_read delivered_read acceptable_read)
      (simp add: StartToRead_def do_io_def)
  ultimately obtain st' where "read_pieces c calls bs (StartToRead st1) = Inr st'"
    "consumes (StartToRead st1) r [] st'" "partial_message st' = None"
    using Cons.IH [of "StartToRead st1" r q] rest Cons.prems(4) fs(1) by (auto simp: consumes_def)
  then show ?case
    using st1(1) Cons.prems(2) consumes_trans [OF cons] fs(1) by (auto simp: ReadInLoop_def)
qed

end

section \<open>Sending in order\<close>

definition writes :: "('u, 'm, 'z) channel_state_scheme \<Rightarrow> byte list list" where
  "writes st = concat (map (\<lambda>e. case e of Async_write s bs \<Rightarrow> [bs] | _ \<Rightarrow> []) (io st))"

definition frame_of :: "('u, 'm, 'z) channel_state_scheme \<Rightarrow> nat \<Rightarrow> byte list" where
  "frame_of st a = (case heap st a of
     Some d \<Rightarrow> (case rd_buffer d of Buffer bs \<Rightarrow> bs | _ \<Rightarrow> []) | None \<Rightarrow> [])"

text \<open>An object that holds a frame, has not been handed to the kernel and can be deleted safely.\<close>

definition sendable :: "('u, 'm, 'z) channel_state_scheme \<Rightarrow> nat \<Rightarrow> bool" where
  "sendable st a \<longleftrightarrow> frame_of st a \<noteq> [] \<and> (\<forall>d. heap st a = Some d \<longrightarrow> \<not> IsPending d \<and> deletable d)"

text \<open>The virtual method may delete the object it is given and touches nothing else.\<close>

locale recycler =
  fixes recycle :: "nat \<Rightarrow> ('u, 'm, 'z) channel_state_scheme \<Rightarrow> ('u, 'm, 'z) channel_state_scheme result"
  assumes recycles: "heap st a = Some d \<Longrightarrow> deletable d \<Longrightarrow>
    \<exists>h. recycle a st = Inr (st\<lparr>heap := h\<rparr>) \<and> (\<forall>b. b \<noteq> a \<longrightarrow> h b = heap st b)"

interpretation base: recycler base_RecycleRPCData
  by unfold_locales (auto simp: base_RecycleRPCData_def intro!: exI [of _ "heap _"])

interpretation server: recycler server_RecycleRPCData
  by unfold_locales (auto simp: server_RecycleRPCData_def delete_data_ok)

text \<open>
  The sending side between two moments of the loop: messages are submitted, the write in
  flight completes, or something else happens that leaves the queue, its objects and the
  writes alone. The relation counts the submitted frames and the completed writes.
\<close>

inductive sending ::
  "('u, 'm) rpc_codec \<Rightarrow> ('u, 'm, 'z) channel_state_scheme channel_calls \<Rightarrow>
     ('u, 'm, 'z) channel_state_scheme \<Rightarrow> byte list list \<Rightarrow> nat \<Rightarrow> bool"
  for c calls where
  start: "pending st = [] \<Longrightarrow> writes st = [] \<Longrightarrow> sending c calls st [] 0"
| submit: "sending c calls st subs n \<Longrightarrow> sendable st a \<Longrightarrow> a \<notin> set (pending st) \<Longrightarrow>
    SendInLoop c a st = Inr st' \<Longrightarrow> sending c calls st' (subs @ [frame_of st a]) n"
| written: "sending c calls st subs n \<Longrightarrow> n < length (writes st) \<Longrightarrow>
    Written c calls False (length (writes st ! n)) st = Inr st' \<Longrightarrow> sending c calls st' subs (Suc n)"
| elsewhere: "sending c calls st subs n \<Longrightarrow> pending st' = pending st \<Longrightarrow> writes st' = writes st \<Longrightarrow>
    (\<And>a. a \<in> set (pending st) \<Longrightarrow> heap st' a = heap st a) \<Longrightarrow> sending c calls st' subs n"

inductive_cases sending_cases: "sending c calls st subs n"

text \<open>The queue as the sender sees it: only its head is in the hands of the kernel.\<close>

definition queue_ok :: "('u, 'm, 'z) channel_state_scheme \<Rightarrow> bool" where
  "queue_ok st \<longleftrightarrow> distinct (pending st) \<and> (\<forall>a \<in> set (pending st). frame_of st a \<noteq> [])
     \<and> (case pending st of [] \<Rightarrow> True
        | a # rest \<Rightarrow> (\<forall>d. heap st a = Some d \<longrightarrow> IsPending d \<and> deletable d) \<and> (\<forall>b \<in> set rest. sendable st b))"

definition queue_sends :: "('u, 'm, 'z) channel_state_scheme \<Rightarrow> byte list list \<Rightarrow> nat \<Rightarrow> bool" where
  "queue_sends st subs n \<longleftrightarrow> n \<le> length subs \<and> map (frame_of st) (pending st) = drop n subs
     \<and> writes st = take (if pending st = [] then n else Suc n) subs"

lemma writes_do_io [simp]:
  "writes (do_io (Async_write s bs) st) = writes st @ [bs]" "writes (store a d st) = writes st"
  "writes (st\<lparr>pending := as\<rparr>) = writes st" "writes (st\<lparr>heap := h\<rparr>) = writes st"
  by (simp_all add: writes_def do_io_def store_def)

lemma channel_update_simps [simp]:
  "pending (do_io e st) = pending st" "pending (store a d st) = pending st"
  "heap (do_io e st) = heap st" "heap (store a d st) = (heap st)(a \<mapsto> d)"
  by (simp_all add: do_io_def store_def)

lemma frame_of_cong: "heap st' a = heap st a \<Longrightarrow> frame_of st' a = frame_of st a"
  by (simp add: frame_of_def)

lemma sendable_cong: "heap st' a = heap st a \<Longrightarrow> sendable st' a = sendable st a"
  by (simp add: sendable_def frame_of_def)

text \<open>Handing the head of the queue to the kernel.\<close>

lemma WriteInLoop_head:
  assumes "pending st = a # rest" "sendable st a"
  obtains d where "heap st a = Some d" "rd_buffer d = Buffer (frame_of st a)"
    "WriteInLoop c st = Inr (do_io (Async_write (socket st) (frame_of st a)) (store a (d\<lparr>rd_is_pending := True\<rparr>) st))"
proof -
  obtain d bs where d: "heap st a = Some d" "rd_buffer d = Buffer bs" "bs \<noteq> []" "\<not> IsPending d"
    using assms(2) by (auto simp: sendable_def frame_of_def split: option.splits out_buffer.splits)
  then have "frame_of st a = bs" by (simp add: frame_of_def)
  with d assms(1) show thesis
    by (intro that [of d]) (simp_all add: WriteInLoop_def load_def GetBuffer_def Let_def buffer_size_def)
qed

lemma SendInLoop_result:
  assumes "queue_ok st" "sendable st a" "a \<notin> set (pending st)"
  shows "\<exists>h i. SendInLoop c a st = Inr (st\<lparr>heap := h, io := i, pending := pending st @ [a]\<rparr>)
    \<and> queue_ok (st\<lparr>heap := h, io := i, pending := pending st @ [a]\<rparr>)
    \<and> writes (st\<lparr>heap := h, io := i, pending := pending st @ [a]\<rparr>)
        = writes st @ (if pending st = [] then [frame_of st a] else [])
    \<and> frame_of (st\<lparr>heap := h, io := i, pending := pending st @ [a]\<rparr>) = frame_of st
    \<and> (\<forall>b. b \<noteq> a \<longrightarrow> h b = heap st b)
    \<and> (\<forall>d. heap st a = Some d \<longrightarrow> (\<exists>p. h a = Some (d\<lparr>rd_is_pending := p\<rparr>)))"
proof (cases "pending st")
  case Nil
  let ?st = "st\<lparr>pending := [a]\<rparr>"
  have "sendable ?st a" "frame_of ?st a = frame_of st a"
    using assms(2) sendable_cong [of ?st a st] frame_of_cong [of ?st a st] by simp_all
  then obtain d where d: "heap st a = Some d" "rd_buffer d = Buffer (frame_of st a)"
    "WriteInLoop c ?st = Inr (do_io (Async_write (socket st) (frame_of st a)) (store a (d\<lparr>rd_is_pending := True\<rparr>) ?st))"
    using WriteInLoop_head [of ?st a "[]" c] by auto
  then show ?thesis
    using assms Nil
    by (intro exI [of _ "(heap st)(a \<mapsto> d\<lparr>rd_is_pending := True\<rparr>)"]
        exI [of _ "io st @ [Async_write (socket st) (frame_of st a)]"])
      (auto simp: SendInLoop_def queue_ok_def frame_of_def IsPending_def sendable_def store_def do_io_def writes_def)
next
  case (Cons b rest)
  then obtain d where "heap st b = Some d" "IsPending d"
    using assms(1) by (auto simp: queue_ok_def frame_of_def split: option.splits)
  then have "SendInLoop c a st = Inr (st\<lparr>pending := pending st @ [a]\<rparr>)"
    using Cons by (simp add: SendInLoop_def WriteInLoop_def load_def)
  moreover have "queue_ok (st\<lparr>pending := pending st @ [a]\<rparr>)"
    using assms Cons by (auto simp: queue_ok_def frame_of_def sendable_def)
  moreover have "\<exists>p. d' = d'\<lparr>rd_is_pending := p\<rparr>" for d' :: "('a, 'b) RPCData"
    by (rule exI [of _ "rd_is_pending d'"]) simp
  ultimately show ?thesis using Cons
    by (intro exI [of _ "heap st"] exI [of _ "io st"]) (auto simp: frame_of_def writes_def)
qed

lemma SendInLoop_ok:
  assumes "queue_ok st" "queue_sends st subs n" "sendable st a" "a \<notin> set (pending st)"
  shows "\<exists>st'. SendInLoop c a st = Inr st' \<and> queue_ok st' \<and> queue_sends st' (subs @ [frame_of st a]) n"
proof -
  obtain st' where st': "SendInLoop c a st = Inr st'" "queue_ok st'" "pending st' = pending st @ [a]"
    "writes st' = writes st @ (if pending st = [] then [frame_of st a] else [])" "frame_of st' = frame_of st"
    using SendInLoop_result [OF assms(1,3,4), of c] by force
  have "pending st = [] \<longleftrightarrow> length subs \<le> n"
    using assms(2) by (metis drop_eq_Nil map_is_Nil_conv queue_sends_def)
  then show ?thesis using st' assms(2) by (auto simp: queue_sends_def)
qed

lemma Written_ok:
  assumes "recycler (RecycleRPCData calls)" "queue_ok st" "queue_sends st subs n" "n < length (writes st)"
  shows "\<exists>st'. Written c calls False (length (writes st ! n)) st = Inr st' \<and> queue_ok st'
    \<and> queue_sends st' subs (Suc n)"
proof -
  obtain a rest where pend: "pending st = a # rest"
    using assms(3,4) by (cases "pending st") (auto simp: queue_sends_def)
  then have n: "n < length subs" "drop n subs = frame_of st a # map (frame_of st) rest"
    using assms(3) by (auto simp: queue_sends_def dest: arg_cong [of _ _ length])
  have w: "writes st ! n = frame_of st a" using assms(3,4) n pend
    by (auto simp: queue_sends_def nth_via_drop)
  obtain d bs where d: "heap st a = Some d" "rd_buffer d = Buffer bs" "bs \<noteq> []" "IsPending d" "deletable d" "frame_of st a = bs"
    using assms(2) pend by (auto simp: queue_ok_def frame_of_def split: option.splits out_buffer.splits)
  let ?st = "(store a (d\<lparr>rd_is_pending := True\<rparr>) st)\<lparr>pending := rest\<rparr>"
  obtain h where h: "RecycleRPCData calls a ?st = Inr (?st\<lparr>heap := h\<rparr>)" "\<forall>b. b \<noteq> a \<longrightarrow> h b = heap st b"
    using recycler.recycles [OF assms(1), of ?st a "d\<lparr>rd_is_pending := True\<rparr>"] d(5) by auto
  let ?st1 = "?st\<lparr>heap := h\<rparr>"
  have step: "Written c calls False (length (writes st ! n)) st = WriteInLoop c ?st1"
    using d pend h(1) by (simp add: Written_def load_def GetBuffer_def Let_def w buffer_size_def)
  have same: "heap ?st1 b = heap st b" if "b \<in> set rest" for b
    using that assms(2) pend h(2) by (auto simp: queue_ok_def)
  have sends: "map (frame_of ?st1) rest = drop (Suc n) subs"
  proof -
    have "map (frame_of ?st1) rest = map (frame_of st) rest"
      by (rule map_cong [OF refl]) (rule frame_of_cong [OF same])
    also have "\<dots> = tl (drop n subs)" using n(2) by simp
    finally show ?thesis by (simp only: drop_Suc tl_drop)
  qed
  have wr: "writes st = take (Suc n) subs" using assms(3) pend by (simp add: queue_sends_def)
  show ?thesis
  proof (cases rest)
    case Nil
    then show ?thesis using step sends n wr by (auto simp: WriteInLoop_def queue_ok_def queue_sends_def)
  next
    case (Cons b bs')
    then have "sendable ?st1 b" using assms(2) pend same sendable_cong [of ?st1 b st]
      by (auto simp: queue_ok_def)
    then obtain e where e: "heap ?st1 b = Some e" "rd_buffer e = Buffer (frame_of ?st1 b)"
      "WriteInLoop c ?st1 = Inr (do_io (Async_write (socket ?st1) (frame_of ?st1 b))
         (store b (e\<lparr>rd_is_pending := True\<rparr>) ?st1))" (is "_ = Inr ?st2")
      using WriteInLoop_head [of ?st1 b bs' c] Cons by auto
    have frames: "frame_of ?st2 = frame_of ?st1"
      using e(1,2) by (auto simp: frame_of_def)
    have "deletable e" using \<open>sendable ?st1 b\<close> e(1) by (simp add: sendable_def)
    then have "queue_ok ?st2"
      using assms(2) pend same Cons frames
      by (auto simp: queue_ok_def sendable_def frame_of_def IsPending_def)
    moreover have ds: "drop (Suc n) subs = frame_of ?st1 b # map (frame_of ?st1) bs'"
      using sends Cons by simp
    have "frame_of ?st1 b = subs ! Suc n" "Suc n < length subs"
      using nth_via_drop [OF ds] arg_cong [OF ds, of length] by simp_all
    then have "queue_sends ?st2 subs (Suc n)"
      using sends n wr Cons frames by (auto simp: queue_sends_def take_Suc_conv_app_nth)
    ultimately show ?thesis using step e(3) by auto
  qed
qed

lemma queue_ok_cong:
  assumes "pending st' = pending st" "\<And>a. a \<in> set (pending st) \<Longrightarrow> heap st' a = heap st a"
  shows "queue_ok st' = queue_ok st"
proof -
  have "frame_of st' a = frame_of st a" "sendable st' a = sendable st a" if "a \<in> set (pending st)" for a
    by (rule frame_of_cong [OF assms(2) [OF that]], rule sendable_cong [OF assms(2) [OF that]])
  then show ?thesis using assms by (cases "pending st") (auto simp: queue_ok_def)
qed

lemma queue_sends_cong:
  assumes "pending st' = pending st" "writes st' = writes st" "\<And>a. a \<in> set (pending st) \<Longrightarrow> heap st' a = heap st a"
  shows "queue_sends st' subs n = queue_sends st subs n"
proof -
  have "map (frame_of st') (pending st) = map (frame_of st) (pending st)"
    using assms(3) by (intro map_cong [OF refl] frame_of_cong) simp
  then show ?thesis unfolding queue_sends_def assms(1,2) by (simp only:)
qed

lemma queue_sends_last:
  assumes "queue_sends st subs n" "pending st \<noteq> []"
  shows "n < length subs" "last (writes st) = subs ! n" "frame_of st (hd (pending st)) = subs ! n"
proof -
  obtain a rest where p: "pending st = a # rest" using assms(2) by (cases "pending st") auto
  then have d: "drop n subs = frame_of st a # map (frame_of st) rest" using assms(1) by (auto simp: queue_sends_def)
  then show "n < length subs" by (metis drop_eq_Nil list.distinct(1) not_le)
  then show "last (writes st) = subs ! n" using assms by (simp add: queue_sends_def take_Suc_conv_app_nth)
  show "frame_of st (hd (pending st)) = subs ! n" using nth_via_drop [OF d] p by simp
qed

text \<open>
  Handling the completion of a write removes the head of the queue, gives it to
  \<^verbatim>\<open>RecycleRPCData\<close> and marks the next message, and changes no object outside the queue.
\<close>

lemma Written_shape:
  assumes "recycler (RecycleRPCData calls)" "queue_ok st" "pending st = a # rest"
  shows "\<exists>h i. Written c calls False (length (frame_of st a)) st = Inr (st\<lparr>heap := h, io := i, pending := rest\<rparr>)
    \<and> (\<forall>b. b \<notin> set (pending st) \<longrightarrow> h b = heap st b)
    \<and> (\<forall>b \<in> set rest. \<exists>d p. heap st b = Some d \<and> h b = Some (d\<lparr>rd_is_pending := p\<rparr>))
    \<and> (RecycleRPCData calls = base_RecycleRPCData \<longrightarrow> h a = heap st a)"
proof -
  obtain d bs where d: "heap st a = Some d" "rd_buffer d = Buffer bs" "bs \<noteq> []" "IsPending d" "deletable d" "frame_of st a = bs"
    using assms(2,3) by (auto simp: queue_ok_def frame_of_def split: option.splits out_buffer.splits)
  then have same: "d\<lparr>rd_is_pending := True\<rparr> = d" by (simp add: IsPending_def)
  let ?st = "st\<lparr>pending := rest\<rparr>"
  have st: "(store a d st)\<lparr>pending := rest\<rparr> = ?st" using d(1) by (simp add: store_def fun_upd_idem)
  obtain h where h: "RecycleRPCData calls a ?st = Inr (?st\<lparr>heap := h\<rparr>)" "\<forall>b. b \<noteq> a \<longrightarrow> h b = heap st b"
    using recycler.recycles [OF assms(1), of ?st a d] d by auto
  have step: "Written c calls False (length (frame_of st a)) st = WriteInLoop c (?st\<lparr>heap := h\<rparr>)"
    using d assms(3) h(1) by (simp add: Written_def load_def GetBuffer_def Let_def buffer_size_def same st)
  have base: "h a = heap st a" if "RecycleRPCData calls = base_RecycleRPCData"
    using h(1) that by (auto simp: base_RecycleRPCData_def dest: arg_cong [of _ _ heap])
  have rest: "\<exists>e p. heap st b = Some e \<and> h b = Some (e\<lparr>rd_is_pending := p\<rparr>)" if b: "b \<in> set rest" for b
  proof -
    have "b \<noteq> a" "frame_of st b \<noteq> []" using b assms(2,3) by (auto simp: queue_ok_def)
    then obtain e where "heap st b = Some e" "h b = Some e"
      using h(2) by (auto simp: frame_of_def split: option.splits)
    then show ?thesis by (intro exI [of _ e] exI [of _ "rd_is_pending e"]) simp
  qed
  show ?thesis
  proof (cases rest)
    case Nil
    then show ?thesis using step h(2) base assms(3)
      by (intro exI [of _ h] exI [of _ "io st"]) (simp add: WriteInLoop_def)
  next
    case (Cons b bs')
    then have "sendable (?st\<lparr>heap := h\<rparr>) b"
      using assms(2,3) h(2) by (auto simp: queue_ok_def sendable_def frame_of_def)
    then obtain e where e: "h b = Some e" "WriteInLoop c (?st\<lparr>heap := h\<rparr>) =
        Inr (do_io (Async_write (socket st) (frame_of (?st\<lparr>heap := h\<rparr>) b)) (store b (e\<lparr>rd_is_pending := True\<rparr>) (?st\<lparr>heap := h\<rparr>)))"
      using WriteInLoop_head [of "?st\<lparr>heap := h\<rparr>" b bs' c] Cons by auto
    have "b \<noteq> a" using assms(2,3) Cons by (auto simp: queue_ok_def)
    then show ?thesis
      using step e h(2) base assms(3) Cons rest
      by (intro exI [of _ "h(b \<mapsto> e\<lparr>rd_is_pending := True\<rparr>)"] exI [of _ "io st @ [Async_write (socket st) (frame_of (?st\<lparr>heap := h\<rparr>) b)]"])
        (auto simp: do_io_def store_def)
  qed
qed

lemma sending_invariant:
  assumes "recycler (RecycleRPCData calls)" "sending c calls st subs n"
  shows "queue_ok st \<and> queue_sends st subs n"
  using assms(2)
proof induction
  case (start st)
  then show ?case by (simp add: queue_ok_def queue_sends_def)
next
  case (submit st subs n a st')
  then show ?case using SendInLoop_ok [of st subs n a c] by auto
next
  case (written st subs n st')
  then show ?case using Written_ok [OF assms(1), of st subs n c] by auto
next
  case (elsewhere st subs n st')
  have "map (frame_of st') (pending st) = map (frame_of st) (pending st)"
    by (rule map_cong [OF refl]) (rule frame_of_cong [OF elsewhere(4)])
  then have "queue_sends st' subs n" using elsewhere by (simp add: queue_sends_def del: map_eq_conv)
  moreover have "queue_ok st'" using elsewhere
    by (auto simp: queue_ok_def sendable_def frame_of_def split: list.splits)
  ultimately show ?case by blast
qed

section \<open>Properties of a channel\<close>

text \<open>
  C12: Messages reach the kernel in the order in which they were submitted, each exactly once
  and never two at a time: at every moment the writes issued are an initial part of the
  submitted frames, at most one of them is not completed, and once none is outstanding
  everything submitted has been written.
\<close>

theorem send_order:
  assumes "RecycleRPCData calls = base_RecycleRPCData \<or> RecycleRPCData calls = server_RecycleRPCData"
    and "sending c calls st subs n"
  shows "writes st = take (length (writes st)) subs \<and> n \<le> length (writes st) \<and> length (writes st) \<le> Suc n
    \<and> (n = length (writes st) \<longrightarrow> writes st = subs \<and> pending st = [])"
proof -
  have inv: "queue_ok st \<and> queue_sends st subs n"
    using sending_invariant [OF _ assms(2)] assms(1) base.recycler_axioms server.recycler_axioms by fastforce
  then have drop: "map (frame_of st) (pending st) = drop n subs" by (simp add: queue_sends_def)
  then have "pending st = [] \<longleftrightarrow> length subs \<le> n" by (metis drop_eq_Nil map_is_Nil_conv)
  then show ?thesis using inv by (auto simp: queue_sends_def min_def)
qed


text \<open>
  A failed write stalls the channel: the handler leaves the message at the head of the
  queue marked as pending, and from then on nothing that is submitted is written.
\<close>

theorem failed_write_stalls:
  assumes "queue_ok st" "pending st \<noteq> []"
  shows "Written c calls True n st = Inr st
    \<and> SendInLoop c a st = Inr (st\<lparr>pending := pending st @ [a]\<rparr>)
    \<and> writes (st\<lparr>pending := pending st @ [a]\<rparr>) = writes st"
proof -
  obtain b rest d where "pending st = b # rest" "heap st b = Some d" "IsPending d"
    using assms by (auto simp: queue_ok_def frame_of_def neq_Nil_conv split: option.splits)
  then show ?thesis by (simp add: Written_def SendInLoop_def WriteInLoop_def load_def)
qed

text \<open>
  Data that is not a message: when the bytes give up a header that does not parse, the
  channel drops the message it collected and the rest of the piece, and keeps reading; it is
  neither closed nor reported as cancelled.
\<close>

theorem unformatted_data_discarded:
  assumes "\<not> terminated st" "bytes \<noteq> []" "current_message c st = (a, st1)"
    and "heap st1 a = Some d" "deletable d" "AppendBinaries c bytes d = Inr (- 1, d')"
  shows "ReadInLoop c calls False bytes st
    = Inr (StartToRead (st1\<lparr>heap := (heap st1)(a := None), partial_message := None\<rparr>))"
  using assms AppendBinaries_deletable [OF assms(6)]
  by (simp add: ReadInLoop_def read_loop.simps [of c calls bytes] load_def delete_data_ok)
    (simp add: store_def)

text \<open>
  An error on the connection is reported once: the first failed read calls the
  cancellation, any later one does nothing; a terminated channel ignores every completion.
\<close>

theorem read_error_cancels_once:
  assumes "\<not> closed_by_peer st" "\<not> terminated st"
    and "cancellation calls (st\<lparr>closed_by_peer := True\<rparr>) = Inr st'" "closed_by_peer st'"
  shows "ReadInLoop c calls True bytes st = Inr st' \<and> ReadInLoop c calls True bytes' st' = Inr st'
    \<and> ReadInLoop c calls error bytes (TerminateInLoop st) = Inr (TerminateInLoop st)"
  using assms by (simp add: ReadInLoop_def TerminateInLoop_def ShutdownInLoop_def do_io_def)

text \<open>
  Destroying a channel drops its queue without recycling it: the objects of the server
  that were still queued stay on the heap, because the base class destructor no longer
  reaches the derived class.
\<close>

theorem deleted_channel_leaks:
  assumes "RPCChannel_delete calls st = Inr st'"
  shows "pending st' = [] \<and> heap st' = heap st"
  using assms by (auto simp: RPCChannel_delete_def CloseSocket_def ClearPendingPackages_def do_io_def)

subsection \<open>Witnesses\<close>

definition idle_channel :: "(byte list, byte list) channel_state" where
  "idle_channel = \<lparr>heap = (\<lambda>_. None), next_addr = 0, io = [], partial_message = None, pending = [],
     closed_by_peer = False, terminated = False, socket = 7\<rparr>"

definition framed :: "byte list \<Rightarrow> (byte list, byte list) RPCData" where
  "framed bs = (RPCData_new guide_codec)\<lparr>rd_buffer := Buffer bs\<rparr>"

lemma deletable_framed [simp]: "deletable (framed bs)"
  by (simp add: framed_def deletable_def RPCData_new_def buffer_freed_def)

definition plain_calls :: "(byte list, byte list) channel_state channel_calls" where
  "plain_calls = \<lparr>receiver = (\<lambda>a. Inr), cancellation = Inr, RecycleRPCData = server_RecycleRPCData\<rparr>"

lemmas channel_eval = deletable_def buffer_freed_def idle_channel_def framed_def SendInLoop_def WriteInLoop_def load_def store_def
  do_io_def GetBuffer_def IsPending_def RPCData_new_def buffer_size_def writes_def frame_of_def
  sendable_def plain_calls_def

definition two_queued :: "(byte list, byte list) channel_state" where
  "two_queued = idle_channel\<lparr>heap := [0 \<mapsto> (framed [1])\<lparr>rd_is_pending := True\<rparr>, 1 \<mapsto> framed [2, 3]],
     next_addr := 2, io := [Async_write 7 [1]], pending := [0, 1]\<rparr>"

lemma two_queued_sending: "sending guide_codec plain_calls two_queued [[1], [2, 3]] 0"
proof -
  let ?s0 = "idle_channel\<lparr>heap := [0 \<mapsto> framed [1], 1 \<mapsto> framed [2, 3]], next_addr := 2\<rparr>"
  let ?s1 = "?s0\<lparr>heap := [0 \<mapsto> (framed [1])\<lparr>rd_is_pending := True\<rparr>, 1 \<mapsto> framed [2, 3]],
    io := [Async_write 7 [1]], pending := [0]\<rparr>"
  have "sending guide_codec plain_calls ?s0 [] 0" by (rule sending.start) (simp_all add: channel_eval)
  then have "sending guide_codec plain_calls ?s1 ([] @ [frame_of ?s0 0]) 0"
    by (rule sending.submit) (simp_all add: channel_eval fun_upd_twist)
  then have "sending guide_codec plain_calls two_queued ([[1]] @ [frame_of ?s1 1]) 0"
    by (intro sending.submit [of _ _ ?s1]) (simp_all add: channel_eval two_queued_def)
  then show ?thesis by (simp add: channel_eval)
qed

theorem send_order_witness:
  "writes two_queued = take 1 [[1], [2, 3]] \<and> 0 \<le> length (writes two_queued) \<and> length (writes two_queued) \<le> 1"
  using send_order [OF _ two_queued_sending] by (simp add: plain_calls_def) (simp add: two_queued_def channel_eval)


theorem failed_write_stalls_witness:
  "Written guide_codec plain_calls True 0 two_queued = Inr two_queued
    \<and> SendInLoop guide_codec 5 two_queued = Inr (two_queued\<lparr>pending := [0, 1, 5]\<rparr>)"
proof -
  have "queue_ok two_queued" "pending two_queued = [0, 1]"
    by (simp_all add: queue_ok_def two_queued_def channel_eval)
  then show ?thesis using failed_write_stalls [of two_queued guide_codec plain_calls 0 5] by simp
qed

theorem read_error_cancels_once_witness:
  "ReadInLoop guide_codec plain_calls True [] idle_channel = Inr (idle_channel\<lparr>closed_by_peer := True\<rparr>)"
  using read_error_cancels_once [of idle_channel plain_calls "idle_channel\<lparr>closed_by_peer := True\<rparr>"]
  by (simp add: idle_channel_def plain_calls_def)

theorem deleted_channel_leaks_witness:
  "heap (two_queued\<lparr>pending := [], io := [Async_write 7 [1], Close_socket 7]\<rparr>) = heap two_queued"
  using deleted_channel_leaks [of plain_calls two_queued
      "two_queued\<lparr>pending := [], io := [Async_write 7 [1], Close_socket 7]\<rparr>"]
  by (simp add: RPCChannel_delete_def CloseSocket_def ClearPendingPackages_def do_io_def two_queued_def idle_channel_def
      base_RecycleRPCData_def plain_calls_def)

text \<open>The shortest stream with a header that does not parse: a length of one, and a bad byte.\<close>

lemma bad_header: "AppendBinaries guide_codec [0, 0, 0, 1, 0xff] (RPCData_new guide_codec)
    = Inr (- 1, (RPCData_new guide_codec)\<lparr>rd_meta_size := 1\<rparr>)"
proof -
  have "varint_decode (Suc (Suc k)) [0xff] = None" for k by simp
  from this [of 8] have "ReadVarint [0xff] = None" by (simp add: ReadVarint_def)
  then have "parse_iteration guide_runtime m [0xff] = Parse_success m []" for m
    by (simp add: parse_iteration_def guide_runtime_def guide_tag_def handle_unusual_def)
  then have "ParseFromArray guide_codec (RPCMetaData_new guide_runtime) [0xff] = (RPCMetaData_new guide_runtime, False)"
    by (simp add: guide_codec_def MergePartialFromCodedStream.simps parsed_message_def Meta_Clear_def
        RPCMetaData_new_def SharedCtor_def Meta_IsInitialized_def)
  moreover have "ntohl (le_word [0, 0, 0, 1]) = 1"
    by code_simp
  ultimately show ?thesis
    using guide_messages.new_meta_size
    by (simp add: AppendBinaries_def append_meta_size_def append_meta_def NumMetaSizeBytes_def Let_def)
qed

theorem unformatted_data_discarded_witness:
  "ReadInLoop guide_codec plain_calls False [0, 0, 0, 1, 0xff] idle_channel
    = Inr (idle_channel\<lparr>heap := (heap idle_channel)(0 := None), next_addr := 1, io := [Async_read_some 7]\<rparr>)"
  using unformatted_data_discarded [of idle_channel "[0, 0, 0, 1, 0xff]" guide_codec 0
      "idle_channel\<lparr>heap := (heap idle_channel)(0 \<mapsto> RPCData_new guide_codec), next_addr := 1, partial_message := Some 0\<rparr>"
      "RPCData_new guide_codec" _ plain_calls, OF _ _ _ _ _ bad_header]
  by (simp add: idle_channel_def current_message_def allocate_def StartToRead_def do_io_def)

end
