(* ===== verification/Std_Map.thy ===== *)
theory Std_Map
  imports Rpc_Prelude
begin

text \<open>
  \<^verbatim>\<open>std::map\<close> as the session pool, the channel pool and the service pool use it: a container
  ordered by its keys, kept as the list of entries that an iteration visits. \<^verbatim>\<open>insert\<close> does
  not replace an entry and says whether it inserted.
\<close>

type_synonym ('k, 'v) std_map = "('k \<times> 'v) list"

fun map_insert :: "'k::linorder \<Rightarrow> 'v \<Rightarrow> ('k, 'v) std_map \<Rightarrow> ('k, 'v) std_map \<times> bool" where
  "map_insert k v [] = ([(k, v)], True)"
| "map_insert k v ((k', v') # m) =
     (if k < k' then ((k, v) # (k', v') # m, True)
      else if k = k' then ((k', v') # m, False)
      else case map_insert k v m of (m', ok) \<Rightarrow> ((k', v') # m', ok))"

definition map_find :: "'k \<Rightarrow> ('k, 'v) std_map \<Rightarrow> 'v option" where
  "map_find k m = map_of m k"

definition map_erase :: "'k \<Rightarrow> ('k, 'v) std_map \<Rightarrow> ('k, 'v) std_map" where
  "map_erase k m = filter (\<lambda>e. fst e \<noteq> k) m"

definition map_ok :: "('k::linorder, 'v) std_map \<Rightarrow> bool" where
  "map_ok m \<longleftrightarrow> sorted_wrt (<) (map fst m)"

text \<open>
  What the pools rely on: what is found after each operation, that the order is kept, and
  that an insertion at a fresh key succeeds.
\<close>

locale pool =
  fixes ok :: "'p \<Rightarrow> bool"
    and entries :: "'p \<Rightarrow> ('k \<times> 'v) list"
    and find :: "'k \<Rightarrow> 'p \<Rightarrow> 'v option"
    and insert :: "'k \<Rightarrow> 'v \<Rightarrow> 'p \<Rightarrow> 'p \<times> bool"
    and erase :: "'k \<Rightarrow> 'p \<Rightarrow> 'p"
  assumes ok_insert: "ok m \<Longrightarrow> ok (fst (insert k v m))"
    and ok_erase: "ok m \<Longrightarrow> ok (erase k m)"
    and inserted: "ok m \<Longrightarrow> snd (insert k v m) \<longleftrightarrow> find k m = None"
    and find_insert: "ok m \<Longrightarrow>
      find k' (fst (insert k v m)) = (if k' = k \<and> find k m = None then Some v else find k' m)"
    and find_erase: "ok m \<Longrightarrow> find k' (erase k m) = (if k' = k then None else find k' m)"
    and find_entries: "ok m \<Longrightarrow> find k m = Some v \<longleftrightarrow> (k, v) \<in> set (entries m)"
    and distinct_keys: "ok m \<Longrightarrow> distinct (map fst (entries m))"
begin

lemma insert_then_find: "ok m \<Longrightarrow> snd (insert k v m) \<Longrightarrow> find k (fst (insert k v m)) = Some v"
  by (simp add: inserted find_insert)

lemma failed_insert_keeps: "ok m \<Longrightarrow> \<not> snd (insert k v m) \<Longrightarrow> find k' (fst (insert k v m)) = find k' m"
  by (auto simp: inserted find_insert)

lemma insert_erase_find: "ok m \<Longrightarrow> find k m = None \<Longrightarrow> find k' (erase k (fst (insert k v m))) = find k' m"
  by (simp add: ok_insert find_erase find_insert)

lemma entries_erase: "ok m \<Longrightarrow> set (entries (erase k m)) = {e \<in> set (entries m). fst e \<noteq> k}"
  by (auto simp: find_entries [OF ok_erase, symmetric] find_erase find_entries)
    (metis find_entries find_erase ok_erase option.distinct(1) prod.collapse)+

lemma entries_insert:
  "ok m \<Longrightarrow> find k m = None \<Longrightarrow> set (entries (fst (insert k v m))) = Set.insert (k, v) (set (entries m))"
  by (rule set_eqI) (auto simp: find_entries [OF ok_insert, symmetric] find_insert find_entries [symmetric]
      split: if_splits)

end

lemma map_insert_keys: "set (map fst (fst (map_insert k v m))) = Set.insert k (set (map fst m))"
  by (induction k v m rule: map_insert.induct) (simp_all add: case_prod_beta insert_commute)

lemma map_ok_Cons [simp]: "map_ok (e # m) \<longleftrightarrow> (\<forall>k \<in> set (map fst m). fst e < k) \<and> map_ok m"
  by (auto simp: map_ok_def)

lemma map_ok_Nil [simp]: "map_ok []"
  by (simp add: map_ok_def)

lemma map_ok_insert: "map_ok m \<Longrightarrow> map_ok (fst (map_insert k v m))"
proof (induction k v m rule: map_insert.induct)
  case (2 k v k' v' m)
  then show ?case using map_insert_keys [of k v m]
    by (cases k k' rule: linorder_cases) (auto simp: case_prod_beta simp del: set_map)
qed simp

lemma map_insert_find:
  "map_ok m \<Longrightarrow> snd (map_insert k v m) = (map_find k m = None)
     \<and> map_find k' (fst (map_insert k v m)) = (if k' = k \<and> map_find k m = None then Some v else map_find k' m)"
proof (induction k v m rule: map_insert.induct)
  case (2 k v k1 v1 m)
  have "k < k1 \<Longrightarrow> map_of m k = None" using "2.prems" by (fastforce simp: map_of_eq_None_iff)
  then show ?case using 2 by (auto simp: map_find_def split: prod.splits)
qed (simp add: map_find_def)

lemma map_ok_distinct: "map_ok m \<Longrightarrow> distinct (map fst m)"
  by (induction m) auto

interpretation std: pool map_ok "\<lambda>m. m" map_find map_insert map_erase
proof
  show "map_ok m \<Longrightarrow> map_ok (map_erase k m)" for m :: "('a, 'b) std_map" and k
    by (auto simp: map_ok_def map_erase_def sorted_wrt_map intro: sorted_wrt_filter)
  show "map_find k' (map_erase k m) = (if k' = k then None else map_find k' m)" for m :: "('a, 'b) std_map" and k k'
    by (induction m) (auto simp: map_find_def map_erase_def)
qed (auto simp: map_ok_insert map_insert_find map_ok_distinct, simp_all add: map_find_def map_ok_distinct)

lemma map_erase_notin [simp]: "k \<notin> fst ` set m \<Longrightarrow> map_erase k m = m"
  by (auto simp: map_erase_def intro!: filter_True)

lemma map_insert_last:
  "(\<And>k'. k' \<in> set (map fst m) \<Longrightarrow> k' < k) \<Longrightarrow> map_insert k v m = (m @ [(k, v)], True)"
proof (induction k v m rule: map_insert.induct)
  case (2 k v k' v' m)
  have "k' < k" by (rule "2.prems") simp
  then have "map_insert k v m = (m @ [(k, v)], True)" using 2 by fastforce
  then show ?case using \<open>k' < k\<close> by auto
qed simp

lemma map_find_last:
  assumes "map_ok (m @ [(k, v)])"
  shows "map_find k' (m @ [(k, v)]) = (if k' = k then Some v else map_find k' m)"
proof -
  have "map_of m k = None" using std.distinct_keys [OF assms] by (simp add: map_of_eq_None_iff)
  then show ?thesis by (simp add: map_find_def map_add_def split: option.split)
qed

end
