(* ===== verification/Client_Session.thy ===== *)
theory Client_Session
  imports Rpc_Channel Std_Map City_Hash
begin

text \<open>
  The calls a client is waiting for: \<^verbatim>\<open>ClientSession\<close> and \<^verbatim>\<open>SessionManager\<close> of
  \<^verbatim>\<open>rpc/detail/client_session.h\<close> and \<^verbatim>\<open>client_session.cc\<close>, and \<^verbatim>\<open>GetServiceID\<close> of
  \<^verbatim>\<open>rpc/detail/helper.h\<close>. A response message and a \<^verbatim>\<open>Closure\<close> belong to the user: they are
  numbers, the answer of \<^verbatim>\<open>response_->ParseFromArray\<close> is a parameter, and a run of a closure is
  recorded, with the sequence number of the call and the bytes its response was parsed from.
  What a closure does when it runs is outside the model.
\<close>

section \<open>State\<close>

record client_session =
  cs_data :: "nat option"
  cs_response :: nat
  cs_done :: nat

record ('u, 'm) client_state = "('u, 'm) channel_state" +
  next_seq :: u64
  sessions :: "(u64, client_session) std_map"
  completed :: "(u64 \<times> nat \<times> byte list) list"
  server_given :: bool
  next_socket :: nat

text \<open>A method descriptor gives its index and the full name of its service.\<close>

record method_descriptor =
  method_index :: i32
  service_full_name :: "byte list"

section \<open>Operations\<close>

definition GetServiceID :: "byte list \<Rightarrow> u32 result" where
  "GetServiceID text = (case CityHash32 text 0 (length text) of None \<Rightarrow> Inl Out_of_range | Some h \<Rightarrow> Inr h)"

definition ClientSession_new :: "nat \<Rightarrow> nat \<Rightarrow> nat \<Rightarrow> client_session" where
  "ClientSession_new data response done = \<lparr>cs_data = Some data, cs_response = response, cs_done = done\<rparr>"

definition Session_Data :: "client_session \<Rightarrow> nat result" where
  "Session_Data s = (case cs_data s of None \<Rightarrow> Inl Null_pointer | Some a \<Rightarrow> Inr a)"

definition Session_IsPending :: "client_session \<Rightarrow> ('u, 'm, 'z) client_state_scheme \<Rightarrow> bool result" where
  "Session_IsPending s st =
     bind_result (Session_Data s) (\<lambda>a. bind_result (load a st) (\<lambda>d. Inr (IsPending d)))"

definition Session_ClearPendingState ::
  "client_session \<Rightarrow> ('u, 'm, 'z) client_state_scheme \<Rightarrow> ('u, 'm, 'z) client_state_scheme result" where
  "Session_ClearPendingState s st =
     bind_result (Session_Data s) (\<lambda>a.
     bind_result (load a st) (\<lambda>d. Inr (store a (Data_ClearPendingState d) st)))"

definition Session_ReleaseData ::
  "client_session \<Rightarrow> ('u, 'm, 'z) client_state_scheme \<Rightarrow> (nat \<times> client_session) result" where
  "Session_ReleaseData s st =
     bind_result (Session_IsPending s st) (\<lambda>p. CHECK p
       (bind_result (Session_Data s) (\<lambda>a. Inr (a, s\<lparr>cs_data := None\<rparr>))))"

definition Session_Done ::
  "(nat \<Rightarrow> byte list \<Rightarrow> bool) \<Rightarrow> u64 \<Rightarrow> client_session \<Rightarrow> byte list \<Rightarrow>
     ('u, 'm, 'z) client_state_scheme \<Rightarrow> ('u, 'm, 'z) client_state_scheme result" where
  "Session_Done parses seq s data st =
     CHECK (parses (cs_response s) data) (Inr (st\<lparr>completed := completed st @ [(seq, cs_done s, data)]\<rparr>))"

definition call_meta ::
  "('u, 'm) rpc_codec \<Rightarrow> u64 \<Rightarrow> method_descriptor \<Rightarrow> u32 \<Rightarrow> 'm \<Rightarrow> 'u RPCMetaData" where
  "call_meta c seq method sid request =
     set_message_length (of_nat (payload_ByteSize c request)) (set_service_id sid
       (set_method_id (method_index method) (set_seq seq (RPCMetaData_new (wire c)))))"

definition SaveSession ::
  "('u, 'm) rpc_codec \<Rightarrow> method_descriptor \<Rightarrow> 'm \<Rightarrow> nat \<Rightarrow> nat \<Rightarrow> ('u, 'm, 'z) client_state_scheme \<Rightarrow>
     (client_session \<times> ('u, 'm, 'z) client_state_scheme) result" where
  "SaveSession c method request response done st =
     bind_result (GetServiceID (service_full_name method)) (\<lambda>sid.
     bind_result (RPCData_of c (Live (call_meta c (next_seq st) method sid request)) (Live request)) (\<lambda>d.
     case allocate d st of (a, st) \<Rightarrow>
     let session = ClientSession_new a response done in
     case map_insert (next_seq st) session (sessions st) of (saved, inserted) \<Rightarrow>
     CHECK inserted (Inr (session, st\<lparr>sessions := saved, next_seq := next_seq st + 1\<rparr>))))"

definition ReleaseSession ::
  "u64 \<Rightarrow> ('u, 'm, 'z) client_state_scheme \<Rightarrow> client_session option \<times> ('u, 'm, 'z) client_state_scheme" where
  "ReleaseSession seq st =
     (case map_find seq (sessions st) of
        None \<Rightarrow> (None, st)
      | Some s \<Rightarrow> (Some s, st\<lparr>sessions := map_erase seq (sessions st)\<rparr>))"

definition Sessions_Empty :: "('u, 'm, 'z) client_state_scheme \<Rightarrow> bool" where
  "Sessions_Empty st \<longleftrightarrow> sessions st = []"

definition GetAllSessions :: "('u, 'm, 'z) client_state_scheme \<Rightarrow> (u64, client_session) std_map" where
  "GetAllSessions st = sessions st"

text \<open>
  The pool owns its sessions and a session owns its message object, as \<^verbatim>\<open>data_\<close> is a
  \<^verbatim>\<open>std::unique_ptr\<close>: its destructor deletes what was not released. The response and the
  closure of a session are left to the user.
\<close>

definition SessionManager_new :: "('u, 'm, 'z) client_state_scheme \<Rightarrow> ('u, 'm, 'z) client_state_scheme" where
  "SessionManager_new st = st\<lparr>next_seq := 0, sessions := []\<rparr>"

definition ClientSession_delete ::
  "client_session \<Rightarrow> ('u, 'm, 'z) client_state_scheme \<Rightarrow> ('u, 'm, 'z) client_state_scheme result" where
  "ClientSession_delete s st = (case cs_data s of None \<Rightarrow> Inr st | Some a \<Rightarrow> delete_data a st)"

fun delete_sessions ::
  "(u64, client_session) std_map \<Rightarrow> ('u, 'm, 'z) client_state_scheme \<Rightarrow> ('u, 'm, 'z) client_state_scheme result" where
  "delete_sessions [] st = Inr st"
| "delete_sessions ((seq, session) # rest) st =
     bind_result (ClientSession_delete session st) (delete_sessions rest)"

definition SessionManager_delete ::
  "('u, 'm, 'z) client_state_scheme \<Rightarrow> ('u, 'm, 'z) client_state_scheme result" where
  "SessionManager_delete st =
     (if sessions st = [] then Inr st
      else bind_result (delete_sessions (sessions st) st) (\<lambda>st. Inr (st\<lparr>sessions := []\<rparr>)))"

section \<open>The session pool\<close>

text \<open>
  Every saved session owns a live message object of its own, whose deletion is safe, and the next number is past all
  those in use.
\<close>

definition session_addr :: "client_session \<Rightarrow> nat" where
  "session_addr s = (case cs_data s of Some a \<Rightarrow> a | None \<Rightarrow> 0)"

definition sessions_ok :: "('u, 'm, 'z) client_state_scheme \<Rightarrow> bool" where
  "sessions_ok st \<longleftrightarrow> map_ok (sessions st)
     \<and> (\<forall>(k, s) \<in> set (sessions st). k < next_seq st \<and> cs_data s = Some (session_addr s)
          \<and> session_addr s < next_addr st
          \<and> (\<exists>d m. heap st (session_addr s) = Some d \<and> deletable d \<and> rd_meta d = Live m \<and> md_seq m = k))
     \<and> distinct (map (session_addr \<circ> snd) (sessions st))"

lemma GetServiceID_ok: "\<exists>h. GetServiceID name = Inr h"
  using CityHash32_Some [of 0 "length name" name] by (auto simp: GetServiceID_def)

lemma RPCData_of_fields:
  assumes "RPCData_of c (Live meta) (Live p) = Inr d"
  shows "rd_meta d = Live meta" "rd_payload d = Live p" "\<not> IsPending d" "deletable d"
  using assms
  by (auto simp: deletable_def RPCData_of_def ToBuffer_def Let_def IsPending_def buffer_freed_def
      split: if_splits option.splits)

lemma call_meta_fields [simp]:
  "md_seq (call_meta c seq method sid request) = seq"
  "md_service_id (call_meta c seq method sid request) = sid"
  "md_method_id (call_meta c seq method sid request) = method_index method"
  "md_message_length (call_meta c seq method sid request) = of_nat (payload_ByteSize c request)"
  "md_unknown_fields (call_meta c seq method sid request) = unknown_none (wire c)"
  "Meta_wf (call_meta c seq method sid request)" "Meta_IsInitialized (call_meta c seq method sid request)"
  by (auto simp: call_meta_def IsInitialized_iff)
    (simp_all add: meta_setters RPCMetaData_new_def SharedCtor_def has_bits_iff or_exp_set_bit bit_simps)

lemma SaveSession_shape:
  assumes "SaveSession c method request response done st = Inr (s, st')"
  obtains sid d where "GetServiceID (service_full_name method) = Inr sid"
    "RPCData_of c (Live (call_meta c (next_seq st) method sid request)) (Live request) = Inr d"
    "s = ClientSession_new (next_addr st) response done"
    "map_insert (next_seq st) s (sessions st) = (sessions st', True)"
    "st' = st\<lparr>heap := (heap st)(next_addr st \<mapsto> d), next_addr := next_addr st + 1,
             sessions := sessions st', next_seq := next_seq st + 1\<rparr>"
proof -
  obtain sid d where sd: "GetServiceID (service_full_name method) = Inr sid"
    "RPCData_of c (Live (call_meta c (next_seq st) method sid request)) (Live request) = Inr d"
    using assms by (auto simp: SaveSession_def bind_result_eq_Inr)
  obtain saved ok where "map_insert (next_seq st) (ClientSession_new (next_addr st) response done) (sessions st)
      = (saved, ok)" by fastforce
  with sd assms show thesis
    by (intro that [of sid d]) (auto simp: SaveSession_def allocate_def Let_def CHECK_eq_Inr)
qed

lemma SaveSession_ok:
  assumes "sessions_ok st" "next_seq st \<noteq> - 1"
    "SaveSession c method request response done st = Inr (s, st')"
  shows "sessions_ok st'" "sessions st' = sessions st @ [(next_seq st, s)]"
proof -
  obtain sid d where d: "RPCData_of c (Live (call_meta c (next_seq st) method sid request)) (Live request) = Inr d"
    and s: "s = ClientSession_new (next_addr st) response done"
    and ins: "map_insert (next_seq st) s (sessions st) = (sessions st', True)"
    and st': "st' = st\<lparr>heap := (heap st)(next_addr st \<mapsto> d), next_addr := next_addr st + 1,
             sessions := sessions st', next_seq := next_seq st + 1\<rparr>"
    using SaveSession_shape [OF assms(3)] by metis
  have less: "k < next_seq st" if "k \<in> set (map fst (sessions st))" for k
    using assms(1) that by (auto simp: sessions_ok_def)
  then show ss: "sessions st' = sessions st @ [(next_seq st, s)]"
    using map_insert_last [of "sessions st" "next_seq st" s] ins by simp
  have "next_seq st < next_seq st + 1"
    using assms(2) by (rule less_inc_word)
  then have later: "k < next_seq st + 1" if "k \<le> next_seq st" for k using that by simp
  have fields: "next_seq st' = next_seq st + 1" "next_addr st' = next_addr st + 1"
    "heap st' = (heap st)(next_addr st \<mapsto> d)"
    using arg_cong [OF st', of next_seq] arg_cong [OF st', of next_addr] arg_cong [OF st', of heap] by simp_all
  have "map_ok (sessions st')" using map_ok_insert [of "sessions st" "next_seq st" s] assms(1) ins
    by (simp add: sessions_ok_def)
  moreover have "\<forall>(k, s') \<in> set (sessions st'). k < next_seq st' \<and> cs_data s' = Some (session_addr s')
      \<and> session_addr s' < next_addr st'
      \<and> (\<exists>d m. heap st' (session_addr s') = Some d \<and> deletable d \<and> rd_meta d = Live m \<and> md_seq m = k)"
    using assms(1) RPCData_of_fields [OF d] later less_imp_le
    by (fastforce simp: s ss fields sessions_ok_def ClientSession_new_def session_addr_def)
  moreover have "distinct (map (session_addr \<circ> snd) (sessions st'))"
    using assms(1) unfolding ss by (auto simp: s sessions_ok_def ClientSession_new_def session_addr_def)
  ultimately show "sessions_ok st'" unfolding sessions_ok_def by blast
qed

lemma sessions_ok_new [simp]: "sessions_ok (SessionManager_new st)"
  by (simp add: sessions_ok_def SessionManager_new_def)

text \<open>
  Sessions with message objects of their own are deleted without a fault, and exactly their
  objects with them.
\<close>

lemma delete_sessions_frees:
  assumes "distinct (map (session_addr \<circ> snd) ss)"
    "\<And>k s. (k, s) \<in> set ss \<Longrightarrow> cs_data s = Some (session_addr s)
      \<and> (\<exists>d. heap st (session_addr s) = Some d \<and> deletable d)"
  shows "delete_sessions ss st =
    Inr (st\<lparr>heap := \<lambda>a. if a \<in> session_addr ` snd ` set ss then None else heap st a\<rparr>)"
  using assms
proof (induction ss arbitrary: st)
  case (Cons f ss)
  obtain k s where f: "f = (k, s)" by fastforce
  let ?st = "st\<lparr>heap := (heap st)(session_addr s := None)\<rparr>"
  have del: "ClientSession_delete s st = Inr ?st"
    using Cons.prems(2) [of k s] by (auto simp: f ClientSession_delete_def delete_data_ok)
  have rest: "cs_data s' = Some (session_addr s') \<and> (\<exists>d. heap ?st (session_addr s') = Some d \<and> deletable d)"
    if "(k', s') \<in> set ss" for k' s'
    using Cons.prems(1) Cons.prems(2) [of k' s'] that by (force simp: f image_iff)
  show ?case using Cons.IH [of ?st] Cons.prems(1) rest del by (auto simp: f fun_eq_iff)
qed simp

lemma SessionManager_delete_frees:
  assumes "sessions_ok st"
  shows "SessionManager_delete st =
    Inr (st\<lparr>heap := \<lambda>a. if a \<in> session_addr ` snd ` set (sessions st) then None else heap st a, sessions := []\<rparr>)"
  using assms delete_sessions_frees [of "sessions st" st]
  by (fastforce simp: SessionManager_delete_def sessions_ok_def)

end
