(* ===== verification/Client_Channel.thy ===== *)
theory Client_Channel
  imports Client_Session
begin

text \<open>
  The client's end of a connection: \<^verbatim>\<open>ClientRPCChannel\<close> of \<^verbatim>\<open>rpc/detail/client_rpc_channel.h\<close> and
  \<^verbatim>\<open>client_rpc_channel.cc\<close>, which sends a call, resends the waiting ones after a reconnection,
  and \<^verbatim>\<open>RPCClientImpl::ReceivePackage\<close> of \<^verbatim>\<open>rpc_client_impl.cc\<close>, the receiver the client installs in it.
\<close>

section \<open>Operations\<close>

definition Client_SendInLoop ::
  "('u, 'm) rpc_codec \<Rightarrow> method_descriptor \<Rightarrow> 'm \<Rightarrow> nat \<Rightarrow> nat \<Rightarrow> ('u, 'm, 'z) client_state_scheme \<Rightarrow>
     ('u, 'm, 'z) client_state_scheme result" where
  "Client_SendInLoop c method request response done st =
     bind_result (SaveSession c method request response done st) (\<lambda>(session, st).
     bind_result (Session_Data session) (\<lambda>a. SendInLoop c a st))"

fun send_sessions ::
  "('u, 'm) rpc_codec \<Rightarrow> (u64, client_session) std_map \<Rightarrow> ('u, 'm, 'z) client_state_scheme \<Rightarrow>
     ('u, 'm, 'z) client_state_scheme result" where
  "send_sessions c [] st = Inr st"
| "send_sessions c ((seq, session) # rest) st =
     bind_result (Session_ClearPendingState session st) (\<lambda>st.
     bind_result (Session_Data session) (\<lambda>a.
     bind_result (SendInLoop c a st) (send_sessions c rest)))"

definition SendPendingSessions ::
  "('u, 'm) rpc_codec \<Rightarrow> ('u, 'm, 'z) client_state_scheme \<Rightarrow> ('u, 'm, 'z) client_state_scheme result" where
  "SendPendingSessions c st = send_sessions c (GetAllSessions st) st"

definition ReconnectOrFail ::
  "('u, 'm, 'z) client_state_scheme \<Rightarrow> ('u, 'm, 'z) client_state_scheme result" where
  "ReconnectOrFail st =
     (if \<not> server_given st then Inr st
      else if terminated st then Inr st
      else Inr (do_io (Async_connect (next_socket st)) (st\<lparr>next_socket := next_socket st + 1\<rparr>)))"

definition ReceivePackage ::
  "(nat \<Rightarrow> byte list \<Rightarrow> bool) \<Rightarrow> nat \<Rightarrow> ('u, 'm, 'z) client_state_scheme \<Rightarrow>
     ('u, 'm, 'z) client_state_scheme result" where
  "ReceivePackage parses incoming st =
     bind_result (load incoming st) (\<lambda>d.
     bind_result (Data_Meta d) (\<lambda>meta.
     case ReleaseSession (md_seq meta) st of
       (None, st) \<Rightarrow> delete_data incoming st
     | (Some session, st) \<Rightarrow>
         bind_result (MessageBinary d) (\<lambda>body.
         bind_result (Session_Done parses (md_seq meta) session (take (unat (md_message_length meta)) body) st) (\<lambda>st.
         bind_result (Session_ReleaseData session st) (\<lambda>(a, session).
         bind_result (delete_data a st) (delete_data incoming))))))"

definition client_calls ::
  "(nat \<Rightarrow> byte list \<Rightarrow> bool) \<Rightarrow> ('u, 'm, 'z) client_state_scheme channel_calls" where
  "client_calls parses = \<lparr>receiver = ReceivePackage parses, cancellation = ReconnectOrFail,
     RecycleRPCData = base_RecycleRPCData\<rparr>"

definition Channel_Connected ::
  "('u, 'm) rpc_codec \<Rightarrow> (nat \<Rightarrow> byte list \<Rightarrow> bool) \<Rightarrow> nat \<Rightarrow> bool \<Rightarrow>
     ('u, 'm, 'z) client_state_scheme \<Rightarrow> ('u, 'm, 'z) client_state_scheme result" where
  "Channel_Connected c parses s error st =
     (if terminated st then Inr (CloseSocket s st)
      else if error then Inr (do_io (Async_connect s) st)
      else bind_result (RebuildSocket (client_calls parses) s st) (\<lambda>st.
        SendPendingSessions c (StartToRead st)))"

section \<open>Responses\<close>

text \<open>
  The client's channel as a \<open>package_receiver\<close>: the packages it can take are responses to
  distinct waiting calls whose request was handed to the kernel and whose bytes the response
  message accepts; \<open>closure\<close> names the closure saved with each number.
\<close>

definition client_ready :: "('u, 'm, 'z) client_state_scheme \<Rightarrow> bool" where
  "client_ready st \<longleftrightarrow> sessions_ok st
     \<and> (\<forall>a. partial_message st = Some a \<longrightarrow> a < next_addr st \<and> a \<notin> session_addr ` snd ` set (sessions st))"

definition answers ::
  "(nat \<Rightarrow> byte list \<Rightarrow> bool) \<Rightarrow> (u64 \<Rightarrow> nat) \<Rightarrow> ('u, 'm, 'z) client_state_scheme \<Rightarrow> 'u package list \<Rightarrow> bool" where
  "answers parses closure st fs \<longleftrightarrow> distinct (map (md_seq \<circ> fst) fs)
     \<and> (\<forall>(meta, body) \<in> set fs. \<exists>s d. map_find (md_seq meta) (sessions st) = Some s
          \<and> cs_done s = closure (md_seq meta)
          \<and> parses (cs_response s) body \<and> heap st (session_addr s) = Some d \<and> IsPending d)"

definition completion_of :: "(u64 \<Rightarrow> nat) \<Rightarrow> 'u package \<Rightarrow> u64 \<times> nat \<times> byte list" where
  "completion_of closure f = (md_seq (fst f), closure (md_seq (fst f)), snd f)"

lemma sessions_ok_find:
  assumes "sessions_ok st" "map_find k (sessions st) = Some s"
  shows "(k, s) \<in> set (sessions st)" "cs_data s = Some (session_addr s)" "session_addr s < next_addr st"
  using assms std.find_entries [of "sessions st" k s] by (auto simp: sessions_ok_def)

lemma sessions_ok_deletable:
  assumes "sessions_ok st" "(k, s) \<in> set (sessions st)"
  shows "\<exists>d. heap st (session_addr s) = Some d \<and> deletable d"
  using assms by (auto simp: sessions_ok_def)

lemma session_addr_in: "(k, s) \<in> set ss \<Longrightarrow> session_addr s \<in> session_addr ` snd ` set ss"
  by force

lemma answers_transfer:
  assumes "answers parses closure st fs" "sessions st' = sessions st"
    "\<And>k s. map_find k (sessions st) = Some s \<Longrightarrow> heap st' (session_addr s) = heap st (session_addr s)"
  shows "answers parses closure st' fs"
  using assms by (fastforce simp: answers_def)

lemma sessions_ok_distinct:
  assumes "sessions_ok st" "map_find k (sessions st) = Some s" "map_find k' (sessions st) = Some s'" "k \<noteq> k'"
  shows "session_addr s \<noteq> session_addr s'"
proof
  assume eq: "session_addr s = session_addr s'"
  have "(k, s) \<in> set (sessions st)" "(k', s') \<in> set (sessions st)"
    using assms sessions_ok_find(1) by blast+
  moreover have "inj_on (session_addr \<circ> snd) (set (sessions st))"
    using assms(1) by (auto simp: sessions_ok_def distinct_map)
  ultimately have "(k, s) = (k', s')" using inj_onD [of "session_addr \<circ> snd" _ "(k, s)" "(k', s')"] eq by simp
  then show False using assms(4) by simp
qed

text \<open>What the receiver does with a complete answer to a waiting call.\<close>

lemma ReceivePackage_answer:
  assumes "sessions_ok st" "heap st a = Some d" "Data_Meta d = Inr meta" "MessageBinary d = Inr body"
    "unat (md_message_length meta) = length body" "map_find (md_seq meta) (sessions st) = Some s"
    "parses (cs_response s) body" "heap st (session_addr s) = Some e" "IsPending e" "a \<noteq> session_addr s" "deletable d"
  shows "ReceivePackage parses a st = Inr (st\<lparr>heap := (heap st)(session_addr s := None, a := None),
    sessions := map_erase (md_seq meta) (sessions st),
    completed := completed st @ [(md_seq meta, cs_done s, body)]\<rparr>)"
  using assms sessions_ok_find(2) [OF assms(1,6)] sessions_ok_deletable [OF assms(1) sessions_ok_find(1) [OF assms(1,6)]]
  by (simp add: ReceivePackage_def load_def ReleaseSession_def Session_Done_def Session_ReleaseData_def
      Session_IsPending_def Session_Data_def delete_data_ok)

lemma sessions_ok_erase:
  assumes "sessions_ok st" "map_find k (sessions st) = Some s" "a \<notin> session_addr ` snd ` set (sessions st)"
  shows "sessions_ok (st\<lparr>heap := (heap st)(session_addr s := None, a := None),
    sessions := map_erase k (sessions st), completed := l, partial_message := p\<rparr>)"
proof -
  let ?ss = "map_erase k (sessions st)"
  have "map_ok (sessions st)" using assms(1) by (simp add: sessions_ok_def)
  then have ok: "map_ok ?ss" by (rule std.ok_erase)
  have find: "map_find k' (sessions st) = Some s'" "k' \<noteq> k" if "(k', s') \<in> set ?ss" for k' s'
    using that std.find_entries [OF \<open>map_ok (sessions st)\<close>, of k' s'] by (auto simp: map_erase_def)
  have "session_addr s' \<noteq> session_addr s \<and> session_addr s' \<noteq> a" if "(k', s') \<in> set ?ss" for k' s'
    using sessions_ok_distinct [OF assms(1) find(1) [OF that] assms(2) find(2) [OF that]] that assms(3)
    by (force simp: map_erase_def)
  moreover have "distinct (map (session_addr \<circ> snd) ?ss)"
    using assms(1) by (simp add: sessions_ok_def map_erase_def distinct_map_filter)
  moreover have "set ?ss \<subseteq> set (sessions st)" by (auto simp: map_erase_def)
  ultimately show ?thesis using assms(1) ok unfolding sessions_ok_def by (fastforce simp: case_prod_beta)
qed

lemma client_receives:
  assumes "client_ready st" "partial_message st = Some a" "frame_ok c meta body"
    "heap st a = Some (received c meta body (length (frame_bytes c meta body)))"
    "answers parses closure st ((meta, body) # fs)"
  shows "\<exists>st'. ReceivePackage parses a st = Inr st' \<and> client_ready (st'\<lparr>partial_message := None\<rparr>)
    \<and> completed (st'\<lparr>partial_message := None\<rparr>) = completed st @ [completion_of closure (meta, body)]
    \<and> terminated st' = terminated st \<and> answers parses closure (st'\<lparr>partial_message := None\<rparr>) fs"
proof -
  let ?d = "received c meta body (length (frame_bytes c meta body))"
  obtain s e where s: "map_find (md_seq meta) (sessions st) = Some s" "parses (cs_response s) body"
    "heap st (session_addr s) = Some e" "IsPending e" and dn: "cs_done s = closure (md_seq meta)"
    using assms(5) by (auto simp: answers_def)
  have ok: "sessions_ok st" and a: "a \<notin> session_addr ` snd ` set (sessions st)"
    using assms(1,2) by (auto simp: client_ready_def)
  then have "a \<noteq> session_addr s" using sessions_ok_find(1) [OF ok s(1)] by force
  then have step: "ReceivePackage parses a st = Inr (st\<lparr>heap := (heap st)(session_addr s := None, a := None),
      sessions := map_erase (md_seq meta) (sessions st),
      completed := completed st @ [(md_seq meta, cs_done s, body)]\<rparr>)" (is "_ = Inr ?st'")
    using assms(3,4) s by (intro ReceivePackage_answer [OF ok, of _ ?d])
      (auto simp: received_def Data_Meta_def MessageBinary_def frame_ok_def)
  have "client_ready (?st'\<lparr>partial_message := None\<rparr>)"
    using sessions_ok_erase [OF ok s(1) a] by (simp add: client_ready_def)
  moreover have "answers parses closure (?st'\<lparr>partial_message := None\<rparr>) fs"
  proof -
    have "\<exists>s' d. map_find (md_seq m) (map_erase (md_seq meta) (sessions st)) = Some s'
        \<and> cs_done s' = closure (md_seq m) \<and> parses (cs_response s') b
        \<and> ((heap st)(session_addr s := None, a := None)) (session_addr s') = Some d \<and> IsPending d"
      if mb: "(m, b) \<in> set fs" for m b
    proof -
      have neq: "md_seq m \<noteq> md_seq meta" using assms(5) mb by (force simp: answers_def)
      obtain s' d where s': "map_find (md_seq m) (sessions st) = Some s'" "parses (cs_response s') b"
        "heap st (session_addr s') = Some d" "IsPending d" "cs_done s' = closure (md_seq m)"
        using assms(5) mb by (fastforce simp: answers_def)
      have "session_addr s' \<noteq> session_addr s" "session_addr s' \<noteq> a"
        using sessions_ok_distinct [OF ok s'(1) s(1) neq] session_addr_in [OF sessions_ok_find(1) [OF ok s'(1)]] a by auto
      then show ?thesis using s' neq ok std.find_erase [of "sessions st" "md_seq m" "md_seq meta"]
        by (auto simp: sessions_ok_def)
    qed
    then show ?thesis using assms(5) by (auto simp: answers_def simp del: fun_upd_apply)
  qed
  ultimately show ?thesis using step dn by (auto simp: completion_of_def)
qed

lemma client_package_receiver:
  fixes c :: "('u, 'm) rpc_codec"
  assumes "message_codec c"
  shows "package_receiver c (client_calls parses :: ('u, 'm, 'z) client_state_scheme channel_calls)
    client_ready (answers parses closure) completed (completion_of closure)"
proof (rule package_receiver.intro [OF assms], rule package_receiver_axioms.intro, goal_cases)
  case (1 st a meta body fs)
  then show ?case using client_receives [of st a c meta body parses closure fs] by (auto simp: client_calls_def)
next
  case (2 st)
  then show ?case by (auto simp: client_ready_def sessions_ok_def current_message_def allocate_def)
next
  case (3 st a d)
  then show ?case by (auto simp: client_ready_def sessions_ok_def store_def dest: session_addr_in)
next
  case (8 st fs)
  have "heap (snd (current_message c st)) (session_addr s) = heap st (session_addr s)"
    if "map_find k (sessions st) = Some s" for k s
    using 8 that sessions_ok_find(3) [of st k s]
    by (auto simp: client_ready_def current_message_def allocate_def)
  moreover have "sessions (snd (current_message c st)) = sessions st"
    using 8 by (simp add: current_message_def allocate_def)
  ultimately show ?case by (rule answers_transfer [OF 8(3), rotated])
next
  case (9 st a fs d)
  have "heap (store a d st) (session_addr s) = heap st (session_addr s)"
    if "map_find k (sessions st) = Some s" for k s
    using 9 session_addr_in [OF sessions_ok_find(1) [OF _ that]] by (auto simp: client_ready_def store_def)
  moreover have "sessions (store a d st) = sessions st" by (simp add: store_def)
  ultimately show ?case by (rule answers_transfer [OF 9(3), rotated])
qed (auto simp: client_ready_def sessions_ok_def StartToRead_def do_io_def answers_def
  current_message_def allocate_def store_def split: option.splits)

interpretation client: package_receiver guide_codec "client_calls parses" client_ready "answers parses closure" completed "completion_of closure"
  for parses closure
  by (rule client_package_receiver) (rule guide_messages.message_codec_axioms)

section \<open>Resending after a reconnection\<close>

lemma send_sessions_queue:
  assumes "queue_ok st" "distinct (pending st @ map (session_addr \<circ> snd) ss)"
    "\<forall>(k, s) \<in> set ss. cs_data s = Some (session_addr s) \<and> frame_of st (session_addr s) \<noteq> []
      \<and> (\<exists>d. heap st (session_addr s) = Some d \<and> deletable d)"
  shows "\<exists>h i. let st' = st\<lparr>heap := h, io := i, pending := pending st @ map (session_addr \<circ> snd) ss\<rparr> in
    send_sessions c ss st = Inr st' \<and> queue_ok st' \<and> frame_of st' = frame_of st
    \<and> writes st' = writes st @ (if pending st = [] \<and> ss \<noteq> [] then [frame_of st (session_addr (snd (hd ss)))] else [])
    \<and> (\<forall>b. h b = heap st b \<or> (\<exists>d p. heap st b = Some d \<and> h b = Some (d\<lparr>rd_is_pending := p\<rparr>)))"
  using assms
proof (induction ss arbitrary: st)
  case Nil
  show ?case
    by (rule exI [of _ "heap st"], rule exI [of _ "io st"]) (use Nil in \<open>simp add: frame_of_def writes_def\<close>)
next
  case (Cons f ss)
  obtain k s where f: "f = (k, s)" by fastforce
  let ?a = "session_addr s"
  have s: "cs_data s = Some ?a" "frame_of st ?a \<noteq> []" "?a \<notin> set (pending st)"
    using Cons.prems(2,3) by (auto simp: f)
  obtain d where d: "heap st ?a = Some d" "deletable d" using Cons.prems(3) by (auto simp: f)
  let ?st1 = "store ?a (Data_ClearPendingState d) st"
  have clear: "Session_ClearPendingState s st = Inr ?st1"
    using s d by (simp add: Session_ClearPendingState_def Session_Data_def load_def)
  have fr1: "frame_of ?st1 = frame_of st" using d by (auto simp: frame_of_def Data_ClearPendingState_def)
  have q1: "queue_ok ?st1"
    using Cons.prems(1) s(3) fr1
    by (auto simp: queue_ok_def sendable_def split: list.splits)
  have send1: "sendable ?st1 ?a" "?a \<notin> set (pending ?st1)"
    using s fr1 d(2) by (auto simp: sendable_def Data_ClearPendingState_def IsPending_def)
  obtain h i where hi: "SendInLoop c ?a ?st1 = Inr (?st1\<lparr>heap := h, io := i, pending := pending ?st1 @ [?a]\<rparr>)"
    "queue_ok (?st1\<lparr>heap := h, io := i, pending := pending ?st1 @ [?a]\<rparr>)"
    "writes (?st1\<lparr>heap := h, io := i, pending := pending ?st1 @ [?a]\<rparr>)
      = writes ?st1 @ (if pending ?st1 = [] then [frame_of ?st1 ?a] else [])"
    "frame_of (?st1\<lparr>heap := h, io := i, pending := pending ?st1 @ [?a]\<rparr>) = frame_of ?st1"
    "\<forall>b. b \<noteq> ?a \<longrightarrow> h b = heap ?st1 b"
    "\<forall>e. heap ?st1 ?a = Some e \<longrightarrow> (\<exists>p. h ?a = Some (e\<lparr>rd_is_pending := p\<rparr>))"
    using SendInLoop_result [OF q1 send1, of c] by blast
  let ?st2 = "st\<lparr>heap := h, io := i, pending := pending st @ [?a]\<rparr>"
  have st2: "?st1\<lparr>heap := h, io := i, pending := pending ?st1 @ [?a]\<rparr> = ?st2" by (simp add: store_def)
  note hi' = hi [unfolded st2 fr1]
  have marks: "h b = heap st b \<or> (\<exists>d p. heap st b = Some d \<and> h b = Some (d\<lparr>rd_is_pending := p\<rparr>))" for b
    using hi(5,6) d(1) by (cases "b = ?a") (auto simp: Data_ClearPendingState_def)
  have dist: "distinct (pending ?st2 @ map (session_addr \<circ> snd) ss)" using Cons.prems(2) by (auto simp: f comp_def)
  have frs: "\<forall>(k, s) \<in> set ss. cs_data s = Some (session_addr s) \<and> frame_of ?st2 (session_addr s) \<noteq> []
      \<and> (\<exists>d. heap ?st2 (session_addr s) = Some d \<and> deletable d)"
  proof clarify
    fix k' s' assume s': "(k', s') \<in> set ss"
    then have "session_addr s' \<noteq> ?a" using Cons.prems(2) by (force simp: f)
    then have "heap ?st2 (session_addr s') = heap st (session_addr s')" using hi(5) by simp
    then show "cs_data s' = Some (session_addr s') \<and> frame_of ?st2 (session_addr s') \<noteq> []
      \<and> (\<exists>d. heap ?st2 (session_addr s') = Some d \<and> deletable d)"
      using Cons.prems(3) s' unfolding hi'(4) by auto
  qed
  obtain h' i' where "let st' = ?st2\<lparr>heap := h', io := i', pending := pending ?st2 @ map (session_addr \<circ> snd) ss\<rparr> in
    send_sessions c ss ?st2 = Inr st' \<and> queue_ok st' \<and> frame_of st' = frame_of ?st2
    \<and> writes st' = writes ?st2 @ (if pending ?st2 = [] \<and> ss \<noteq> [] then [frame_of ?st2 (session_addr (snd (hd ss)))] else [])
    \<and> (\<forall>b. h' b = heap ?st2 b \<or> (\<exists>d p. heap ?st2 b = Some d \<and> h' b = Some (d\<lparr>rd_is_pending := p\<rparr>)))"
    using Cons.IH [OF hi'(2) dist frs] by (elim exE)
  note rest = this [unfolded Let_def]
  have "h' b = heap st b \<or> (\<exists>d p. heap st b = Some d \<and> h' b = Some (d\<lparr>rd_is_pending := p\<rparr>))" for b
  proof -
    have "h' b = h b \<or> (\<exists>d p. h b = Some d \<and> h' b = Some (d\<lparr>rd_is_pending := p\<rparr>))"
      using rest [THEN conjunct2, THEN conjunct2, THEN conjunct2, THEN conjunct2, THEN spec, of b] by simp
    then show ?thesis using marks [of b] by (elim disjE exE conjE) (metis option.inject, metis, force, force)
  qed
  then show ?case
    using clear hi'(1,3,4) s(1) rest [THEN conjunct1] rest [THEN conjunct2, THEN conjunct1]
      rest [THEN conjunct2, THEN conjunct2, THEN conjunct1] rest [THEN conjunct2, THEN conjunct2, THEN conjunct2, THEN conjunct1]
    by (intro exI [of _ h'] exI [of _ i']) (auto simp: f Session_Data_def Let_def comp_def)
qed

text \<open>What a successful attempt to connect does to the channel.\<close>

lemma Channel_Connected_resends:
  assumes "sessions_ok st" "\<not> terminated st" "\<forall>(k, s) \<in> set (sessions st). frame_of st (session_addr s) \<noteq> []"
  obtains st' h i where
    "st' = st\<lparr>heap := h, io := i, pending := map (session_addr \<circ> snd) (sessions st), socket := sock, closed_by_peer := False\<rparr>"
    "Channel_Connected c parses sock False st = Inr st'" "queue_ok st'" "frame_of st' = frame_of st"
    "writes st' = writes st @ take 1 (map (frame_of st \<circ> session_addr \<circ> snd) (sessions st))"
    "\<And>b. h b = heap st b \<or> (\<exists>d p. heap st b = Some d \<and> h b = Some (d\<lparr>rd_is_pending := p\<rparr>))"
proof -
  let ?st1 = "StartToRead (st\<lparr>pending := [], socket := sock, closed_by_peer := False\<rparr>)"
  have conn: "Channel_Connected c parses sock False st = send_sessions c (sessions st) ?st1"
    using assms(2) by (simp add: Channel_Connected_def RebuildSocket_def ClearPendingPackages_def
        client_calls_def SendPendingSessions_def GetAllSessions_def) (simp add: StartToRead_def do_io_def)
  have st1: "pending ?st1 = []" "heap ?st1 = heap st" "frame_of ?st1 = frame_of st" "writes ?st1 = writes st"
    by (auto simp: StartToRead_def do_io_def frame_of_def writes_def)
  have q: "queue_ok ?st1" using st1(1) by (simp add: queue_ok_def)
  have d: "distinct (pending ?st1 @ map (session_addr \<circ> snd) (sessions st))"
    using st1(1) assms(1) by (simp add: sessions_ok_def)
  have "\<forall>(k, s) \<in> set (sessions st). cs_data s = Some (session_addr s) \<and> frame_of ?st1 (session_addr s) \<noteq> []
      \<and> (\<exists>d. heap ?st1 (session_addr s) = Some d \<and> deletable d)"
    using assms(1,3) st1(2,3) by (auto simp: sessions_ok_def)
  from send_sessions_queue [OF q d this, of c] obtain h i where res: "let st' = ?st1\<lparr>heap := h, io := i,
      pending := pending ?st1 @ map (session_addr \<circ> snd) (sessions st)\<rparr> in
    send_sessions c (sessions st) ?st1 = Inr st' \<and> queue_ok st' \<and> frame_of st' = frame_of ?st1
    \<and> writes st' = writes ?st1 @ (if pending ?st1 = [] \<and> sessions st \<noteq> []
        then [frame_of ?st1 (session_addr (snd (hd (sessions st))))] else [])
    \<and> (\<forall>b. h b = heap ?st1 b \<or> (\<exists>d p. heap ?st1 b = Some d \<and> h b = Some (d\<lparr>rd_is_pending := p\<rparr>)))"
    by (elim exE)
  let ?st' = "st\<lparr>heap := h, io := i, pending := map (session_addr \<circ> snd) (sessions st), socket := sock, closed_by_peer := False\<rparr>"
  have eq: "?st1\<lparr>heap := h, io := i, pending := pending ?st1 @ map (session_addr \<circ> snd) (sessions st)\<rparr> = ?st'"
    by (simp add: StartToRead_def do_io_def)
  note res = res [unfolded Let_def, unfolded eq, unfolded st1, folded conn]
  have "writes ?st' = writes st @ take 1 (map (frame_of st \<circ> session_addr \<circ> snd) (sessions st))"
    using res by (cases "sessions st") simp_all
  then show thesis using res by (intro that [of ?st' i h]) auto
qed

section \<open>Properties of the client's channel\<close>

text \<open>
  C6: Responses are matched to calls whatever the order in which the server answers and
  however the stream is cut, unless a cut falls inside a header: reading a stream of
  responses to distinct waiting calls runs the closure of each of them exactly once, in the
  order of the stream, with the bytes of its own response, and reports no fault.
\<close>

theorem responses_complete_calls:
  fixes st :: "('u, 'm, 'z) client_state_scheme"
  assumes "message_codec c" "client_ready st" "\<not> terminated st" "partial_message st = None"
    and "answers parses closure st fs" "\<forall>(meta, body) \<in> set fs. frame_ok c meta body"
    and "concat chunks = stream_bytes c fs"
    and "\<forall>i < length chunks. clean_cut c fs (length (concat (take i chunks)))"
  shows "\<exists>st'. read_pieces c (client_calls parses) chunks st = Inr st'
    \<and> completed st' = completed st @ map (completion_of closure) fs \<and> client_ready st' \<and> partial_message st' = None"
proof -
  have rec: "package_receiver c (client_calls parses :: ('u, 'm, 'z) client_state_scheme channel_calls)
      client_ready (answers parses closure) completed (completion_of closure)"
    by (rule client_package_receiver [OF assms(1)])
  have ok: "frame_ok c (fst f) (snd f)" if "f \<in> set fs" for f using assms(6) that by auto
  show ?thesis
    using package_receiver.read_pieces_stream [OF rec assms(2,3,5) ok, of 0 chunks] assms(4,7,8)
    by (auto simp: at_stream_def package_receiver.consumes_def [OF rec])
qed

text \<open>
  A response whose number is not waited for, a late or a repeated one, changes nothing:
  the receiver only frees it.
\<close>

theorem unknown_response_ignored:
  assumes "heap st a = Some d" "Data_Meta d = Inr meta" "map_find (md_seq meta) (sessions st) = None" "deletable d"
  shows "ReceivePackage parses a st = Inr (st\<lparr>heap := (heap st)(a := None)\<rparr>)"
  using assms by (simp add: ReceivePackage_def load_def ReleaseSession_def delete_data_ok)

text \<open>
  A response with a waiting number runs the closure that was saved with the call, frees
  the call's message and the response, and the number is not waited for any more. (A message
  object that was collected from the connection can always be deleted.)
\<close>

theorem response_matches_call:
  assumes "sessions_ok st" "heap st a = Some d" "Data_Meta d = Inr meta" "MessageBinary d = Inr body"
    and "unat (md_message_length meta) = length body" "map_find (md_seq meta) (sessions st) = Some s"
    and "parses (cs_response s) body" "heap st (session_addr s) = Some e" "IsPending e" "a \<noteq> session_addr s" "deletable d"
  shows "\<exists>st'. ReceivePackage parses a st = Inr st'
    \<and> completed st' = completed st @ [(md_seq meta, cs_done s, body)]
    \<and> map_find (md_seq meta) (sessions st') = None \<and> heap st' a = None \<and> heap st' (session_addr s) = None
    \<and> (\<forall>k. k \<noteq> md_seq meta \<longrightarrow> map_find k (sessions st') = map_find k (sessions st))"
  using ReceivePackage_answer [of st a d meta body s parses e, OF assms] assms(1) std.find_erase [of "sessions st"]
  by (simp add: sessions_ok_def)

text \<open>
  C10: After a reconnection every call that is still waiting is queued again on the new
  socket, in the order of the sequence numbers, and the first of them is being written.
\<close>

theorem reconnection_resends:
  assumes "sessions_ok st" "\<not> terminated st"
    and "\<forall>(k, s) \<in> set (sessions st). frame_of st (session_addr s) \<noteq> []"
  shows "\<exists>st'. Channel_Connected c parses sock False st = Inr st' \<and> queue_ok st' \<and> socket st' = sock
    \<and> \<not> closed_by_peer st' \<and> pending st' = map (session_addr \<circ> snd) (sessions st)
    \<and> map (frame_of st') (pending st') = map (frame_of st \<circ> session_addr \<circ> snd) (sessions st)
    \<and> writes st' = writes st @ map (frame_of st) (take 1 (pending st')) \<and> sessions st' = sessions st"
proof -
  obtain st' h i where st': "st' = st\<lparr>heap := h, io := i, pending := map (session_addr \<circ> snd) (sessions st), socket := sock,
      closed_by_peer := False\<rparr>"
    "Channel_Connected c parses sock False st = Inr st'" "queue_ok st'" "frame_of st' = frame_of st"
    "writes st' = writes st @ take 1 (map (frame_of st \<circ> session_addr \<circ> snd) (sessions st))"
    by (rule Channel_Connected_resends [OF assms])
  have "pending st' = map (session_addr \<circ> snd) (sessions st)" using st'(1) by simp
  then show ?thesis using st' by (auto simp: take_map comp_assoc)
qed

text \<open>
  A call is saved under a number of its own and its frame, with the header the server
  needs to find the method and the answer's number, goes to the end of the queue.
\<close>

theorem call_is_queued:
  assumes "message_codec c" "sessions_ok st" "queue_ok st" "next_seq st \<noteq> - 1"
    and "\<forall>a \<in> set (pending st). a < next_addr st"
    and "payload_SerializeToArray c request (payload_ByteSize c request) = Some body"
    and "GetServiceID (service_full_name method) = Inr sid"
    and "4 + length (meta_bytes c (call_meta c (next_seq st) method sid request)) + length body < 2 ^ 32"
  shows "\<exists>st' s. Client_SendInLoop c method request response done st = Inr st'
    \<and> sessions st' = sessions st @ [(next_seq st, s)] \<and> cs_response s = response \<and> cs_done s = done
    \<and> next_seq st' = next_seq st + 1 \<and> queue_ok st' \<and> pending st' = pending st @ [session_addr s]
    \<and> frame_of st' (session_addr s) = frame_bytes c (call_meta c (next_seq st) method sid request) body"
proof -
  let ?m = "call_meta c (next_seq st) method sid request" and ?a = "next_addr st"
  let ?s = "ClientSession_new ?a response done"
  obtain d where d: "RPCData_of c (Live ?m) (Live request) = Inr d" "rd_buffer d = Buffer (frame_bytes c ?m body)"
    using message_codec.ToBuffer_frame [OF assms(1) _ _ _ assms(6,8)]
    by (auto simp: RPCData_of_def buffer_freed_def)
  have "map_insert (next_seq st) ?s (sessions st) = (sessions st @ [(next_seq st, ?s)], True)"
    using assms(2) by (intro map_insert_last) (auto simp: sessions_ok_def)
  then have save: "SaveSession c method request response done st = Inr (?s, st\<lparr>heap := (heap st)(?a \<mapsto> d),
      next_addr := ?a + 1, sessions := sessions st @ [(next_seq st, ?s)], next_seq := next_seq st + 1\<rparr>)"
    (is "_ = Inr (_, ?st1)")
    using assms(7) d(1) by (simp add: SaveSession_def allocate_def Let_def)
  have same: "heap ?st1 b = heap st b" if "b \<in> set (pending st)" for b using assms(5) that by auto
  have "queue_ok ?st1"
    using assms(3) same by (auto simp: queue_ok_def sendable_def frame_of_def split: list.splits)
  moreover have "sendable ?st1 ?a" "frame_of ?st1 ?a = frame_bytes c ?m body" "?a \<notin> set (pending ?st1)"
    using d RPCData_of_fields(3,4) [OF d(1)] assms(5)
    by (auto simp: sendable_def frame_of_def)
  ultimately obtain h i where "SendInLoop c ?a ?st1 = Inr (?st1\<lparr>heap := h, io := i, pending := pending ?st1 @ [?a]\<rparr>)"
    "queue_ok (?st1\<lparr>heap := h, io := i, pending := pending ?st1 @ [?a]\<rparr>)"
    "frame_of (?st1\<lparr>heap := h, io := i, pending := pending ?st1 @ [?a]\<rparr>) ?a = frame_bytes c ?m body"
    using SendInLoop_result [of ?st1 ?a c] by (metis (no_types, lifting))
  then show ?thesis
    by (intro exI [of _ "?st1\<lparr>heap := h, io := i, pending := pending ?st1 @ [?a]\<rparr>"] exI [of _ ?s])
      (simp add: Client_SendInLoop_def save Session_Data_def ClientSession_new_def session_addr_def)
qed

text \<open>
  C31: A reconnection keeps the message that was being collected: the first bytes of the new
  connection, which start a new frame, are taken as the missing payload of the old one.
\<close>

theorem reconnection_mixes_messages:
  assumes "message_codec c" "frame_ok c meta body"
    and "RebuildSocket (client_calls parses) sock st = Inr st'"
    and "partial_message st = Some a" "heap st a = Some (received c meta body (4 + length (meta_bytes c meta) + q))"
    and "q < length body" "length body - q \<le> length bytes"
  shows "partial_message st' = Some a \<and> heap st' a = heap st a
    \<and> (\<exists>d. AppendBinaries c bytes (received c meta body (4 + length (meta_bytes c meta) + q))
             = Inr (int (length body - q), d)
         \<and> Partial c d = Inr False \<and> Data_Meta d = Inr meta
         \<and> MessageBinary d = Inr (take q body @ take (length body - q) bytes))"
proof -
  let ?p = "4 + length (meta_bytes c meta) + q" and ?mix = "take q body @ take (length body - q) bytes"
  have st': "partial_message st' = Some a" "heap st' a = heap st a"
    using assms(3,4) by (auto simp: RebuildSocket_def ClearPendingPackages_def client_calls_def)
  have len: "length ?mix = length body" using assms(6,7) by simp
  then have ok: "frame_ok c meta ?mix" using assms(2) by (simp add: frame_ok_def)
  have same: "received c meta body ?p = received c meta ?mix ?p" using assms(6) by (simp add: received_def)
  have pre: "prefix bytes (drop ?p (frame_bytes c meta ?mix) @ drop (length body - q) bytes)"
    using assms(6) by (simp add: frame_bytes_def)
  have less: "?p < length (frame_bytes c meta ?mix)" and ne: "bytes \<noteq> []"
    and k: "min (length bytes) (length (frame_bytes c meta ?mix) - ?p) = length body - q"
    using assms(6,7) unfolding length_frame len by auto
  have "AppendBinaries c bytes (received c meta ?mix ?p) = Inr (int (length body - q), received c meta ?mix (?p + (length body - q)))"
    using message_codec.append_received [OF assms(1) ok less _ ne pre] unfolding k Let_def
    by (simp add: split_header_def)
  moreover have "Partial c (received c meta ?mix (?p + (length body - q))) = Inr False"
    using message_codec.Partial_received [OF assms(1) ok, of "?p + (length body - q)"] assms(6,7) len by simp
  moreover have "Data_Meta (received c meta ?mix (?p + (length body - q))) = Inr meta"
    "MessageBinary (received c meta ?mix (?p + (length body - q))) = Inr ?mix"
    using assms(6,7) by (simp_all add: Data_Meta_def MessageBinary_def received_def)
  ultimately show ?thesis using st' same by auto
qed

text \<open>
  C30: An answer that arrives while its request is still at the head of the send queue frees
  the request that the queue keeps pointing to: the completion of the write then uses a
  deleted object.
\<close>

theorem early_answer_dangles:
  assumes "sessions_ok st" "heap st a = Some d" "Data_Meta d = Inr meta" "MessageBinary d = Inr body"
    and "unat (md_message_length meta) = length body" "map_find (md_seq meta) (sessions st) = Some s"
    and "parses (cs_response s) body" "heap st (session_addr s) = Some e" "IsPending e" "a \<noteq> session_addr s" "deletable d"
    and "pending st = session_addr s # rest" "0 < n"
  shows "\<exists>st'. ReceivePackage parses a st = Inr st' \<and> Written c (client_calls parses) False n st' = Inl Dangling_pointer"
  using ReceivePackage_answer [of st a d meta body s parses e, OF assms(1-11)] assms(12,13)
  by (simp add: Written_def load_def)

text \<open>
  C34: A client that goes away, its channel first and its sessions after it, reports no fault and
  frees the request of every call that still waits exactly once, also those the channel's queue points to, and no
  other object. The closures of these calls never run.
\<close>

theorem abandoned_calls_freed:
  assumes "sessions_ok st"
  shows "\<exists>st'. bind_result (RPCChannel_delete (client_calls parses) st) SessionManager_delete = Inr st'
    \<and> (\<forall>a. heap st' a = (if a \<in> session_addr ` snd ` set (sessions st) then None else heap st a))
    \<and> pending st' = [] \<and> Sessions_Empty st' \<and> completed st' = completed st"
proof -
  let ?st = "st\<lparr>io := io st @ [Close_socket (socket st)], pending := []\<rparr>"
  have "RPCChannel_delete (client_calls parses) st = Inr ?st"
    by (simp add: RPCChannel_delete_def CloseSocket_def ClearPendingPackages_def do_io_def)
  moreover have "sessions_ok ?st" using assms by (simp add: sessions_ok_def)
  ultimately show ?thesis using SessionManager_delete_frees [of ?st] by (simp add: Sessions_Empty_def)
qed

subsection \<open>Witnesses\<close>

text \<open>A client with two calls, both written, and one with a call still being written.\<close>

definition waiting_data :: "u64 \<Rightarrow> (byte list, byte list) RPCData" where
  "waiting_data seq = (framed [9])\<lparr>rd_meta := Live (sample_meta seq 2 3 1), rd_is_pending := True\<rparr>"

definition waiting_client :: "(byte list, byte list) client_state" where
  "waiting_client = \<lparr>heap = [0 \<mapsto> waiting_data 0, 1 \<mapsto> waiting_data 1], next_addr = 2, io = [],
     partial_message = None, pending = [], closed_by_peer = False, terminated = False, socket = 7,
     next_seq = 2, sessions = [(0, ClientSession_new 0 10 20), (1, ClientSession_new 1 11 21)],
     completed = [], server_given = True, next_socket = 8\<rparr>"

lemma waiting_ok: "sessions_ok waiting_client" "client_ready waiting_client"
  by (simp_all add: client_ready_def sessions_ok_def waiting_client_def ClientSession_new_def session_addr_def
      waiting_data_def)

theorem responses_complete_calls_witness:
  "\<exists>st'. read_pieces guide_codec (client_calls (\<lambda>r b. True))
      [stream_bytes guide_codec [(sample_meta 1 2 3 1, [65]), (sample_meta 0 2 3 1, [66])]] waiting_client = Inr st'
    \<and> completed st' = [(1, 21, [65]), (0, 20, [66])]"
proof -
  let ?fs = "[(sample_meta 1 2 3 1, [65]), (sample_meta 0 2 3 1, [66])]"
  have "answers (\<lambda>r b. True) (\<lambda>k. if k = 0 then 20 else 21) waiting_client ?fs"
    by (simp add: answers_def map_find_def waiting_client_def waiting_data_def ClientSession_new_def
        session_addr_def IsPending_def)
  moreover have "\<forall>(meta, body) \<in> set ?fs. frame_ok guide_codec meta body" by (simp add: sample_frame_ok)
  moreover have "clean_cut guide_codec ?fs 0" by (simp add: clean_cut_def split_header_def)
  ultimately have "\<exists>st'. read_pieces guide_codec (client_calls (\<lambda>r b. True)) [stream_bytes guide_codec ?fs] waiting_client
      = Inr st' \<and> completed st' = completed waiting_client @ map (completion_of (\<lambda>k. if k = 0 then 20 else 21)) ?fs
      \<and> client_ready st' \<and> partial_message st' = None"
    using responses_complete_calls [OF guide_messages.message_codec_axioms waiting_ok(2), of "\<lambda>r b. True"
        "\<lambda>k. if k = 0 then 20 else 21" ?fs
        "[stream_bytes guide_codec ?fs]"]
    by (simp add: waiting_client_def)
  then show ?thesis by (auto simp: completion_of_def waiting_client_def)
qed

definition answer_arrived :: "u64 \<Rightarrow> (byte list, byte list) client_state" where
  "answer_arrived seq = waiting_client\<lparr>heap := (heap waiting_client)(2 \<mapsto>
     received guide_codec (sample_meta seq 2 3 1) [65] 13), next_addr := 3, partial_message := Some 2, pending := [0]\<rparr>"

lemma arrived_13:
  assumes "unat seq < 128"
  shows "Data_Meta (received guide_codec (sample_meta seq 2 3 1) [65] 13) = Inr (sample_meta seq 2 3 1)"
    "MessageBinary (received guide_codec (sample_meta seq 2 3 1) [65] 13) = Inr [65]"
  using assms by (simp_all add: received_def sample_meta_bytes Data_Meta_def MessageBinary_def)

lemma arrived_ok: "sessions_ok (answer_arrived seq)"
  by (simp add: sessions_ok_def answer_arrived_def waiting_client_def ClientSession_new_def session_addr_def
      waiting_data_def)

theorem abandoned_calls_freed_witness:
  "\<exists>st'. bind_result (RPCChannel_delete (client_calls (\<lambda>r b. True)) (waiting_client\<lparr>pending := [0, 1]\<rparr>))
      SessionManager_delete = Inr st' \<and> heap st' 0 = None \<and> heap st' 1 = None \<and> completed st' = []"
proof -
  let ?st = "waiting_client\<lparr>pending := [0, 1]\<rparr>"
  have "sessions_ok ?st" using waiting_ok(1) by (simp add: sessions_ok_def)
  moreover have "heap ?st 0 = Some (waiting_data 0)" "completed ?st = []"
    "session_addr ` snd ` set (sessions ?st) = {0, 1}"
    by (simp_all add: waiting_client_def ClientSession_new_def session_addr_def)
  ultimately show ?thesis using abandoned_calls_freed [of ?st "\<lambda>r b. True"] by auto
qed

theorem unknown_response_ignored_witness:
  "ReceivePackage (\<lambda>r b. True) 2 (answer_arrived 5)
    = Inr ((answer_arrived 5)\<lparr>heap := (heap (answer_arrived 5))(2 := None)\<rparr>)"
  by (rule unknown_response_ignored [of _ _ "received guide_codec (sample_meta 5 2 3 1) [65] 13" "sample_meta 5 2 3 1"])
    (simp_all add: arrived_13 answer_arrived_def waiting_client_def map_find_def)

theorem response_matches_call_witness:
  "\<exists>st'. ReceivePackage (\<lambda>r b. True) 2 (answer_arrived 1) = Inr st' \<and> completed st' = [(1, 21, [65])]"
  using response_matches_call [OF arrived_ok, of 1 2 "received guide_codec (sample_meta 1 2 3 1) [65] 13"
      "sample_meta 1 2 3 1" "[65]" "ClientSession_new 1 11 21" "\<lambda>r b. True" "waiting_data 1"]
  by (auto simp: arrived_13 answer_arrived_def waiting_client_def map_find_def ClientSession_new_def
      session_addr_def waiting_data_def IsPending_def)

theorem early_answer_dangles_witness:
  "\<exists>st'. ReceivePackage (\<lambda>r b. True) 2 (answer_arrived 0) = Inr st'
    \<and> Written guide_codec (client_calls (\<lambda>r b. True)) False 1 st' = Inl Dangling_pointer"
  using early_answer_dangles [OF arrived_ok, of 0 2 "received guide_codec (sample_meta 0 2 3 1) [65] 13"
      "sample_meta 0 2 3 1" "[65]" "ClientSession_new 0 10 20" "\<lambda>r b. True" "waiting_data 0" "[]" 1 guide_codec]
  by (auto simp: arrived_13 answer_arrived_def waiting_client_def map_find_def ClientSession_new_def
      session_addr_def waiting_data_def IsPending_def)

theorem reconnection_resends_witness:
  "\<exists>st'. Channel_Connected guide_codec (\<lambda>r b. True) 8 False waiting_client = Inr st' \<and> pending st' = [0, 1]"
proof -
  have "\<forall>(k, s) \<in> set (sessions waiting_client). frame_of waiting_client (session_addr s) \<noteq> []"
    by (simp add: waiting_client_def ClientSession_new_def session_addr_def frame_of_def waiting_data_def framed_def)
  then show ?thesis
    using reconnection_resends [OF waiting_ok(1), of guide_codec "\<lambda>r b. True" 8]
    by (auto simp: waiting_client_def ClientSession_new_def session_addr_def)
qed

theorem reconnection_mixes_messages_witness:
  "\<exists>d. AppendBinaries guide_codec [7, 8, 9] (received guide_codec (sample_meta 0 2 3 2) [65, 66] 13)
        = Inr (1, d) \<and> MessageBinary d = Inr [65, 7]"
proof -
  let ?st = "waiting_client\<lparr>heap := [0 \<mapsto> received guide_codec (sample_meta 0 2 3 2) [65, 66] 13],
    partial_message := Some 0\<rparr>"
  have "\<exists>st'. RebuildSocket (client_calls (\<lambda>r b. True)) 8 ?st = Inr st'"
    by (simp add: RebuildSocket_def ClearPendingPackages_def client_calls_def waiting_client_def)
  then show ?thesis
    using reconnection_mixes_messages [OF guide_messages.message_codec_axioms
        sample_frame_ok [of 0 2 3 2 "[65, 66]"], of "\<lambda>r b. True" 8 ?st _ 0 1 "[7, 8, 9]"]
    by (auto simp: sample_meta_bytes)
qed

theorem call_is_queued_witness:
  "\<exists>st' s. Client_SendInLoop guide_codec \<lparr>method_index = 1, service_full_name = []\<rparr> [65] 12 22 waiting_client = Inr st'
    \<and> sessions st' = sessions waiting_client @ [(2, s)] \<and> cs_done s = 22"
proof -
  obtain sid where sid: "GetServiceID [] = Inr sid" using GetServiceID_ok by blast
  let ?m = "\<lparr>method_index = 1, service_full_name = []\<rparr>"
  have "length (meta_bytes guide_codec (call_meta guide_codec 2 ?m sid [65])) \<le> 44"
    by (rule guide_meta_bytes_bound) simp
  moreover have "queue_ok waiting_client" "next_seq waiting_client = 2" "pending waiting_client = []"
    by (simp_all add: queue_ok_def waiting_client_def)
  moreover have "payload_SerializeToArray guide_codec [65] (payload_ByteSize guide_codec [65]) = Some [65]"
    by (simp add: guide_codec_def)
  ultimately show ?thesis
    using call_is_queued [OF guide_messages.message_codec_axioms waiting_ok(1), of "[65]" "[65]" ?m sid 12 22] sid
    by auto
qed

end
