(* ===== verification/Rpc_Server.thy ===== *)
theory Rpc_Server
  imports Client_Session
begin

text \<open>
  The server's side of a call: \<^verbatim>\<open>RPCServerImpl\<close> of \<^verbatim>\<open>rpc/detail/rpc_server_impl.h\<close> and
  \<^verbatim>\<open>rpc_server_impl.cc\<close> with the services registered in it, seen from one channel of its own. The
  services belong to the user: their names, the number of their methods, what a request's
  class makes of the received bytes, and whether a method answers at once, are parameters.
\<close>

section \<open>Services as parameters\<close>

text \<open>
  \<open>parse_request s i bs\<close> is what the request prototype of method \<open>i\<close> of service \<open>s\<close> makes of
  the bytes; \<open>serve s i q\<close> is the response when the method runs the closure before it
  returns, and nothing when it keeps the closure for later.
\<close>

record ('m, 'q) services =
  service_name :: "nat \<Rightarrow> byte list"
  method_count :: "nat \<Rightarrow> nat"
  parse_request :: "nat \<Rightarrow> nat \<Rightarrow> byte list \<Rightarrow> 'q option"
  serve :: "nat \<Rightarrow> nat \<Rightarrow> 'q \<Rightarrow> 'm option"

section \<open>State\<close>

text \<open>
  \<open>calls_made\<close> records the calls of \<^verbatim>\<open>Service::CallMethod\<close>, with the package each came from;
  \<open>unanswered\<close> the closures that services kept, each bound to its header.
\<close>

record ('u, 'm, 'q) server_state = "('u, 'm) channel_state" +
  service_pool :: "(u32, nat) std_map"
  calls_made :: "('u package \<times> nat \<times> 'q) list"
  unanswered :: "'u RPCMetaData list"

section \<open>Operations\<close>

definition AddService ::
  "('m, 'q) services \<Rightarrow> nat \<Rightarrow> ('u, 'm, 'q, 'z) server_state_scheme \<Rightarrow> ('u, 'm, 'q, 'z) server_state_scheme result" where
  "AddService env service st =
     bind_result (GetServiceID (service_name env service)) (\<lambda>service_id.
     case map_insert service_id service (service_pool st) of (new_pool, inserted) \<Rightarrow>
     if inserted then Inr (st\<lparr>service_pool := new_pool\<rparr>) else Inl Log_fatal)"

definition GetService :: "u32 \<Rightarrow> ('u, 'm, 'q, 'z) server_state_scheme \<Rightarrow> nat option" where
  "GetService service_id st = map_find service_id (service_pool st)"

definition SendResponse ::
  "('u, 'm) rpc_codec \<Rightarrow> 'u RPCMetaData \<Rightarrow> 'm \<Rightarrow> ('u, 'm, 'q, 'z) server_state_scheme \<Rightarrow>
     ('u, 'm, 'q, 'z) server_state_scheme result" where
  "SendResponse c meta response st =
     (let meta = set_message_length (of_nat (payload_ByteSize c response)) meta in
      bind_result (RPCData_of c (Live meta) (Live response)) (\<lambda>d.
      bind_result (OwnMetaAndPayload d) (\<lambda>d.
      case allocate d st of (a, st) \<Rightarrow> SendInLoop c a st)))"

definition CallMethod ::
  "('u, 'm) rpc_codec \<Rightarrow> ('m, 'q) services \<Rightarrow> nat \<Rightarrow> ('u, 'm, 'q, 'z) server_state_scheme \<Rightarrow>
     ('u, 'm, 'q, 'z) server_state_scheme result" where
  "CallMethod c env incoming st =
     bind_result (load incoming st) (\<lambda>d.
     bind_result (Data_Meta d) (\<lambda>incoming_meta.
     let meta = RPCMetaData_copy (wire c) incoming_meta in
     case GetService (md_service_id meta) st of
       None \<Rightarrow> Inl Null_pointer
     | Some service \<Rightarrow>
         let i = sint (md_method_id meta) in
         if i < 0 \<or> int (method_count env service) \<le> i then Inl Out_of_range
         else bind_result (MessageBinary d) (\<lambda>body.
           case parse_request env service (nat i) (take (unat (md_message_length meta)) body) of
             None \<Rightarrow> Inr st
           | Some request \<Rightarrow>
               bind_result (delete_data incoming st) (\<lambda>st.
               let st = st\<lparr>calls_made := calls_made st @ [((meta, body), service, request)]\<rparr> in
               case serve env service (nat i) request of
                 None \<Rightarrow> Inr (st\<lparr>unanswered := unanswered st @ [meta]\<rparr>)
               | Some response \<Rightarrow> SendResponse c meta response st))))"

text \<open>A service that kept the closure of a call instead of running it before it returned
  (\<open>unanswered\<close> lists the meta data bound in them) runs it later with its response.\<close>

definition RunKeptClosure ::
  "('u, 'm) rpc_codec \<Rightarrow> nat \<Rightarrow> 'm \<Rightarrow> ('u, 'm, 'q, 'z) server_state_scheme \<Rightarrow>
     ('u, 'm, 'q, 'z) server_state_scheme result" where
  "RunKeptClosure c i response st =
     (if i < length (unanswered st) then
        SendResponse c (unanswered st ! i) response
          (st\<lparr>unanswered := take i (unanswered st) @ drop (Suc i) (unanswered st)\<rparr>)
      else Inl Out_of_range)"

text \<open>
  The constructors of \<^verbatim>\<open>ServerRPCChannel\<close> bind the channel itself to the two callbacks; the channel is the
  state they work on.
\<close>

definition ServerRPCChannel_calls ::
  "(nat \<Rightarrow> ('u, 'm, 'z) channel_state_scheme \<Rightarrow> ('u, 'm, 'z) channel_state_scheme result) \<Rightarrow>
     (('u, 'm, 'z) channel_state_scheme \<Rightarrow> ('u, 'm, 'z) channel_state_scheme result) \<Rightarrow>
     ('u, 'm, 'z) channel_state_scheme channel_calls" where
  "ServerRPCChannel_calls receive cancel =
     \<lparr>receiver = receive, cancellation = cancel, RecycleRPCData = server_RecycleRPCData\<rparr>"

declare ServerRPCChannel_calls_def [simp]

text \<open>\<^verbatim>\<open>Accepted\<close> gives it \<^verbatim>\<open>RPCServerImpl::CallMethod\<close> and the release from the dispatcher.\<close>

definition server_calls ::
  "('u, 'm) rpc_codec \<Rightarrow> ('m, 'q) services \<Rightarrow>
     (('u, 'm, 'q, 'z) server_state_scheme \<Rightarrow> ('u, 'm, 'q, 'z) server_state_scheme result) \<Rightarrow>
     ('u, 'm, 'q, 'z) server_state_scheme channel_calls" where
  "server_calls c env release = ServerRPCChannel_calls (CallMethod c env) release"

section \<open>Answering a request\<close>

definition response_meta :: "('u, 'm) rpc_codec \<Rightarrow> 'u RPCMetaData \<Rightarrow> 'm \<Rightarrow> 'u RPCMetaData" where
  "response_meta c meta response = set_message_length (of_nat (payload_ByteSize c response)) meta"

text \<open>A response that the codec can serialize behind a header.\<close>

definition sendable_response ::
  "('u, 'm) rpc_codec \<Rightarrow> 'u RPCMetaData \<Rightarrow> 'm \<Rightarrow> byte list \<Rightarrow> bool" where
  "sendable_response c meta response body \<longleftrightarrow>
     payload_SerializeToArray c response (payload_ByteSize c response) = Some body
     \<and> 4 + length (meta_bytes c (response_meta c meta response)) + length body < 2 ^ 32"

text \<open>The queue is in order and its objects are older than the next one.\<close>

definition server_ready :: "('u, 'm, 'q, 'z) server_state_scheme \<Rightarrow> bool" where
  "server_ready st \<longleftrightarrow> queue_ok st \<and> map_ok (service_pool st)
     \<and> (\<forall>a \<in> set (pending st). a < next_addr st)
     \<and> (\<forall>a. partial_message st = Some a \<longrightarrow> a < next_addr st \<and> a \<notin> set (pending st))"

lemma response_meta_init: "Meta_IsInitialized meta \<Longrightarrow> Meta_IsInitialized (response_meta c meta response)"
  by (simp add: IsInitialized_iff response_meta_def has_bits_iff meta_setters or_exp_set_bit bit_simps)

lemma SendResponse_result:
  assumes "message_codec c" "server_ready st" "Meta_IsInitialized meta" "sendable_response c meta response body"
  shows "\<exists>h i. let st' = st\<lparr>next_addr := next_addr st + 1, heap := h, io := i, pending := pending st @ [next_addr st]\<rparr> in
    SendResponse c meta response st = Inr st' \<and> queue_ok st'
    \<and> writes st' = writes st @ (if pending st = [] then [frame_bytes c (response_meta c meta response) body] else [])
    \<and> frame_of st' (next_addr st) = frame_bytes c (response_meta c meta response) body
    \<and> (\<forall>a. a \<noteq> next_addr st \<longrightarrow> h a = heap st a)"
proof -
  let ?m = "response_meta c meta response" and ?a = "next_addr st"
  obtain d where d: "RPCData_of c (Live ?m) (Live response) = Inr d" "rd_buffer d = Buffer (frame_bytes c ?m body)"
    and own: "rd_owned d = False"
    using message_codec.ToBuffer_frame [OF assms(1) _ _ response_meta_init [OF assms(3), of c response]]
      assms(4)
    by (auto simp: RPCData_of_def buffer_freed_def sendable_response_def)
  let ?st1 = "st\<lparr>heap := (heap st)(?a \<mapsto> d\<lparr>rd_owned := True\<rparr>), next_addr := ?a + 1\<rparr>"
  have send: "SendResponse c meta response st = SendInLoop c ?a ?st1"
    using d own by (simp add: SendResponse_def response_meta_def [symmetric] OwnMetaAndPayload_def allocate_def Let_def)
  have "queue_ok ?st1"
    using assms(2) by (auto simp: server_ready_def queue_ok_def sendable_def frame_of_def split: list.splits)
  moreover have fr: "frame_of ?st1 ?a = frame_bytes c ?m body" using d(2) by (simp add: frame_of_def)
  moreover have "deletable (d\<lparr>rd_owned := True\<rparr>)"
    using RPCData_of_fields(2,4) [OF d(1)] by (simp add: deletable_def)
  moreover from this have "sendable ?st1 ?a" "?a \<notin> set (pending ?st1)"
    using fr RPCData_of_fields(3) [OF d(1)] assms(2) by (auto simp: sendable_def IsPending_def server_ready_def)
  ultimately obtain h i where hi:
    "SendInLoop c ?a ?st1 = Inr (?st1\<lparr>heap := h, io := i, pending := pending ?st1 @ [?a]\<rparr>)"
    "queue_ok (?st1\<lparr>heap := h, io := i, pending := pending ?st1 @ [?a]\<rparr>)"
    "writes (?st1\<lparr>heap := h, io := i, pending := pending ?st1 @ [?a]\<rparr>)
      = writes ?st1 @ (if pending ?st1 = [] then [frame_bytes c ?m body] else [])"
    "frame_of (?st1\<lparr>heap := h, io := i, pending := pending ?st1 @ [?a]\<rparr>) ?a = frame_bytes c ?m body"
    "\<forall>b. b \<noteq> ?a \<longrightarrow> h b = heap ?st1 b"
    using SendInLoop_result [of ?st1 ?a c] by (metis (no_types, lifting))
  have "writes ?st1 = writes st" by (simp add: writes_def)
  then show ?thesis
    using hi send by (intro exI [of _ h] exI [of _ i]) (auto simp: Let_def)
qed

text \<open>
  What a server does with a request for a registered method that its class accepts and that
  is answered at once or kept.
\<close>

definition serves ::
  "('u, 'm) rpc_codec \<Rightarrow> ('m, 'q) services \<Rightarrow> (u32, nat) std_map \<Rightarrow> 'u package \<Rightarrow> nat \<Rightarrow> 'q \<Rightarrow> bool" where
  "serves c env services_known f s q = (case f of (meta, body) \<Rightarrow>
     map_find (md_service_id meta) services_known = Some s
     \<and> 0 \<le> sint (md_method_id meta) \<and> sint (md_method_id meta) < int (method_count env s)
     \<and> parse_request env s (nat (sint (md_method_id meta))) body = Some q
     \<and> (\<forall>r. serve env s (nat (sint (md_method_id meta))) q = Some r \<longrightarrow>
          (\<exists>bs. sendable_response c meta r bs)))"

lemma copy_wf: "message_codec c \<Longrightarrow> Meta_wf meta \<Longrightarrow> RPCMetaData_copy (wire c) meta = meta"
  using wire_format.merge_into_empty [of "wire c" meta "SharedCtor (wire c)"]
  by (simp add: RPCMetaData_copy_def SharedCtor_def message_codec.wire)

definition after_call ::
  "'u package \<Rightarrow> nat \<Rightarrow> 'q \<Rightarrow> nat \<Rightarrow> ('u, 'm, 'q, 'z) server_state_scheme \<Rightarrow> ('u, 'm, 'q, 'z) server_state_scheme" where
  "after_call f s q a st = st\<lparr>heap := (heap st)(a := None), calls_made := calls_made st @ [(f, s, q)]\<rparr>"

lemma CallMethod_serves:
  assumes "message_codec c" "frame_ok c meta body"
    "heap st a = Some (received c meta body (length (frame_bytes c meta body)))"
    "serves c env (service_pool st) (meta, body) s q"
  shows "CallMethod c env a st =
    (case serve env s (nat (sint (md_method_id meta))) q of
       None \<Rightarrow> Inr ((after_call (meta, body) s q a st)\<lparr>unanswered := unanswered st @ [meta]\<rparr>)
     | Some r \<Rightarrow> SendResponse c meta r (after_call (meta, body) s q a st))"
proof -
  have d: "Data_Meta (received c meta body (length (frame_bytes c meta body))) = Inr meta"
    "MessageBinary (received c meta body (length (frame_bytes c meta body))) = Inr body"
    by (simp_all add: received_def Data_Meta_def MessageBinary_def)
  have "RPCMetaData_copy (wire c) meta = meta" using copy_wf [OF assms(1)] assms(2) by (simp add: frame_ok_def)
  then show ?thesis
    using assms(2-4) d
    by (simp add: CallMethod_def load_def GetService_def serves_def frame_ok_def delete_data_ok after_call_def
        Let_def cong: option.case_cong)
qed

lemma server_ready_cong:
  assumes "server_ready st" "pending st' = pending st" "service_pool st' = service_pool st" "next_addr st' = next_addr st"
    "partial_message st' = partial_message st \<or> partial_message st' = None"
    "\<And>a. a \<in> set (pending st) \<Longrightarrow> heap st' a = heap st a"
  shows "server_ready st'"
  using assms by (auto simp: server_ready_def queue_ok_def sendable_def frame_of_def split: list.splits)

lemma server_ready_after_call:
  assumes "server_ready st" "partial_message st = Some a"
  shows "server_ready (after_call f s q a st)"
proof -
  have "a \<notin> set (pending st)" using assms by (simp add: server_ready_def)
  then have same: "heap (after_call f s q a st) b = heap st b" if "b \<in> set (pending st)" for b
    using that by (auto simp: after_call_def)
  have "queue_ok (after_call f s q a st)"
    using assms(1) same by (auto simp: server_ready_def queue_ok_def sendable_def frame_of_def after_call_def split: list.splits)
  then show ?thesis using assms by (auto simp: server_ready_def after_call_def)
qed

lemma server_receives:
  assumes "message_codec c" "server_ready st" "partial_message st = Some a" "frame_ok c meta body"
    "heap st a = Some (received c meta body (length (frame_bytes c meta body)))"
    "serves c env (service_pool st) (meta, body) s q"
  shows "\<exists>st'. CallMethod c env a st = Inr st' \<and> server_ready (st'\<lparr>partial_message := None\<rparr>)
    \<and> calls_made st' = calls_made st @ [((meta, body), s, q)] \<and> terminated st' = terminated st
    \<and> service_pool st' = service_pool st"
proof -
  let ?st1 = "after_call (meta, body) s q a st"
  have ready: "server_ready ?st1" by (rule server_ready_after_call [OF assms(2,3)])
  have drop: "server_ready (st'\<lparr>partial_message := None\<rparr>)"
    if "queue_ok st'" "map_ok (service_pool st')" "\<forall>a \<in> set (pending st'). a < next_addr st'"
    for st' :: "('a, 'b, 'c, 'd) server_state_scheme"
    using that by (auto simp: server_ready_def queue_ok_def sendable_def frame_of_def split: list.splits)
  show ?thesis
  proof (cases "serve env s (nat (sint (md_method_id meta))) q")
    case None
    have "queue_ok (?st1\<lparr>unanswered := u\<rparr>)" for u
      using ready by (auto simp: server_ready_def queue_ok_def sendable_def frame_of_def split: list.splits)
    then show ?thesis
      using None CallMethod_serves [OF assms(1,4-6)] ready drop
      by (auto simp: after_call_def server_ready_def)
  next
    case (Some r)
    then obtain bs where "sendable_response c meta r bs" using assms(6) by (auto simp: serves_def)
    then obtain h i where "SendResponse c meta r ?st1
        = Inr (?st1\<lparr>next_addr := next_addr ?st1 + 1, heap := h, io := i, pending := pending ?st1 @ [next_addr ?st1]\<rparr>)"
      "queue_ok (?st1\<lparr>next_addr := next_addr ?st1 + 1, heap := h, io := i, pending := pending ?st1 @ [next_addr ?st1]\<rparr>)"
      using SendResponse_result [OF assms(1) ready, of meta r bs] assms(4) by (auto simp: Let_def frame_ok_def)
    then show ?thesis
      using Some CallMethod_serves [OF assms(1,4-6)] ready drop
      by (auto simp: after_call_def server_ready_def less_Suc_eq)
  qed
qed

section \<open>The server as a receiver of requests\<close>

definition requests ::
  "('u, 'm) rpc_codec \<Rightarrow> ('m, 'q) services \<Rightarrow> ('u, 'm, 'q, 'z) server_state_scheme \<Rightarrow> 'u package list \<Rightarrow> bool" where
  "requests c env st fs \<longleftrightarrow> (\<forall>f \<in> set fs. \<exists>s q. serves c env (service_pool st) f s q)"

definition called :: "('u, 'm, 'q, 'z) server_state_scheme \<Rightarrow> 'u package list" where
  "called st = map fst (calls_made st)"

text \<open>Everything that happens to the channel's own message leaves the server ready.\<close>

lemma server_ready_updates:
  assumes "server_ready st"
  shows "partial_message st = None \<Longrightarrow> server_ready (snd (current_message c st))"
    and "partial_message st = Some a \<Longrightarrow> server_ready (store a d st)"
    and "server_ready (StartToRead st)"
  using assms
  by (auto simp: server_ready_def queue_ok_def sendable_def frame_of_def current_message_def allocate_def
      store_def StartToRead_def do_io_def less_Suc_eq split: list.splits)

lemma request_package_receiver:
  fixes c :: "('u, 'm) rpc_codec"
  assumes "message_codec c"
  shows "package_receiver c (server_calls c env release :: ('u, 'm, 'q, 'z) server_state_scheme channel_calls)
    server_ready (requests c env) called (\<lambda>f. f)"
proof (rule package_receiver.intro [OF assms], rule package_receiver_axioms.intro, goal_cases)
  case (1 st a meta body fs)
  then obtain s q where "serves c env (service_pool st) (meta, body) s q" by (auto simp: requests_def)
  then show ?case
    using 1 server_receives [OF assms, of st a meta body env s q]
    by (auto simp: server_calls_def called_def requests_def)
qed (auto simp: server_ready_updates, auto simp: called_def requests_def current_message_def allocate_def store_def
  StartToRead_def do_io_def split: option.splits)

interpretation requests: package_receiver guide_codec "server_calls guide_codec env release" server_ready
  "requests guide_codec env" called "\<lambda>f. f" for env release
  by (rule request_package_receiver) (rule guide_messages.message_codec_axioms)

subsection \<open>Requests that are answered at once\<close>

text \<open>
  The second view of the same receiver: what was submitted for sending. With services that
  answer at once, each request adds the frame of its response.
\<close>

definition submitted_frames :: "('u, 'm, 'z) channel_state_scheme \<Rightarrow> byte list list" where
  "submitted_frames st = writes st @ map (frame_of st) (drop 1 (pending st))"

definition response_frame ::
  "('u, 'm) rpc_codec \<Rightarrow> ('m, 'q) services \<Rightarrow> (u32, nat) std_map \<Rightarrow> 'u package \<Rightarrow> byte list" where
  "response_frame c env known f = (case f of (meta, body) \<Rightarrow>
     case map_find (md_service_id meta) known of None \<Rightarrow> []
     | Some s \<Rightarrow> (case parse_request env s (nat (sint (md_method_id meta))) body of None \<Rightarrow> []
       | Some q \<Rightarrow> (case serve env s (nat (sint (md_method_id meta))) q of None \<Rightarrow> []
         | Some r \<Rightarrow> (case payload_SerializeToArray c r (payload_ByteSize c r) of None \<Rightarrow> []
           | Some bs \<Rightarrow> frame_bytes c (response_meta c meta r) bs))))"

definition answered_at_once ::
  "('u, 'm) rpc_codec \<Rightarrow> ('m, 'q) services \<Rightarrow> (u32, nat) std_map \<Rightarrow> ('u, 'm, 'q, 'z) server_state_scheme \<Rightarrow>
     'u package list \<Rightarrow> bool" where
  "answered_at_once c env known st fs \<longleftrightarrow> service_pool st = known
     \<and> (\<forall>f \<in> set fs. \<exists>s q r. serves c env known f s q \<and> serve env s (nat (sint (md_method_id (fst f)))) q = Some r)"

lemma submitted_frames_cong:
  assumes "pending st' = pending st" "writes st' = writes st"
    "\<And>a. a \<in> set (pending st) \<Longrightarrow> heap st' a = heap st a"
  shows "submitted_frames st' = submitted_frames st"
proof -
  have "map (frame_of st') (drop 1 (pending st)) = map (frame_of st) (drop 1 (pending st))"
    by (rule map_cong [OF refl]) (rule frame_of_cong, rule assms(3), erule in_set_dropD)
  then show ?thesis using assms(1,2) by (simp add: submitted_frames_def del: map_eq_conv)
qed

lemma server_answers:
  assumes "message_codec c" "server_ready st" "partial_message st = Some a" "frame_ok c meta body"
    "heap st a = Some (received c meta body (length (frame_bytes c meta body)))"
    "serves c env (service_pool st) (meta, body) s q"
    "serve env s (nat (sint (md_method_id meta))) q = Some r"
  shows "\<exists>st'. CallMethod c env a st = Inr st' \<and> server_ready (st'\<lparr>partial_message := None\<rparr>)
    \<and> submitted_frames (st'\<lparr>partial_message := None\<rparr>)
        = submitted_frames st @ [response_frame c env (service_pool st) (meta, body)]
    \<and> terminated st' = terminated st \<and> service_pool st' = service_pool st"
proof -
  let ?st1 = "after_call (meta, body) s q a st"
  obtain bs where bs: "sendable_response c meta r bs" using assms(6,7) by (auto simp: serves_def)
  let ?F = "frame_bytes c (response_meta c meta r) bs"
  have F: "response_frame c env (service_pool st) (meta, body) = ?F"
    using bs assms(6,7) by (simp add: response_frame_def serves_def sendable_response_def)
  have ready: "server_ready ?st1" by (rule server_ready_after_call [OF assms(2,3)])
  then have new: "next_addr ?st1 \<notin> set (pending ?st1)" by (auto simp: server_ready_def)
  obtain h i where hi: "let st' = ?st1\<lparr>next_addr := next_addr ?st1 + 1, heap := h, io := i,
        pending := pending ?st1 @ [next_addr ?st1]\<rparr> in
      SendResponse c meta r ?st1 = Inr st' \<and> queue_ok st'
      \<and> writes st' = writes ?st1 @ (if pending ?st1 = [] then [?F] else [])
      \<and> frame_of st' (next_addr ?st1) = ?F \<and> (\<forall>b. b \<noteq> next_addr ?st1 \<longrightarrow> h b = heap ?st1 b)"
    using SendResponse_result [OF assms(1) ready _ bs] assms(4) by (auto simp: frame_ok_def)
  let ?st2 = "?st1\<lparr>next_addr := next_addr ?st1 + 1, heap := h, io := i, pending := pending ?st1 @ [next_addr ?st1]\<rparr>"
  have call: "CallMethod c env a st = Inr ?st2"
    using CallMethod_serves [OF assms(1,4-6)] assms(7) hi by (simp add: Let_def)
  have old: "map (frame_of ?st2) (pending ?st1) = map (frame_of ?st1) (pending ?st1)"
  proof (rule map_cong [OF refl], rule frame_of_cong)
    fix b assume "b \<in> set (pending ?st1)"
    then have "b \<noteq> next_addr ?st1" using new by blast
    then show "heap ?st2 b = heap ?st1 b" using hi by (simp add: Let_def)
  qed
  have "submitted_frames ?st2 = submitted_frames ?st1 @ [?F]"
    using hi old by (cases "pending ?st1") (auto simp: submitted_frames_def Let_def)
  moreover have "submitted_frames ?st1 = submitted_frames st"
    using assms(2,3) by (intro submitted_frames_cong) (auto simp: after_call_def server_ready_def writes_def)
  moreover have "submitted_frames (?st2\<lparr>partial_message := None\<rparr>) = submitted_frames ?st2"
    by (rule submitted_frames_cong) (simp_all add: writes_def)
  moreover have "server_ready (?st2\<lparr>partial_message := None\<rparr>)"
    using server_receives [OF assms(1-6)] call by auto
  ultimately show ?thesis using call F by (auto simp: after_call_def)
qed

lemma answering_package_receiver:
  fixes c :: "('u, 'm) rpc_codec"
  assumes "message_codec c"
  shows "package_receiver c (server_calls c env release :: ('u, 'm, 'q, 'z) server_state_scheme channel_calls)
    server_ready (answered_at_once c env known) submitted_frames (response_frame c env known)"
proof (rule package_receiver.intro [OF assms], rule package_receiver_axioms.intro, goal_cases)
  case (1 st a meta body fs)
  then obtain s q r where "serves c env (service_pool st) (meta, body) s q"
    "serve env s (nat (sint (md_method_id meta))) q = Some r" by (auto simp: answered_at_once_def)
  then show ?case
    using 1 server_answers [OF assms, of st a meta body env s q r]
    by (auto simp: server_calls_def answered_at_once_def)
next
  case (5 st)
  then show ?case
    by (intro submitted_frames_cong)
      (auto simp: server_ready_def current_message_def allocate_def writes_def)
next
  case (6 st a d)
  then show ?case by (intro submitted_frames_cong) (auto simp: server_ready_def store_def writes_def)
next
  case (7 st)
  show ?case by (rule submitted_frames_cong) (simp_all add: StartToRead_def do_io_def writes_def)
qed (auto simp: server_ready_updates, auto simp: answered_at_once_def current_message_def allocate_def store_def
  StartToRead_def do_io_def split: option.splits)

interpretation answering: package_receiver guide_codec "server_calls guide_codec env release" server_ready
  "answered_at_once guide_codec env known" submitted_frames "response_frame guide_codec env known"
  for env release known
  by (rule answering_package_receiver) (rule guide_messages.message_codec_axioms)

section \<open>Properties of the server\<close>

text \<open>
  C7: Requests reach their services: however the stream of a connection is cut, unless a cut
  falls inside a header, each request for a registered method is handed to its service exactly
  once, in the order of the stream, and no fault occurs.
\<close>

theorem requests_reach_services:
  fixes st :: "('u, 'm, 'q, 'z) server_state_scheme"
  assumes "message_codec c" "server_ready st" "\<not> terminated st" "partial_message st = None"
    and "requests c env st fs" "\<forall>(meta, body) \<in> set fs. frame_ok c meta body"
    and "concat chunks = stream_bytes c fs"
    and "\<forall>i < length chunks. clean_cut c fs (length (concat (take i chunks)))"
  shows "\<exists>st'. read_pieces c (server_calls c env release) chunks st = Inr st'
    \<and> called st' = called st @ fs \<and> server_ready st' \<and> partial_message st' = None"
proof -
  have rec: "package_receiver c (server_calls c env release :: ('u, 'm, 'q, 'z) server_state_scheme channel_calls)
      server_ready (requests c env) called (\<lambda>f. f)"
    by (rule request_package_receiver [OF assms(1)])
  have ok: "frame_ok c (fst f) (snd f)" if "f \<in> set fs" for f using assms(6) that by auto
  show ?thesis
    using package_receiver.read_pieces_stream [OF rec assms(2,3,5) ok, of 0 chunks] assms(4,7,8)
    by (auto simp: at_stream_def package_receiver.consumes_def [OF rec])
qed

text \<open>
  C9: Responses leave in the order of the requests: with services that answer at once, a
  stream of requests submits exactly one frame per request, in the same order, which carries
  the number, service and method of its request and the bytes of the service's response.
\<close>

theorem responses_in_request_order:
  fixes st :: "('u, 'm, 'q, 'z) server_state_scheme"
  assumes "message_codec c" "server_ready st" "\<not> terminated st" "partial_message st = None"
    and "answered_at_once c env (service_pool st) st fs" "\<forall>(meta, body) \<in> set fs. frame_ok c meta body"
    and "concat chunks = stream_bytes c fs"
    and "\<forall>i < length chunks. clean_cut c fs (length (concat (take i chunks)))"
  shows "\<exists>st'. read_pieces c (server_calls c env release) chunks st = Inr st'
    \<and> submitted_frames st' = submitted_frames st @ map (response_frame c env (service_pool st)) fs"
proof -
  have rec: "package_receiver c (server_calls c env release :: ('u, 'm, 'q, 'z) server_state_scheme channel_calls)
      server_ready (answered_at_once c env (service_pool st)) submitted_frames (response_frame c env (service_pool st))"
    by (rule answering_package_receiver [OF assms(1)])
  have ok: "frame_ok c (fst f) (snd f)" if "f \<in> set fs" for f using assms(6) that by auto
  show ?thesis
    using package_receiver.read_pieces_stream [OF rec assms(2,3,5) ok, of 0 chunks] assms(4,7,8)
    by (auto simp: at_stream_def package_receiver.consumes_def [OF rec])
qed

lemma CallMethod_unknown:
  assumes "heap st a = Some d" "Data_Meta d = Inr meta" "message_codec c" "Meta_wf meta"
    and "GetService (md_service_id meta) st = None"
  shows "CallMethod c env a st = Inl Null_pointer"
  using assms copy_wf [OF assms(3,4)] by (simp add: CallMethod_def load_def)

text \<open>
  C27: One well-formed request for a service that is not registered ends the server: the null
  pointer that the lookup gives is used before anything is tested, and what is tested is the
  descriptor. It does not matter what follows the request in the same piece.
\<close>

theorem unknown_service_ends_server:
  assumes "message_codec c" "frame_ok c meta body" "partial_message st = None" "\<not> terminated st"
    and "GetService (md_service_id meta) st = None"
  shows "ReadInLoop c (server_calls c env release) False (frame_bytes c meta body @ later) st = Inl Null_pointer"
proof -
  let ?calls = "server_calls c env release" and ?n = "length (frame_bytes c meta body)"
  obtain a st1 where cm: "current_message c st = (a, st1)" by fastforce
  let ?st2 = "store a (received c meta body ?n) st1"
  have at: "at_stream c st [(meta, body)] 0" using assms(3) by (simp add: at_stream_def)
  have "\<not> split_header c meta 0" by (simp add: split_header_def)
  moreover have "frame_bytes c meta body @ later \<noteq> []" by (intro notI) (drule arg_cong [where f = length], simp)
  ultimately have step: "read_loop c ?calls (frame_bytes c meta body @ later) st =
      (case receiver ?calls a ?st2 of Inl f \<Rightarrow> Inl f
       | Inr st3 \<Rightarrow> read_loop c ?calls (drop ?n (frame_bytes c meta body @ later)) (st3\<lparr>partial_message := None\<rparr>))"
    using message_codec.read_step [OF assms(1,2) at _ _ _ cm, of "frame_bytes c meta body @ later" later ?n ?calls] by simp
  have "service_pool ?st2 = service_pool st"
    using cm assms(3) by (auto simp: current_message_def allocate_def store_def)
  then have "CallMethod c env a ?st2 = Inl Null_pointer"
    using assms by (intro CallMethod_unknown [where d = "received c meta body ?n" and meta = meta])
      (auto simp: store_def received_def Data_Meta_def frame_ok_def GetService_def)
  then have "read_loop c ?calls (frame_bytes c meta body @ later) st = Inl Null_pointer"
    using step by (simp add: server_calls_def)
  then show ?thesis using assms(4) by (simp add: ReadInLoop_def)
qed

text \<open>
  A request that its class does not accept is dropped without an answer: nothing is
  queued, no service is called, and the object of the request stays allocated.
\<close>

theorem bad_request_unanswered:
  assumes "message_codec c" "Meta_wf meta" "heap st a = Some d" "Data_Meta d = Inr meta" "MessageBinary d = Inr body"
    and "GetService (md_service_id meta) st = Some s"
    and "0 \<le> sint (md_method_id meta)" "sint (md_method_id meta) < int (method_count env s)"
    and "parse_request env s (nat (sint (md_method_id meta))) (take (unat (md_message_length meta)) body) = None"
  shows "CallMethod c env a st = Inr st"
  using assms copy_wf [OF assms(1,2)] by (simp add: CallMethod_def load_def)

text \<open>
  C36: Registration: a service is added under the hash of its name and found there, the other
  services stay; a second one under the same identifier, the same service or a collision,
  stops the process.
\<close>

theorem service_registered:
  assumes "map_ok (service_pool st)" "GetServiceID (service_name env s) = Inr sid"
  shows "(GetService sid st = None \<longrightarrow> (\<exists>st'. AddService env s st = Inr st' \<and> map_ok (service_pool st')
        \<and> GetService sid st' = Some s \<and> (\<forall>k. k \<noteq> sid \<longrightarrow> GetService k st' = GetService k st)))
    \<and> (GetService sid st \<noteq> None \<longrightarrow> AddService env s st = Inl Log_fatal)"
proof -
  obtain m ok where ins: "map_insert sid s (service_pool st) = (m, ok)" by fastforce
  have "ok \<longleftrightarrow> map_find sid (service_pool st) = None" "map_ok m"
    using std.inserted [OF assms(1), of sid s] std.ok_insert [OF assms(1), of sid s] ins by simp_all
  moreover have "map_find k m = (if k = sid \<and> map_find sid (service_pool st) = None then Some s
      else map_find k (service_pool st))" for k
    using std.find_insert [OF assms(1), of k sid s] ins by simp
  ultimately show ?thesis using assms(2) ins by (auto simp: AddService_def GetService_def)
qed

subsection \<open>Witnesses\<close>

text \<open>A service that echoes its requests, registered under the identifier 2.\<close>

definition echo_services :: "(byte list, byte list) services" where
  "echo_services = \<lparr>service_name = (\<lambda>s. []), method_count = (\<lambda>s. 4),
     parse_request = (\<lambda>s i bs. if bs = [0] then None else Some bs), serve = (\<lambda>s i q. Some q)\<rparr>"

definition echo_server :: "(byte list, byte list, byte list) server_state" where
  "echo_server = \<lparr>heap = (\<lambda>_. None), next_addr = 0, io = [], partial_message = None, pending = [],
     closed_by_peer = False, terminated = False, socket = 5, service_pool = [(2, 0)], calls_made = [],
     unanswered = []\<rparr>"

abbreviation sample_requests :: "byte list package list" where
  "sample_requests \<equiv> [(sample_meta 1 2 3 1, [65]), (sample_meta 0 2 3 1, [66])]"

lemma sample_meta_ids [simp]:
  "md_service_id (sample_meta s sid mid len) = sid" "md_method_id (sample_meta s sid mid len) = mid"
  by (simp_all add: sample_meta_def meta_setters)

lemma echo_sendable: "sendable_response guide_codec (sample_meta s sid mid len) [b] [b]"
proof -
  have "length (meta_bytes guide_codec (response_meta guide_codec (sample_meta s sid mid len) [b])) \<le> 44"
    by (rule guide_meta_bytes_bound) (simp add: response_meta_def meta_setters)
  then show ?thesis by (simp add: sendable_response_def guide_codec_def)
qed

lemma echo_serves:
  assumes "b \<noteq> 0"
  shows "serves guide_codec echo_services [(2, 0)] (sample_meta s 2 3 1, [b]) 0 [b]"
  using assms exI [of "sendable_response guide_codec (sample_meta s 2 3 1) [b]", OF echo_sendable]
  by (auto simp: serves_def map_find_def echo_services_def)

lemma echo_ready: "server_ready echo_server"
  by (simp add: server_ready_def queue_ok_def echo_server_def)

lemma echo_stream:
  "\<forall>(meta, body) \<in> set sample_requests. frame_ok guide_codec meta body" "clean_cut guide_codec sample_requests 0"
  by (simp_all add: sample_frame_ok clean_cut_def split_header_def)

theorem requests_reach_services_witness:
  "\<exists>st'. read_pieces guide_codec (server_calls guide_codec echo_services Inr)
      [stream_bytes guide_codec sample_requests] echo_server = Inr st' \<and> called st' = sample_requests"
proof -
  have "requests guide_codec echo_services echo_server sample_requests"
    using echo_serves [of 65 1] echo_serves [of 66 0] by (auto simp: requests_def echo_server_def)
  then show ?thesis
    using requests_reach_services [OF guide_messages.message_codec_axioms echo_ready _ _ _ echo_stream(1),
        of echo_services "[stream_bytes guide_codec sample_requests]" Inr] echo_stream(2)
    by (auto simp: echo_server_def called_def)
qed

theorem responses_in_request_order_witness:
  "\<exists>st'. read_pieces guide_codec (server_calls guide_codec echo_services Inr)
      [stream_bytes guide_codec sample_requests] echo_server = Inr st'
    \<and> submitted_frames st' = map (response_frame guide_codec echo_services [(2, 0)]) sample_requests"
proof -
  have "answered_at_once guide_codec echo_services [(2, 0)] echo_server sample_requests"
    using echo_serves [of 65 1] echo_serves [of 66 0]
    by (fastforce simp: answered_at_once_def echo_server_def echo_services_def)
  moreover have "service_pool echo_server = [(2, 0)]" "submitted_frames echo_server = []" "\<not> terminated echo_server"
    "partial_message echo_server = None"
    by (simp_all add: echo_server_def submitted_frames_def writes_def)
  ultimately show ?thesis
    using responses_in_request_order [OF guide_messages.message_codec_axioms echo_ready _ _ _ echo_stream(1),
        of echo_services "[stream_bytes guide_codec sample_requests]" Inr] echo_stream(2)
    by simp
qed

definition request_arrived :: "u32 \<Rightarrow> byte list \<Rightarrow> (byte list, byte list, byte list) server_state" where
  "request_arrived sid body = echo_server\<lparr>heap := [0 \<mapsto> received guide_codec (sample_meta 0 sid 3 1) body 13],
     next_addr := 1, partial_message := Some 0\<rparr>"

lemma request_13:
  assumes "unat sid < 128"
  shows "Data_Meta (received guide_codec (sample_meta 0 sid 3 1) [b] 13) = Inr (sample_meta 0 sid 3 1)"
    "MessageBinary (received guide_codec (sample_meta 0 sid 3 1) [b] 13) = Inr [b]"
  using assms by (simp_all add: received_def sample_meta_bytes Data_Meta_def MessageBinary_def)

theorem unknown_service_ends_server_witness:
  "ReadInLoop guide_codec (server_calls guide_codec echo_services Inr) False
     (frame_bytes guide_codec (sample_meta 0 9 3 1) [65]) echo_server = Inl Null_pointer"
proof -
  have "frame_ok guide_codec (sample_meta 0 9 3 1) [65]" by (rule sample_frame_ok) simp_all
  then show ?thesis
    using unknown_service_ends_server [of guide_codec "sample_meta 0 9 3 1" "[65]" echo_server echo_services Inr "[]"]
    by (simp add: guide_messages.message_codec_axioms echo_server_def GetService_def map_find_def)
qed

theorem bad_request_unanswered_witness:
  "CallMethod guide_codec echo_services 0 (request_arrived 2 [0]) = Inr (request_arrived 2 [0])"
  by (rule bad_request_unanswered [of _ "sample_meta 0 2 3 1" _ _ "received guide_codec (sample_meta 0 2 3 1) [0] 13" "[0]" 0])
    (simp_all add: request_arrived_def request_13 guide_messages.message_codec_axioms echo_server_def
      GetService_def map_find_def echo_services_def)

theorem service_registered_witness:
  "\<exists>sid st'. AddService echo_services 7 (echo_server\<lparr>service_pool := []\<rparr>) = Inr st' \<and> GetService sid st' = Some 7"
proof -
  obtain sid where "GetServiceID (service_name echo_services 7) = Inr sid" using GetServiceID_ok by blast
  then show ?thesis
    using service_registered [of "echo_server\<lparr>service_pool := []\<rparr>" echo_services 7 sid]
    by (auto simp: GetService_def map_find_def)
qed

end
