(* ===== verification/Rpc_Calls.thy ===== *)
theory Rpc_Calls
  imports Client_Channel Rpc_Server
begin

text \<open>
  A whole call: the client's frame, as the channel writes it, is read by the server's channel,
  the service answers, and the server's frame is read by the client's channel, which runs the
  closure of the call. Both streams may be cut in any way that spares the headers.
\<close>

text \<open>
  A stream is delivered cleanly when the pieces make it up and no boundary lies strictly
  inside a header.
\<close>

definition delivered_cleanly ::
  "('u, 'm) rpc_codec \<Rightarrow> 'u package list \<Rightarrow> byte list list \<Rightarrow> bool" where
  "delivered_cleanly c fs chunks \<longleftrightarrow> concat chunks = stream_bytes c fs
     \<and> (\<forall>i < length chunks. clean_cut c fs (length (concat (take i chunks))))"

text \<open>The client's side until the request is out.\<close>

definition issue_call ::
  "('u, 'm) rpc_codec \<Rightarrow> (nat \<Rightarrow> byte list \<Rightarrow> bool) \<Rightarrow> method_descriptor \<Rightarrow> 'm \<Rightarrow> nat \<Rightarrow> nat \<Rightarrow> nat \<Rightarrow>
     ('u, 'm, 'z) client_state_scheme \<Rightarrow> ('u, 'm, 'z) client_state_scheme result" where
  "issue_call c parses method request response done n st =
     bind_result (Client_SendInLoop c method request response done st)
       (Written c (client_calls parses) False n)"

lemma issue_call_result:
  assumes "message_codec c" "sessions_ok st" "next_seq st \<noteq> - 1" "pending st = []"
    and "payload_SerializeToArray c request (payload_ByteSize c request) = Some body"
    and "GetServiceID (service_full_name method) = Inr sid"
    and "m = call_meta c (next_seq st) method sid request"
    and "4 + length (meta_bytes c m) + length body < 2 ^ 32"
  shows "\<exists>d. rd_meta d = Live m \<and> IsPending d \<and> deletable d \<and>
    issue_call c parses method request response done (length (frame_bytes c m body)) st
      = Inr (st\<lparr>heap := (heap st)(next_addr st \<mapsto> d), next_addr := next_addr st + 1,
          io := io st @ [Async_write (socket st) (frame_bytes c m body)],
          sessions := sessions st @ [(next_seq st, ClientSession_new (next_addr st) response done)],
          next_seq := next_seq st + 1\<rparr>)"
proof -
  let ?a = "next_addr st" and ?F = "frame_bytes c m body"
  let ?s = "ClientSession_new ?a response done"
  have init: "Meta_IsInitialized m" by (simp add: assms(7))
  obtain d where d: "RPCData_of c (Live m) (Live request) = Inr d" "rd_buffer d = Buffer ?F"
    using message_codec.ToBuffer_frame [OF assms(1) _ _ init assms(5,8)]
    by (auto simp: RPCData_of_def buffer_freed_def)
  note fields = RPCData_of_fields [OF d(1)]
  have "map_insert (next_seq st) ?s (sessions st) = (sessions st @ [(next_seq st, ?s)], True)"
    using assms(2) by (intro map_insert_last) (auto simp: sessions_ok_def)
  then have save: "SaveSession c method request response done st = Inr (?s, st\<lparr>heap := (heap st)(?a \<mapsto> d),
      next_addr := ?a + 1, sessions := sessions st @ [(next_seq st, ?s)], next_seq := next_seq st + 1\<rparr>)"
    using assms(6,7) d(1) by (simp add: SaveSession_def allocate_def Let_def)
  have len: "0 < length ?F" by simp
  show ?thesis
    using fields assms(4) d(2) len
    by (intro exI [of _ "d\<lparr>rd_is_pending := True\<rparr>"])
      (simp add: issue_call_def Client_SendInLoop_def save Session_Data_def ClientSession_new_def SendInLoop_def
        WriteInLoop_def Written_def load_def store_def do_io_def GetBuffer_def IsPending_def Let_def
        buffer_size_def client_calls_def base_RecycleRPCData_def del: length_frame length_greater_0_conv)
qed

lemma issued_client_ready:
  assumes "sessions_ok st" "next_seq st \<noteq> - 1" "rd_meta d = Live m" "md_seq m = next_seq st"
    "deletable d" "partial_message st = None"
  shows "client_ready (st\<lparr>heap := (heap st)(next_addr st \<mapsto> d), next_addr := next_addr st + 1, io := i,
    sessions := sessions st @ [(next_seq st, ClientSession_new (next_addr st) response done)],
    next_seq := next_seq st + 1\<rparr>)"
proof -
  have "k < next_seq st + 1" if "k \<le> next_seq st" for k
    using that less_inc_word [OF assms(2)] by simp
  moreover have "map_ok (sessions st @ [(next_seq st, v)])" for v
  proof -
    have "map_insert (next_seq st) v (sessions st) = (sessions st @ [(next_seq st, v)], True)"
      using assms(1) by (intro map_insert_last) (auto simp: sessions_ok_def)
    then show ?thesis using map_ok_insert [of "sessions st" "next_seq st" v] assms(1) by (simp add: sessions_ok_def)
  qed
  ultimately show ?thesis
    using assms less_imp_le
    by (fastforce simp: client_ready_def sessions_ok_def ClientSession_new_def session_addr_def)
qed

lemma single_answer:
  assumes "message_codec c" "client_ready st" "\<not> terminated st" "partial_message st = None"
    "answers parses closure st [(m, body)]" "frame_ok c m body" "delivered_cleanly c [(m, body)] chunks"
  shows "\<exists>st'. read_pieces c (client_calls parses) chunks st = Inr st'
    \<and> completed st' = completed st @ [completion_of closure (m, body)]"
  using package_receiver.read_pieces_stream [OF client_package_receiver [OF assms(1)] assms(2,3,5), of 0 chunks]
    assms(4,6,7)
  by (auto simp: at_stream_def package_receiver.consumes_def [OF client_package_receiver [OF assms(1)]]
      delivered_cleanly_def)

lemma single_request:
  assumes "message_codec c" "server_ready st" "\<not> terminated st" "partial_message st = None"
    "answered_at_once c env (service_pool st) st [(m, body)]" "frame_ok c m body"
    "delivered_cleanly c [(m, body)] chunks"
  shows "\<exists>st'. read_pieces c (server_calls c env release) chunks st = Inr st'
    \<and> submitted_frames st' = submitted_frames st @ [response_frame c env (service_pool st) (m, body)]"
  using package_receiver.read_pieces_stream [OF answering_package_receiver [OF assms(1)] assms(2,3,5), of 0 chunks]
    assms(4,6,7)
  by (auto simp: at_stream_def package_receiver.consumes_def [OF answering_package_receiver [OF assms(1)]]
      delivered_cleanly_def)

lemma response_frame_ok:
  assumes "frame_ok c m body" "sendable_response c m r rb" "message_codec c"
  shows "frame_ok c (response_meta c m r) rb" "md_seq (response_meta c m r) = md_seq m"
proof -
  have len: "length rb = payload_ByteSize c r" "length rb < 2 ^ 32"
    using assms(2) message_codec.payload [OF assms(3)] by (auto simp: sendable_response_def)
  have "Meta_wf (response_meta c m r)" using assms(1) by (auto simp: response_meta_def frame_ok_def)
  moreover have "md_message_length (response_meta c m r) = of_nat (payload_ByteSize c r)"
    "md_unknown_fields (response_meta c m r) = md_unknown_fields m"
    by (simp_all add: response_meta_def meta_setters)
  ultimately show "frame_ok c (response_meta c m r) rb"
    using assms(1,2) len response_meta_init [of m c r] unat_of_nat_u32 [OF len(2)]
    by (simp add: frame_ok_def sendable_response_def)
  show "md_seq (response_meta c m r) = md_seq m" by (simp add: response_meta_def meta_setters)
qed

section \<open>Properties of a whole call\<close>

text \<open>
  A call comes back with its answer. A client issues a call on an idle connection and
  its frame is written; the server reads it in whatever pieces, finds the service by the hash
  of its name, the service answers and a frame goes back; the client reads that in whatever
  pieces and runs the closure of exactly this call with exactly the bytes of the response.
  The only hypotheses on the pieces are that none ends inside a header.
\<close>

theorem call_round_trip:
  fixes st :: "('u, 'm, 'z) client_state_scheme" and sv :: "('u, 'm, 'q, 'y) server_state_scheme"
  assumes "message_codec c"
    and "sessions_ok st" "next_seq st \<noteq> - 1" "pending st = []" "partial_message st = None" "\<not> terminated st"
    and "payload_SerializeToArray c request (payload_ByteSize c request) = Some body"
    and "GetServiceID (service_full_name method) = Inr sid" "m = call_meta c (next_seq st) method sid request"
    and "4 + length (meta_bytes c m) + length body < 2 ^ 32"
    and "server_ready sv" "\<not> terminated sv" "partial_message sv = None"
    and "serves c env (service_pool sv) (m, body) s q"
    and "serve env s (nat (sint (method_index method))) q = Some r" "sendable_response c m r rb"
    and "parses response rb"
    and "delivered_cleanly c [(m, body)] chunks" "delivered_cleanly c [(response_meta c m r, rb)] chunks'"
  shows "\<exists>st1 sv1 st2.
      issue_call c parses method request response done (length (frame_bytes c m body)) st = Inr st1
    \<and> writes st1 = writes st @ [frame_bytes c m body]
    \<and> read_pieces c (server_calls c env release) chunks sv = Inr sv1
    \<and> submitted_frames sv1 = submitted_frames sv @ [frame_bytes c (response_meta c m r) rb]
    \<and> read_pieces c (client_calls parses) chunks' st1 = Inr st2
    \<and> completed st2 = completed st @ [(next_seq st, done, rb)]"
proof -
  have len: "length body = payload_ByteSize c request" "length body < 2 ^ 32"
    using message_codec.payload [OF assms(1,7)] assms(10) by simp_all
  have ok: "frame_ok c m body"
    using assms(9,10) len unat_of_nat_u32 [OF len(2)] by (simp add: frame_ok_def)
  obtain d where d: "rd_meta d = Live m" "IsPending d" "deletable d"
    and issue: "issue_call c parses method request response done (length (frame_bytes c m body)) st
      = Inr (st\<lparr>heap := (heap st)(next_addr st \<mapsto> d), next_addr := next_addr st + 1,
          io := io st @ [Async_write (socket st) (frame_bytes c m body)],
          sessions := sessions st @ [(next_seq st, ClientSession_new (next_addr st) response done)],
          next_seq := next_seq st + 1\<rparr>)" (is "_ = Inr ?st1")
    using issue_call_result [OF assms(1-4,7-10)] by blast
  have seq: "md_seq m = next_seq st" by (simp add: assms(9))
  have ready: "client_ready ?st1"
    by (rule issued_client_ready [OF assms(2,3) d(1) seq d(3) assms(5)])
  have "map_find (next_seq st) (sessions ?st1) = Some (ClientSession_new (next_addr st) response done)"
    using std.find_entries [of "sessions ?st1"] ready by (simp add: client_ready_def sessions_ok_def)
  then have ans: "answers parses (\<lambda>_. done) ?st1 [(response_meta c m r, rb)]"
    using d(2) assms(17) response_frame_ok(2) [OF ok assms(16,1)] seq
    by (simp add: answers_def ClientSession_new_def session_addr_def)
  have atonce: "answered_at_once c env (service_pool sv) sv [(m, body)]"
    using assms(9,14,15) by (auto simp: answered_at_once_def)
  have frame: "response_frame c env (service_pool sv) (m, body) = frame_bytes c (response_meta c m r) rb"
    using assms(9,14-16) by (auto simp: response_frame_def serves_def sendable_response_def)
  obtain sv1 where "read_pieces c (server_calls c env release) chunks sv = Inr sv1"
    "submitted_frames sv1 = submitted_frames sv @ [frame_bytes c (response_meta c m r) rb]"
    using single_request [OF assms(1,11-13) atonce ok assms(18)] frame by auto
  moreover obtain st2 where "read_pieces c (client_calls parses) chunks' ?st1 = Inr st2"
    "completed st2 = completed ?st1 @ [completion_of (\<lambda>_. done) (response_meta c m r, rb)]"
    using single_answer [OF assms(1) ready _ _ ans response_frame_ok(1) [OF ok assms(16,1)] assms(19)] assms(5,6)
    by auto
  ultimately show ?thesis
    using issue response_frame_ok(2) [OF ok assms(16,1)] seq
    by (auto simp: completion_of_def writes_def)
qed

text \<open>An idle client and a server that echoes, under the identifier the name hashes to.\<close>

definition idle_client :: "(byte list, byte list) client_state" where
  "idle_client = waiting_client\<lparr>sessions := [], next_seq := 7\<rparr>"

lemma one_piece: "delivered_cleanly c [(m, body)] [frame_bytes c m body]"
  by (simp add: delivered_cleanly_def clean_cut_def split_header_def)

theorem call_round_trip_witness:
  "\<exists>sid st1 sv1 st2 F R.
      GetServiceID [] = Inr sid
    \<and> issue_call guide_codec (\<lambda>r b. True) \<lparr>method_index = 3, service_full_name = []\<rparr> [65] 10 20 (length F) idle_client
        = Inr st1
    \<and> read_pieces guide_codec (server_calls guide_codec echo_services Inr) [F] (echo_server\<lparr>service_pool := [(sid, 0)]\<rparr>)
        = Inr sv1
    \<and> read_pieces guide_codec (client_calls (\<lambda>r b. True)) [R] st1 = Inr st2 \<and> completed st2 = [(7, 20, [65])]"
proof -
  obtain sid where sid: "GetServiceID [] = Inr sid" using GetServiceID_ok by blast
  let ?mt = "\<lparr>method_index = 3, service_full_name = []\<rparr>"
  let ?m = "call_meta guide_codec 7 ?mt sid [65]" and ?sv = "echo_server\<lparr>service_pool := [(sid, 0)]\<rparr>"
  have bound: "length (meta_bytes guide_codec ?m) \<le> 44" by (rule guide_meta_bytes_bound) simp
  have "length (meta_bytes guide_codec (response_meta guide_codec ?m [65])) \<le> 44"
    by (rule guide_meta_bytes_bound) (simp add: response_meta_def meta_setters)
  then have send: "sendable_response guide_codec ?m [65] [65]"
    by (simp add: sendable_response_def guide_codec_def)
  then have "serves guide_codec echo_services (service_pool ?sv) (?m, [65]) 0 [65]"
    using exI [of "sendable_response guide_codec ?m [65]", OF send]
    by (auto simp: serves_def map_find_def echo_services_def)
  moreover have "sessions_ok idle_client" by (simp add: sessions_ok_def idle_client_def)
  moreover have "server_ready ?sv" by (simp add: server_ready_def queue_ok_def echo_server_def)
  moreover have "payload_SerializeToArray guide_codec [65] (payload_ByteSize guide_codec [65]) = Some [65]"
    "serve echo_services 0 (nat (sint (3 :: i32))) [65] = Some [65]"
    by (simp_all add: guide_codec_def echo_services_def)
  moreover have "next_seq idle_client = 7" "pending idle_client = []" "partial_message idle_client = None"
    "\<not> terminated idle_client" "completed idle_client = []" "\<not> terminated ?sv" "partial_message ?sv = None"
    by (simp_all add: idle_client_def waiting_client_def echo_server_def)
  ultimately have "\<exists>st1 sv1 st2.
      issue_call guide_codec (\<lambda>r b. True) ?mt [65] 10 20 (length (frame_bytes guide_codec ?m [65])) idle_client = Inr st1
    \<and> writes st1 = writes idle_client @ [frame_bytes guide_codec ?m [65]]
    \<and> read_pieces guide_codec (server_calls guide_codec echo_services Inr) [frame_bytes guide_codec ?m [65]] ?sv = Inr sv1
    \<and> submitted_frames sv1 = submitted_frames ?sv @ [frame_bytes guide_codec (response_meta guide_codec ?m [65]) [65]]
    \<and> read_pieces guide_codec (client_calls (\<lambda>r b. True)) [frame_bytes guide_codec (response_meta guide_codec ?m [65]) [65]] st1
        = Inr st2
    \<and> completed st2 = completed idle_client @ [(next_seq idle_client, 20, [65])]"
    using sid bound send
    by (intro call_round_trip [OF guide_messages.message_codec_axioms, where sid = sid and s = 0 and q = "[65]"])
      (simp_all add: one_piece)
  then show ?thesis
    using sid \<open>completed idle_client = []\<close> \<open>next_seq idle_client = 7\<close> by (metis append_Nil)
qed

end
