(* ===== verification/Rpc_Flow.thy ===== *)
theory Rpc_Flow
  imports Rpc_Calls
begin

text \<open>
  The two ends of a connection while calls are under way: a stream of messages of which a part
  is in the hands of the receiving channel and the rest on its way, the server that takes
  requests and sends or keeps the answers, and the client that waits for the answers to the
  calls it has written. Both ends are shown to be receivers in the sense of \<open>package_receiver\<close>
  with everything their operations keep: the order of the queue, the calls that are open and
  the answers that are owed.
\<close>

section \<open>A stream in transit\<close>

text \<open>
  A channel has taken \<open>p\<close> bytes of the first of the packages \<open>fs\<close>, and \<open>buf\<close> is what is still to come of them.
\<close>

definition carried ::
  "('u, 'm) rpc_codec \<Rightarrow> 'u package list \<Rightarrow> nat \<Rightarrow> ('u, 'm, 'z) channel_state_scheme \<Rightarrow> byte list \<Rightarrow> bool" where
  "carried c fs p st buf \<longleftrightarrow> at_stream c st fs p \<and> buf = drop p (stream_bytes c fs)"

text \<open>
  The channel holds a part of a header: the state in which the next read fails a check, as
  \<open>split_header_aborts\<close> shows.
\<close>

definition header_stored :: "('u, 'm) rpc_codec \<Rightarrow> ('u, 'm, 'z) channel_state_scheme \<Rightarrow> bool" where
  "header_stored c st =
     (case partial_message st of None \<Rightarrow> False
      | Some a \<Rightarrow> (case heap st a of None \<Rightarrow> False
        | Some d \<Rightarrow> rd_meta_size d \<noteq> 0 \<and> rd_payload_binaries d \<noteq> []
            \<and> (case rd_meta d of Live m \<Rightarrow> Meta_ByteSize (wire c) m = 0 | _ \<Rightarrow> False)))"

abbreviation package_frame :: "('u, 'm) rpc_codec \<Rightarrow> 'u package \<Rightarrow> byte list" where
  "package_frame c f \<equiv> frame_bytes c (fst f) (snd f)"

lemma stream_bytes_append [simp]: "stream_bytes c (fs @ gs) = stream_bytes c fs @ stream_bytes c gs"
  by (simp add: stream_bytes_def)

lemma stream_bytes_one: "stream_bytes c [f] = package_frame c f"
  by (cases f) simp

lemma carried_start: "partial_message st = None \<Longrightarrow> carried c [] 0 st []"
  by (simp add: carried_def at_stream_def)

lemma carried_pos: "carried c fs p st buf \<Longrightarrow> p \<le> length (stream_bytes c fs)"
  by (auto simp: carried_def at_stream_def split: if_splits list.splits)

lemma carried_append:
  assumes "carried c fs p st buf"
  shows "carried c (fs @ gs) p st (buf @ stream_bytes c gs)"
  using assms carried_pos [OF assms]
  by (auto simp: carried_def at_stream_def split: if_splits list.splits)

lemma carried_cong:
  assumes "carried c fs p st buf" "partial_message st' = partial_message st"
    "\<And>a. partial_message st = Some a \<Longrightarrow> heap st' a = heap st a"
  shows "carried c fs p st' buf"
  using assms by (auto simp: carried_def at_stream_def split: if_splits list.splits)

context message_codec
begin

lemma carried_clean:
  assumes "carried c fs p st buf" "\<And>f. f \<in> set fs \<Longrightarrow> frame_ok c (fst f) (snd f)" "\<not> header_stored c st"
  shows "clean_cut c fs p"
proof (cases fs)
  case (Cons f gs)
  obtain meta body where f: "f = (meta, body)" by fastforce
  have p: "p < length (frame_bytes c meta body)"
    using assms(1) by (auto simp: carried_def at_stream_def Cons f split: if_splits)
  have "\<not> split_header c meta p"
  proof
    assume split: "split_header c meta p"
    then have "p \<noteq> 0" by (simp add: split_header_def)
    then obtain a where a: "partial_message st = Some a" "heap st a = Some (received c meta body p)"
      using assms(1) by (auto simp: carried_def at_stream_def Cons f)
    have "length (meta_bytes c meta) < 2 ^ 32" using assms(2) [of f] by (simp add: Cons f frame_ok_def)
    moreover have "meta_bytes c meta \<noteq> []" using split by (auto simp: split_header_def)
    ultimately have "(of_nat (length (meta_bytes c meta)) :: u32) \<noteq> 0"
      by (simp add: word_of_nat_eq_0_iff nat_dvd_not_less)
    moreover have "take (p - 4) (meta_bytes c meta) \<noteq> []" using split by (auto simp: split_header_def)
    ultimately have "header_stored c st"
      using split by (simp add: header_stored_def a received_def split_header_def RPCData_new_def [of c])
    then show False using assms(3) by simp
  qed
  then show ?thesis using p by (simp add: clean_cut_def Cons f)
qed (simp add: clean_cut_def)

end

context package_receiver
begin

lemma read_carried:
  assumes "ready st" "\<not> terminated st" "acceptable st fs" "\<And>f. f \<in> set fs \<Longrightarrow> frame_ok c (fst f) (snd f)"
    "carried c fs p st buf" "\<not> header_stored c st"
  shows "\<exists>st' ds r q. ReadInLoop c calls False (take k buf) st = Inr st' \<and> fs = ds @ r
    \<and> consumes st ds r st' \<and> carried c r q st' (drop k buf)"
proof -
  let ?b = "take k buf"
  obtain ds r q where sp: "split_stream c fs (p + length ?b) = (ds, r, q)" by (metis prod_cases3)
  have buf: "buf = drop p (stream_bytes c fs)" "at_stream c st fs p" using assms(5) by (auto simp: carried_def)
  have "prefix ?b (drop p (stream_bytes c fs))" by (simp add: buf(1) take_is_prefix)
  then obtain st1 where st1: "read_loop c calls ?b st = Inr st1" "consumes st ds r st1" "at_stream c st1 r q"
    using read_piece [OF assms(1-4) buf(2) carried_clean [OF assms(5,4,6)] _ sp] by blast
  have fs: "fs = ds @ r" "p + length ?b = length (stream_bytes c ds) + q"
    using split_stream_append [OF sp] carried_pos [OF assms(5)] buf(1) by auto
  have "drop k buf = drop (length ?b) buf" by (simp add: min_def)
  also have "\<dots> = drop (p + length ?b) (stream_bytes c fs)" by (simp add: buf(1) add.commute)
  also have "\<dots> = drop q (stream_bytes c r)" unfolding fs(2) by (simp add: fs(1))
  finally have "carried c r q (StartToRead st1) (drop k buf)"
    using st1(3) by (auto simp: carried_def at_stream_def StartToRead_def do_io_def split: list.split if_splits)
  moreover have "consumes st ds r (StartToRead st1)"
    using st1(2) by (simp add: consumes_def ready_read delivered_read acceptable_read)
      (simp add: StartToRead_def do_io_def)
  ultimately show ?thesis using st1(1) assms(2) fs(1)
    by (intro exI [of _ "StartToRead st1"] exI [of _ ds] exI [of _ r] exI [of _ q]) (simp add: ReadInLoop_def)
qed

end

section \<open>The server's end\<close>

text \<open>What the service of a request answers at once; nothing when it keeps the closure.\<close>

definition reply_to ::
  "('u, 'm) rpc_codec \<Rightarrow> ('m, 'q) services \<Rightarrow> (u32, nat) std_map \<Rightarrow> 'u package \<Rightarrow> 'm option" where
  "reply_to c env known f =
     (case map_find (md_service_id (fst f)) known of None \<Rightarrow> None
      | Some s \<Rightarrow> (case parse_request env s (nat (sint (md_method_id (fst f)))) (snd f) of None \<Rightarrow> None
        | Some q \<Rightarrow> serve env s (nat (sint (md_method_id (fst f)))) q))"

text \<open>
  The frame of a response as a package, and the packages and the kept headers a sequence of
  requests leads to.
\<close>

definition response_package :: "('u, 'm) rpc_codec \<Rightarrow> 'u RPCMetaData \<Rightarrow> 'm \<Rightarrow> 'u package" where
  "response_package c meta r =
     (response_meta c meta r, the (payload_SerializeToArray c r (payload_ByteSize c r)))"

definition replies ::
  "('u, 'm) rpc_codec \<Rightarrow> ('m, 'q) services \<Rightarrow> (u32, nat) std_map \<Rightarrow> 'u package list \<Rightarrow> 'u package list" where
  "replies c env known fs =
     concat (map (\<lambda>f. case reply_to c env known f of None \<Rightarrow> [] | Some r \<Rightarrow> [response_package c (fst f) r]) fs)"

definition kept ::
  "('u, 'm) rpc_codec \<Rightarrow> ('m, 'q) services \<Rightarrow> (u32, nat) std_map \<Rightarrow> 'u package list \<Rightarrow> 'u RPCMetaData list" where
  "kept c env known fs = map fst (filter (\<lambda>f. reply_to c env known f = None) fs)"

lemma replies_append [simp]: "replies c env known (fs @ gs) = replies c env known fs @ replies c env known gs"
  by (simp add: replies_def)

lemma kept_append [simp]: "kept c env known (fs @ gs) = kept c env known fs @ kept c env known gs"
  by (simp add: kept_def)

text \<open>A response joins the end of the queue and leaves the rest of the server alone.\<close>

lemma SendResponse_queue:
  assumes "message_codec c" "server_ready st" "Meta_IsInitialized meta" "sendable_response c meta r bs"
    "queue_sends st subs n"
  shows "\<exists>st'. SendResponse c meta r st = Inr st' \<and> server_ready st'
    \<and> queue_sends st' (subs @ [package_frame c (response_package c meta r)]) n
    \<and> partial_message st' = partial_message st \<and> terminated st' = terminated st \<and> service_pool st' = service_pool st
    \<and> calls_made st' = calls_made st \<and> unanswered st' = unanswered st
    \<and> (\<forall>a. a \<noteq> next_addr st \<longrightarrow> heap st' a = heap st a)"
proof -
  let ?F = "frame_bytes c (response_meta c meta r) bs" and ?a = "next_addr st"
  obtain h i where hi: "let st' = st\<lparr>next_addr := ?a + 1, heap := h, io := i, pending := pending st @ [?a]\<rparr> in
      SendResponse c meta r st = Inr st' \<and> queue_ok st'
      \<and> writes st' = writes st @ (if pending st = [] then [?F] else [])
      \<and> frame_of st' ?a = ?F \<and> (\<forall>b. b \<noteq> ?a \<longrightarrow> h b = heap st b)"
    using SendResponse_result [OF assms(1-4)] by blast
  let ?st' = "st\<lparr>next_addr := ?a + 1, heap := h, io := i, pending := pending st @ [?a]\<rparr>"
  have F: "package_frame c (response_package c meta r) = ?F"
    using assms(4) by (simp add: response_package_def sendable_response_def)
  have same: "heap ?st' b = heap st b" if "b \<noteq> ?a" for b using hi that by (simp add: Let_def)
  have "?a \<notin> set (pending st)" using assms(2) by (auto simp: server_ready_def)
  then have "map (frame_of ?st') (pending st) = map (frame_of st) (pending st)"
    using hi by (intro map_cong [OF refl] frame_of_cong) (metis (no_types, lifting) same)
  moreover have "pending st = [] \<longleftrightarrow> length subs \<le> n"
    using assms(5) by (metis drop_eq_Nil map_is_Nil_conv queue_sends_def)
  ultimately have "queue_sends ?st' (subs @ [?F]) n"
    using assms(5) hi by (auto simp: queue_sends_def Let_def simp del: map_eq_conv)
  moreover have "server_ready ?st'"
    using assms(2) hi by (auto simp: server_ready_def Let_def less_Suc_eq)
  ultimately show ?thesis using hi F by (intro exI [of _ ?st']) (auto simp: Let_def)
qed

text \<open>
  The server after it took further requests: those called, answered and kept since are the
  ones it took, and all answers are in its queue or written.
\<close>

definition serving_since ::
  "('u, 'm) rpc_codec \<Rightarrow> ('m, 'q) services \<Rightarrow> (u32, nat) std_map \<Rightarrow> 'u package list \<Rightarrow> 'u RPCMetaData list \<Rightarrow>
     'u package list \<Rightarrow> nat \<Rightarrow> ('u, 'm, 'q, 'z) server_state_scheme \<Rightarrow> bool" where
  "serving_since c env known reqs un resp n st \<longleftrightarrow> server_ready st \<and> service_pool st = known
     \<and> (\<exists>ds. called st = reqs @ ds \<and> unanswered st = un @ kept c env known ds
          \<and> queue_sends st (map (package_frame c) (resp @ replies c env known ds)) n)"

text \<open>Requests for registered methods that their classes accept.\<close>

definition served :: "('u, 'm) rpc_codec \<Rightarrow> ('m, 'q) services \<Rightarrow> (u32, nat) std_map \<Rightarrow> 'u package list \<Rightarrow> bool" where
  "served c env known fs \<longleftrightarrow> (\<forall>f \<in> set fs. \<exists>s q. serves c env known f s q)"

lemma reply_to_serves:
  "serves c env known f s q \<Longrightarrow> reply_to c env known f = serve env s (nat (sint (md_method_id (fst f)))) q"
  by (auto simp: serves_def reply_to_def split: prod.splits)

lemma serving_receives:
  assumes "message_codec c" "serving_since c env known reqs un resp n st" "partial_message st = Some a"
    "frame_ok c meta body" "heap st a = Some (received c meta body (length (frame_bytes c meta body)))"
    "serves c env known (meta, body) s q"
  shows "\<exists>st'. CallMethod c env a st = Inr st' \<and> serving_since c env known reqs un resp n (st'\<lparr>partial_message := None\<rparr>)
    \<and> called st' = called st @ [(meta, body)] \<and> terminated st' = terminated st"
proof -
  let ?f = "(meta, body)" and ?st1 = "after_call (meta, body) s q a st"
  have st: "server_ready st" "service_pool st = known" using assms(2) by (auto simp: serving_since_def)
  obtain ds where ds: "called st = reqs @ ds" "unanswered st = un @ kept c env known ds"
    "queue_sends st (map (package_frame c) (resp @ replies c env known ds)) n"
    using assms(2) by (auto simp: serving_since_def)
  have ready: "server_ready ?st1" by (rule server_ready_after_call [OF st(1) assms(3)])
  have "a \<notin> set (pending st)" using st(1) assms(3) by (simp add: server_ready_def)
  then have q1: "queue_sends ?st1 (map (package_frame c) (resp @ replies c env known ds)) n"
    using ds(3) by (subst queue_sends_cong [of _ st]) (auto simp: after_call_def writes_def)
  have since: "serving_since c env known reqs un resp n (st'\<lparr>partial_message := None\<rparr>)"
    if "server_ready st'" "service_pool st' = known" "called st' = reqs @ ds @ [?f]"
      "unanswered st' = un @ kept c env known (ds @ [?f])"
      "queue_sends st' (map (package_frame c) (resp @ replies c env known (ds @ [?f]))) n" for st'
  proof -
    have "server_ready (st'\<lparr>partial_message := None\<rparr>)"
      by (rule server_ready_cong [OF that(1)]) simp_all
    moreover have "queue_sends (st'\<lparr>partial_message := None\<rparr>) subs n = queue_sends st' subs n" for subs
      by (rule queue_sends_cong) (simp_all add: writes_def)
    ultimately show ?thesis using that by (auto simp: serving_since_def called_def intro!: exI [of _ "ds @ [?f]"])
  qed
  note call = CallMethod_serves [OF assms(1,4,5), unfolded st(2), OF assms(6)]
  show ?thesis
  proof (cases "serve env s (nat (sint (md_method_id meta))) q")
    case None
    then have "replies c env known [?f] = []" "kept c env known [?f] = [meta]"
      using reply_to_serves [OF assms(6)] by (simp_all add: replies_def kept_def)
    moreover let ?st2 = "?st1\<lparr>unanswered := unanswered st @ [meta]\<rparr>"
    have "server_ready ?st2" by (rule server_ready_cong [OF ready]) simp_all
    moreover have "queue_sends ?st2 subs n = queue_sends ?st1 subs n" for subs
      by (rule queue_sends_cong) (simp_all add: writes_def)
    ultimately show ?thesis
      using None call since [of ?st2] q1 ds st by (auto simp: after_call_def called_def)
  next
    case (Some r)
    then have rk: "replies c env known [?f] = [response_package c meta r]" "kept c env known [?f] = []"
      using reply_to_serves [OF assms(6)] by (simp_all add: replies_def kept_def)
    obtain bs where "sendable_response c meta r bs" using assms(6) Some by (auto simp: serves_def)
    then obtain st' where st': "SendResponse c meta r ?st1 = Inr st'" "server_ready st'"
      "queue_sends st' (map (package_frame c) (resp @ replies c env known ds)
          @ [package_frame c (response_package c meta r)]) n"
      "terminated st' = terminated ?st1" "service_pool st' = service_pool ?st1"
      "calls_made st' = calls_made ?st1" "unanswered st' = unanswered ?st1"
      using SendResponse_queue [OF assms(1) ready _ _ q1, of meta r bs] assms(4) by (auto simp: frame_ok_def)
    then show ?thesis
      using Some call since [of st'] rk ds st by (auto simp: after_call_def called_def)
  qed
qed

lemma serving_since_updates:
  assumes "serving_since c env known reqs un resp n st"
  shows "partial_message st = None \<Longrightarrow> serving_since c env known reqs un resp n (snd (current_message c st))"
    and "partial_message st = Some a \<Longrightarrow> serving_since c env known reqs un resp n (store a d st)"
    and "serving_since c env known reqs un resp n (StartToRead st)"
proof -
  have st: "server_ready st" using assms by (simp add: serving_since_def)
  have keep: "serving_since c env known reqs un resp n st'"
    if "server_ready st'" "queue_sends st' = queue_sends st" "service_pool st' = service_pool st" "called st' = called st"
      "unanswered st' = unanswered st" for st'
    using that assms by (auto simp: serving_since_def)
  show "serving_since c env known reqs un resp n (snd (current_message c st))" if "partial_message st = None"
    using st that
    by (intro keep ext queue_sends_cong server_ready_updates)
      (auto simp: current_message_def allocate_def called_def writes_def server_ready_def)
  show "serving_since c env known reqs un resp n (store a d st)" if "partial_message st = Some a"
    using st that
    by (intro keep ext queue_sends_cong server_ready_updates) (auto simp: store_def called_def writes_def server_ready_def)
  show "serving_since c env known reqs un resp n (StartToRead st)"
    using st
    by (intro keep ext queue_sends_cong server_ready_updates) (auto simp: StartToRead_def do_io_def called_def writes_def)
qed

lemma serving_package_receiver:
  fixes c :: "('u, 'm) rpc_codec"
  assumes "message_codec c"
  shows "package_receiver c (server_calls c env release :: ('u, 'm, 'q, 'z) server_state_scheme channel_calls)
    (serving_since c env known reqs un resp n) (\<lambda>st. served c env known) called (\<lambda>f. f)"
proof (rule package_receiver.intro [OF assms], rule package_receiver_axioms.intro, goal_cases)
  case (1 st a meta body fs)
  then obtain s q where "serves c env known (meta, body) s q" by (auto simp: served_def)
  then show ?case
    using 1 serving_receives [OF assms, of env known reqs un resp n st a meta body s q]
    by (auto simp: server_calls_def called_def served_def)
qed (auto simp: serving_since_updates, auto simp: called_def current_message_def allocate_def store_def
  StartToRead_def do_io_def split: option.splits)

interpretation serving_stream: package_receiver guide_codec "server_calls guide_codec env release"
  "serving_since guide_codec env known reqs un resp n" "\<lambda>st. served guide_codec env known" called "\<lambda>f. f"
  for env release known reqs un resp n
  by (rule serving_package_receiver) (rule guide_messages.message_codec_axioms)

section \<open>The client's end\<close>

text \<open>
  A call as the client issued it: its request as a package, its response object and its
  closure. The list of all calls is indexed by their numbers.
\<close>

type_synonym 'u issued_call = "'u package \<times> nat \<times> nat"

abbreviation call_request :: "'u issued_call \<Rightarrow> 'u package" where "call_request k \<equiv> fst k"
abbreviation call_response :: "'u issued_call \<Rightarrow> nat" where "call_response k \<equiv> fst (snd k)"
abbreviation call_done :: "'u issued_call \<Rightarrow> nat" where "call_done k \<equiv> snd (snd k)"

text \<open>The numbers of the completed calls.\<close>

definition finished :: "('u, 'm, 'z) client_state_scheme \<Rightarrow> nat set" where
  "finished st = unat ` fst ` set (completed st)"

text \<open>
  The client with the issued calls \<open>ks\<close>, whose message objects are at \<open>addrs\<close>. Over its present socket go the
  calls whose numbers \<open>order\<close> lists, of which the first \<open>n\<close> are written, after the frames \<open>old\<close> over earlier
  sockets: the queue holds the others in order, every call that is not completed is saved under its number with
  its own response and closure, its object holds its frame, and the objects of the written ones are
  marked as handed to the kernel.
\<close>

definition awaiting ::
  "('u, 'm) rpc_codec \<Rightarrow> 'u issued_call list \<Rightarrow> byte list list \<Rightarrow> nat list \<Rightarrow> nat list \<Rightarrow> nat \<Rightarrow>
     ('u, 'm, 'z) client_state_scheme \<Rightarrow> bool" where
  "awaiting c ks old order addrs n st \<longleftrightarrow> client_ready st \<and> queue_ok st \<and> length ks < 2 ^ 64 \<and> next_seq st = of_nat (length ks)
     \<and> queue_sends st (old @ map (\<lambda>i. package_frame c (call_request (ks ! i))) order) (length old + n)
     \<and> distinct order \<and> set order \<subseteq> {..<length ks} \<and> n \<le> length order
     \<and> length addrs = length ks \<and> distinct addrs \<and> pending st = map ((!) addrs) (drop n order)
     \<and> (\<forall>a \<in> set addrs. a < next_addr st \<and> partial_message st \<noteq> Some a)
     \<and> finished st \<subseteq> {..<length ks} - set (drop n order)
     \<and> (\<forall>i < length ks. map_find (of_nat i) (sessions st) =
          (if i \<in> finished st then None
           else Some (ClientSession_new (addrs ! i) (call_response (ks ! i)) (call_done (ks ! i)))))
     \<and> (\<forall>i < length ks. i \<notin> finished st \<longrightarrow> frame_of st (addrs ! i) = package_frame c (call_request (ks ! i)))
     \<and> (\<forall>i \<in> set (take n order). i \<notin> finished st \<longrightarrow> (\<exists>d. heap st (addrs ! i) = Some d \<and> IsPending d))"

text \<open>Packages that the client can take: distinct answers to open calls that were written to the present socket.\<close>

definition answering ::
  "(nat \<Rightarrow> byte list \<Rightarrow> bool) \<Rightarrow> 'u issued_call list \<Rightarrow> nat list \<Rightarrow> ('u, 'm, 'z) client_state_scheme \<Rightarrow> 'u package list \<Rightarrow> bool" where
  "answering parses ks sent st fs \<longleftrightarrow> distinct (map (md_seq \<circ> fst) fs)
     \<and> (\<forall>(meta, body) \<in> set fs. unat (md_seq meta) \<in> set sent \<and> unat (md_seq meta) \<notin> finished st
          \<and> parses (call_response (ks ! unat (md_seq meta))) body)"

definition completion :: "'u issued_call list \<Rightarrow> 'u package \<Rightarrow> u64 \<times> nat \<times> byte list" where
  "completion ks f = (md_seq (fst f), call_done (ks ! unat (md_seq (fst f))), snd f)"

lemma awaitingI:
  assumes "client_ready st" "queue_ok st" "length ks < 2 ^ 64" "next_seq st = of_nat (length ks)"
    "queue_sends st (old @ map (\<lambda>i. package_frame c (call_request (ks ! i))) order) (length old + n)"
    "distinct order" "\<And>i. i \<in> set order \<Longrightarrow> i < length ks" "n \<le> length order"
    "length addrs = length ks" "distinct addrs" "pending st = map ((!) addrs) (drop n order)"
    "\<And>a. a \<in> set addrs \<Longrightarrow> a < next_addr st" "\<And>a. a \<in> set addrs \<Longrightarrow> partial_message st \<noteq> Some a"
    "\<And>i. i \<in> finished st \<Longrightarrow> i < length ks" "\<And>i. i \<in> finished st \<Longrightarrow> i \<notin> set (drop n order)"
    "\<And>i. i < length ks \<Longrightarrow> map_find (of_nat i) (sessions st) =
       (if i \<in> finished st then None
        else Some (ClientSession_new (addrs ! i) (call_response (ks ! i)) (call_done (ks ! i))))"
    "\<And>i. i < length ks \<Longrightarrow> i \<notin> finished st \<Longrightarrow> frame_of st (addrs ! i) = package_frame c (call_request (ks ! i))"
    "\<And>i. i \<in> set (take n order) \<Longrightarrow> i \<notin> finished st \<Longrightarrow> \<exists>d. heap st (addrs ! i) = Some d \<and> IsPending d"
  shows "awaiting c ks old order addrs n st"
  using assms unfolding awaiting_def by blast

lemma awaiting_bounds:
  assumes "awaiting c ks old order addrs n st"
  shows "n \<le> length order" "length addrs = length ks" "set order \<subseteq> {..<length ks}" "distinct order"
  using assms by (auto simp: awaiting_def)

lemma awaiting_queue:
  assumes "awaiting c ks old order addrs n st"
  shows "set (pending st) \<subseteq> set addrs"
  using assms by (auto simp: awaiting_def dest!: in_set_dropD)

lemma awaiting_at:
  assumes "awaiting c ks old order addrs n st" "i < length ks"
  shows "map_find (of_nat i) (sessions st) =
    (if i \<in> finished st then None
     else Some (ClientSession_new (addrs ! i) (call_response (ks ! i)) (call_done (ks ! i))))"
  using assms unfolding awaiting_def by blast

lemma awaiting_addrs:
  assumes "awaiting c ks old order addrs n st" "i < length ks" "j < length ks"
  shows "addrs ! i = addrs ! j \<longleftrightarrow> i = j"
  using assms by (simp add: awaiting_def nth_eq_iff_index_eq)

lemma awaiting_sent:
  assumes "awaiting c ks old order addrs n st" "i \<in> set (take n order)"
  shows "i < length ks" "i \<notin> set (drop n order)" "addrs ! i \<notin> set (pending st)"
proof -
  note b = awaiting_bounds [OF assms(1)]
  show lt: "i < length ks" using assms(2) b(3) by (auto dest: in_set_takeD)
  show notin: "i \<notin> set (drop n order)" using assms(2) set_take_disj_set_drop_if_distinct [OF b(4), of n n] by auto
  have "addrs ! i \<noteq> addrs ! j" if "j \<in> set (drop n order)" for j
    using that notin b(3) lt awaiting_addrs [OF assms(1), of i j] by (auto dest: in_set_dropD)
  moreover have "pending st = map ((!) addrs) (drop n order)" using assms(1) by (simp add: awaiting_def)
  ultimately show "addrs ! i \<notin> set (pending st)" by auto
qed

lemma awaiting_session:
  assumes "awaiting c ks old order addrs n st" "unat seq \<in> set (take n order)" "unat seq \<notin> finished st"
  defines "s \<equiv> ClientSession_new (addrs ! unat seq) (call_response (ks ! unat seq)) (call_done (ks ! unat seq))"
  shows "map_find seq (sessions st) = Some s" "session_addr s = addrs ! unat seq"
    "\<exists>d. heap st (addrs ! unat seq) = Some d \<and> IsPending d"
proof -
  show "map_find seq (sessions st) = Some s"
    using awaiting_at [OF assms(1) awaiting_sent(1) [OF assms(1,2)]] assms(3) by (simp add: s_def)
  show "session_addr s = addrs ! unat seq" by (simp add: s_def ClientSession_new_def session_addr_def)
  show "\<exists>d. heap st (addrs ! unat seq) = Some d \<and> IsPending d" using assms(1-3) by (simp add: awaiting_def)
qed

text \<open>
  An answer completes its call, frees both message objects and leaves the queue and the other calls alone.
\<close>

lemma awaiting_receives:
  assumes "message_codec c" "awaiting c ks old order addrs n st" "partial_message st = Some a" "frame_ok c meta body"
    "heap st a = Some (received c meta body (length (frame_bytes c meta body)))"
    "answering parses ks (take n order) st ((meta, body) # fs)"
  shows "\<exists>st'. ReceivePackage parses a st = Inr st' \<and> awaiting c ks old order addrs n (st'\<lparr>partial_message := None\<rparr>)
    \<and> completed st' = completed st @ [completion ks (meta, body)] \<and> terminated st' = terminated st
    \<and> answering parses ks (take n order) (st'\<lparr>partial_message := None\<rparr>) fs"
proof -
  let ?seq = "md_seq meta" and ?i = "unat (md_seq meta)" and ?d = "received c meta body (length (frame_bytes c meta body))"
  let ?s = "ClientSession_new (addrs ! ?i) (call_response (ks ! ?i)) (call_done (ks ! ?i))"
  have i: "?i \<in> set (take n order)" "?i \<notin> finished st" "parses (call_response (ks ! ?i)) body"
    using assms(6) by (auto simp: answering_def)
  note s = awaiting_session [OF assms(2) i(1,2)] and sent = awaiting_sent [OF assms(2) i(1)]
  have ready: "client_ready st" "sessions_ok st" using assms(2) by (auto simp: awaiting_def client_ready_def)
  have pre: "length addrs = length ks" "\<forall>b \<in> set addrs. b < next_addr st \<and> partial_message st \<noteq> Some b"
    using assms(2) by (auto simp: awaiting_def)
  have neq: "a \<noteq> addrs ! j" if "j < length ks" for j using pre assms(3) that by auto
  obtain e where e: "heap st (addrs ! ?i) = Some e" "IsPending e" using s(3) by blast
  have step: "ReceivePackage parses a st = Inr (st\<lparr>heap := (heap st)(addrs ! ?i := None, a := None),
      sessions := map_erase ?seq (sessions st), completed := completed st @ [(?seq, call_done (ks ! ?i), body)]\<rparr>)"
    (is "_ = Inr ?st'")
    using ReceivePackage_answer [of st a ?d meta body ?s parses e] ready(2) assms(4,5) s(1,2) e i(3) neq [OF sent(1)]
    by (simp add: ClientSession_new_def received_def Data_Meta_def MessageBinary_def frame_ok_def)
  let ?st2 = "?st'\<lparr>partial_message := None\<rparr>"
  have fin: "finished ?st2 = insert ?i (finished st)" by (auto simp: finished_def)
  have same: "heap ?st2 b = heap st b" if "b \<in> set (pending st)" for b
  proof -
    have "b \<noteq> a" using that awaiting_queue [OF assms(2)] pre(2) assms(3) by auto
    then show ?thesis using that sent(3) by auto
  qed
  have other: "heap ?st2 (addrs ! j) = heap st (addrs ! j)" if "j < length ks" "j \<notin> finished ?st2" for j
    using neq [OF that(1)] awaiting_addrs [OF assms(2) that(1) sent(1)] that(2) unfolding fin by simp
  have "awaiting c ks old order addrs n ?st2"
  proof (rule awaitingI)
    show "client_ready ?st2"
      using sessions_ok_erase [OF ready(2) s(1), of a] ready(1) assms(3) s(2) by (simp add: client_ready_def)
    show "queue_ok ?st2"
      using assms(2) same by (subst queue_ok_cong [of _ st]) (auto simp: awaiting_def)
    have "queue_sends ?st2 subs l = queue_sends st subs l" for subs l
      using same by (intro queue_sends_cong) (auto simp: writes_def)
    then show "queue_sends ?st2 (old @ map (\<lambda>i. package_frame c (call_request (ks ! i))) order) (length old + n)"
      using assms(2) by (simp add: awaiting_def)
  next
    fix j assume "j \<in> finished ?st2"
    then show "j < length ks" "j \<notin> set (drop n order)" using assms(2) sent unfolding fin by (auto simp: awaiting_def)
  next
    fix j assume j: "j < length ks"
    have "j < 2 ^ 64" using j assms(2) by (simp add: awaiting_def)
    then have "of_nat j = ?seq \<longleftrightarrow> j = ?i" using unat_of_nat_u64 [of j] by auto
    moreover have "map_ok (sessions st)" using ready(2) by (simp add: sessions_ok_def)
    ultimately show "map_find (of_nat j) (sessions ?st2) = (if j \<in> finished ?st2 then None
        else Some (ClientSession_new (addrs ! j) (call_response (ks ! j)) (call_done (ks ! j))))"
      using awaiting_at [OF assms(2) j] std.find_erase [of "sessions st" "of_nat j" ?seq] fin by auto
  next
    fix j assume j: "j < length ks" "j \<notin> finished ?st2"
    then show "frame_of ?st2 (addrs ! j) = package_frame c (call_request (ks ! j))"
      using assms(2) fin frame_of_cong [OF other [OF j]] by (simp add: awaiting_def)
  next
    fix j assume j: "j \<in> set (take n order)" "j \<notin> finished ?st2"
    then show "\<exists>d. heap ?st2 (addrs ! j) = Some d \<and> IsPending d"
      using assms(2) fin other [OF awaiting_sent(1) [OF assms(2) j(1)] j(2)] by (simp add: awaiting_def)
  qed (use assms(2) in \<open>auto simp: awaiting_def\<close>)
  moreover have "answering parses ks (take n order) ?st2 fs"
  proof -
    have new: "md_seq m \<noteq> ?seq" if "(m, b) \<in> set fs" for m b
      using assms(6) that by (force simp: answering_def)
    then have "unat (md_seq m) \<noteq> ?i" if "(m, b) \<in> set fs" for m b using that using word_unat_eq_iff by metis
    then show ?thesis using assms(6) unfolding answering_def fin by auto
  qed
  ultimately show ?thesis using step by (auto simp: completion_def)
qed

lemma awaiting_cong:
  assumes "awaiting c ks old order addrs n st" "client_ready st'" "pending st' = pending st" "writes st' = writes st"
    "next_seq st' = next_seq st" "next_addr st \<le> next_addr st'" "sessions st' = sessions st" "completed st' = completed st"
    "\<And>a. a \<in> set addrs \<Longrightarrow> heap st' a = heap st a \<and> partial_message st' \<noteq> Some a"
  shows "awaiting c ks old order addrs n st'"
proof -
  note bounds = awaiting_bounds [OF assms(1)]
  have same: "heap st' a = heap st a" if "a \<in> set (pending st)" for a using assms(9) awaiting_queue [OF assms(1)] that by blast
  have call: "heap st' (addrs ! i) = heap st (addrs ! i)" if "i < length ks" for i using that bounds(2) assms(9) by simp
  have fin: "finished st' = finished st" using assms(8) by (simp add: finished_def)
  show ?thesis
  proof (rule awaitingI)
    have "queue_sends st' subs l = queue_sends st subs l" for subs l using assms(3,4) same by (rule queue_sends_cong)
    then show "queue_sends st' (old @ map (\<lambda>i. package_frame c (call_request (ks ! i))) order) (length old + n)"
      using assms(1) by (simp add: awaiting_def)
    show "queue_ok st'"
      using assms(1,3) same by (subst queue_ok_cong [of _ st]) (auto simp: awaiting_def)
  next
    fix i assume "i < length ks" "i \<notin> finished st'"
    then show "frame_of st' (addrs ! i) = package_frame c (call_request (ks ! i))"
      using assms(1) fin frame_of_cong [OF call] by (simp add: awaiting_def)
  next
    fix i assume "i \<in> set (take n order)" "i \<notin> finished st'"
    then show "\<exists>d. heap st' (addrs ! i) = Some d \<and> IsPending d"
      using assms(1) fin call [OF awaiting_sent(1) [OF assms(1)]] by (simp add: awaiting_def)
  next
    fix a assume "a \<in> set addrs"
    then have "a < next_addr st" using assms(1) by (simp add: awaiting_def)
    then show "a < next_addr st'" using assms(6) by simp
  qed (use assms fin in \<open>auto simp: awaiting_def\<close>)
qed

lemma awaiting_package_receiver:
  fixes c :: "('u, 'm) rpc_codec"
  assumes "message_codec c"
  shows "package_receiver c (client_calls parses :: ('u, 'm, 'z) client_state_scheme channel_calls)
    (awaiting c ks old order addrs n) (answering parses ks (take n order)) completed (completion ks)"
proof (rule package_receiver.intro [OF assms], rule package_receiver_axioms.intro, goal_cases)
  case (1 st a meta body fs)
  then show ?case
    using awaiting_receives [OF assms, of ks old order addrs n st a meta body parses fs] by (auto simp: client_calls_def)
next
  case (2 st)
  have "client_ready (snd (current_message c st))"
    using 2 package_receiver.ready_begin [OF client_package_receiver [OF assms], of st] by (simp add: awaiting_def)
  then show ?case
    using 2 by (intro awaiting_cong [OF 2(1)])
      (auto simp: current_message_def allocate_def writes_def awaiting_def)
next
  case (3 st a d)
  have "client_ready (store a d st)"
    using 3 package_receiver.ready_store [OF client_package_receiver [OF assms], of st a d] by (simp add: awaiting_def)
  then show ?case
    using 3 by (intro awaiting_cong [OF 3(1)]) (auto simp: store_def writes_def awaiting_def)
next
  case (4 st)
  have "client_ready (StartToRead st)"
    using 4 package_receiver.ready_read [OF client_package_receiver [OF assms], of st] by (simp add: awaiting_def)
  then show ?case
    using 4 by (intro awaiting_cong [OF 4]) (auto simp: StartToRead_def do_io_def writes_def awaiting_def)
qed (auto simp: answering_def finished_def StartToRead_def do_io_def current_message_def allocate_def store_def)

interpretation awaiting_stream: package_receiver guide_codec "client_calls parses" "awaiting guide_codec ks old order addrs n"
  "answering parses ks (take n order)" completed "completion ks" for parses ks old order addrs n
  by (rule awaiting_package_receiver) (rule guide_messages.message_codec_axioms)

section \<open>Sending\<close>

lemma sessions_ok_marks:
  assumes "sessions_ok st" "sessions st' = sessions st" "next_seq st' = next_seq st" "next_addr st \<le> next_addr st'"
    "\<And>k s. (k, s) \<in> set (sessions st) \<Longrightarrow> heap st' (session_addr s) = heap st (session_addr s)
       \<or> (\<exists>d p. heap st (session_addr s) = Some d \<and> heap st' (session_addr s) = Some (d\<lparr>rd_is_pending := p\<rparr>))"
  shows "sessions_ok st'"
proof -
  have "\<exists>d m. heap st' (session_addr s) = Some d \<and> deletable d \<and> rd_meta d = Live m \<and> md_seq m = k"
    if ks: "(k, s) \<in> set (sessions st)" for k s
  proof -
    obtain d m where "heap st (session_addr s) = Some d" "deletable d" "rd_meta d = Live m" "md_seq m = k"
      using assms(1) ks by (fastforce simp: sessions_ok_def)
    then show ?thesis using assms(5) [OF ks] by auto
  qed
  then show ?thesis using assms(1-4) by (fastforce simp: sessions_ok_def)
qed

text \<open>Handling the completion of a write, at the client and at the server.\<close>

lemma awaiting_written:
  assumes "awaiting c ks old order addrs n st" "pending st \<noteq> []"
  shows "\<exists>st'. Written c (client_calls parses) False (length (last (writes st))) st = Inr st'
    \<and> awaiting c ks old order addrs (Suc n) st' \<and> n < length order
    \<and> last (writes st) = package_frame c (call_request (ks ! (order ! n)))
    \<and> completed st' = completed st \<and> terminated st' = terminated st \<and> partial_message st' = partial_message st
    \<and> closed_by_peer st' = closed_by_peer st \<and> (\<forall>a. a \<notin> set addrs \<longrightarrow> heap st' a = heap st a)"
proof -
  let ?subs = "old @ map (\<lambda>i. package_frame c (call_request (ks ! i))) order" and ?n = "length old + n"
  have ok: "queue_ok st" "queue_sends st ?subs ?n" "pending st = map ((!) addrs) (drop n order)" "client_ready st"
    using assms(1) by (auto simp: awaiting_def)
  note n = queue_sends_last [OF ok(2) assms(2)] and bounds = awaiting_bounds [OF assms(1)]
  have last: "n < length order" "last (writes st) = package_frame c (call_request (ks ! (order ! n)))"
    using n by (auto simp: nth_append)
  have drop: "drop n order = order ! n # drop (Suc n) order" using last(1) by (simp add: Cons_nth_drop_Suc)
  let ?rest = "map ((!) addrs) (drop (Suc n) order)"
  have pend: "pending st = addrs ! (order ! n) # ?rest" using ok(3) drop by simp
  have len: "length (last (writes st)) = length (frame_of st (addrs ! (order ! n)))" using n pend by simp
  have rec: "recycler (RecycleRPCData (client_calls parses :: ('a, 'b, 'c) client_state_scheme channel_calls))"
    using base.recycler_axioms by (simp add: client_calls_def)
  obtain h i where hi: "Written c (client_calls parses) False (length (last (writes st))) st
      = Inr (st\<lparr>heap := h, io := i, pending := ?rest\<rparr>)" (is "_ = Inr ?st'")
    "\<forall>b. b \<notin> set (pending st) \<longrightarrow> h b = heap st b"
    "\<forall>b \<in> set ?rest. \<exists>d p. heap st b = Some d \<and> h b = Some (d\<lparr>rd_is_pending := p\<rparr>)"
    "h (addrs ! (order ! n)) = heap st (addrs ! (order ! n))"
    using Written_shape [OF rec ok(1) pend, of c] unfolding len by (auto simp: client_calls_def)
  have wr: "writes st ! ?n = last (writes st)" "?n < length (writes st)"
    using ok(2) last assms(2) n(2) by (auto simp: queue_sends_def)
  have q: "queue_ok ?st' \<and> queue_sends ?st' ?subs (length old + Suc n)"
    using Written_ok [OF rec ok(1,2) wr(2), of c] hi(1) unfolding wr(1) by auto
  have marks: "h b = heap st b \<or> (\<exists>d p. heap st b = Some d \<and> h b = Some (d\<lparr>rd_is_pending := p\<rparr>))" for b
    using hi(2-4) pend by (cases "b \<in> set (pending st)") auto
  have frames: "frame_of ?st' b = frame_of st b" for b using marks [of b] by (auto simp: frame_of_def)
  have sent: "take (Suc n) order = take n order @ [order ! n]" using last(1) by (simp add: take_Suc_conv_app_nth)
  have fin: "finished ?st' = finished st" by (simp add: finished_def)
  have "awaiting c ks old order addrs (Suc n) ?st'"
  proof (rule awaitingI)
    show "client_ready ?st'"
      using ok(4) marks sessions_ok_marks [of st ?st'] by (simp add: client_ready_def)
  next
    fix j assume "j \<in> finished ?st'"
    then show "j \<notin> set (drop (Suc n) order)" "j < length ks" using assms(1) fin drop by (auto simp: awaiting_def)
  next
    fix j assume j: "j \<in> set (take (Suc n) order)" "j \<notin> finished ?st'"
    have "\<exists>d. heap st (addrs ! j) = Some d \<and> IsPending d \<and> h (addrs ! j) = heap st (addrs ! j)"
    proof (cases "j = order ! n")
      case True
      then show ?thesis using ok(1) pend hi(4) by (auto simp: queue_ok_def frame_of_def split: option.splits)
    next
      case False
      then have "j \<in> set (take n order)" using j(1) sent by simp
      then show ?thesis using j(2) fin assms(1) hi(2) awaiting_sent(3) [OF assms(1)] by (simp add: awaiting_def)
    qed
    then show "\<exists>d. heap ?st' (addrs ! j) = Some d \<and> IsPending d" by auto
  qed (use assms(1) q frames last(1) fin in \<open>auto simp: awaiting_def\<close>)
  then show ?thesis using hi(1,2) last awaiting_queue [OF assms(1)] by auto
qed

text \<open>Issuing a call: it is saved under the next number and its frame joins the queue.\<close>

definition call_package :: "('u, 'm) rpc_codec \<Rightarrow> u64 \<Rightarrow> method_descriptor \<Rightarrow> 'm \<Rightarrow> 'u package" where
  "call_package c seq method request =
     (case GetServiceID (service_full_name method) of
        Inl f \<Rightarrow> (RPCMetaData_new (wire c), [])
      | Inr sid \<Rightarrow> (call_meta c seq method sid request, the (payload_SerializeToArray c request (payload_ByteSize c request))))"

text \<open>A request that the codec can serialize behind a header.\<close>

definition sendable_call :: "('u, 'm) rpc_codec \<Rightarrow> u64 \<Rightarrow> method_descriptor \<Rightarrow> 'm \<Rightarrow> bool" where
  "sendable_call c seq method request \<longleftrightarrow> payload_SerializeToArray c request (payload_ByteSize c request) \<noteq> None
     \<and> length (package_frame c (call_package c seq method request)) < 2 ^ 32"

lemma call_package_ok:
  assumes "message_codec c" "sendable_call c seq method request"
  obtains sid body where "GetServiceID (service_full_name method) = Inr sid"
    "payload_SerializeToArray c request (payload_ByteSize c request) = Some body"
    "call_package c seq method request = (call_meta c seq method sid request, body)"
    "4 + length (meta_bytes c (call_meta c seq method sid request)) + length body < 2 ^ 32"
    "frame_ok c (call_meta c seq method sid request) body"
proof -
  obtain sid where sid: "GetServiceID (service_full_name method) = Inr sid" using GetServiceID_ok by blast
  obtain body where body: "payload_SerializeToArray c request (payload_ByteSize c request) = Some body"
    using assms(2) by (auto simp: sendable_call_def)
  have pkg: "call_package c seq method request = (call_meta c seq method sid request, body)"
    by (simp add: call_package_def sid body)
  then have len: "4 + length (meta_bytes c (call_meta c seq method sid request)) + length body < 2 ^ 32"
    using assms(2) by (simp add: sendable_call_def)
  moreover have "frame_ok c (call_meta c seq method sid request) body"
    using message_codec.payload [OF assms(1) body] len unat_of_nat_u32 [of "length body"] by (simp add: frame_ok_def)
  ultimately show thesis using sid body pkg by (intro that)
qed

lemma Client_SendInLoop_shape:
  assumes "message_codec c" "sessions_ok st" "queue_ok st" "next_seq st \<noteq> - 1"
    "\<forall>a \<in> set (pending st). a < next_addr st" "sendable_call c (next_seq st) method request"
  shows "\<exists>h i. let a = next_addr st; s = ClientSession_new a response done;
        st' = st\<lparr>next_addr := a + 1, sessions := sessions st @ [(next_seq st, s)], next_seq := next_seq st + 1,
          heap := h, io := i, pending := pending st @ [a]\<rparr> in
      Client_SendInLoop c method request response done st = Inr st' \<and> queue_ok st' \<and> sessions_ok st'
      \<and> (queue_sends st subs n \<longrightarrow>
          queue_sends st' (subs @ [package_frame c (call_package c (next_seq st) method request)]) n)
      \<and> (\<forall>b. b \<noteq> a \<longrightarrow> h b = heap st b)
      \<and> frame_of st' a = package_frame c (call_package c (next_seq st) method request)"
proof -
  let ?a = "next_addr st" and ?s = "ClientSession_new (next_addr st) response done"
  obtain sid body where pkg: "GetServiceID (service_full_name method) = Inr sid"
    "payload_SerializeToArray c request (payload_ByteSize c request) = Some body"
    "call_package c (next_seq st) method request = (call_meta c (next_seq st) method sid request, body)"
    "4 + length (meta_bytes c (call_meta c (next_seq st) method sid request)) + length body < 2 ^ 32"
    using call_package_ok [OF assms(1,6)] by metis
  let ?m = "call_meta c (next_seq st) method sid request" and ?F = "package_frame c (call_package c (next_seq st) method request)"
  obtain d where d: "RPCData_of c (Live ?m) (Live request) = Inr d" "rd_buffer d = Buffer ?F"
    using message_codec.ToBuffer_frame [OF assms(1) _ _ _ pkg(2,4)]
    by (auto simp: RPCData_of_def buffer_freed_def pkg(3))
  have "map_insert (next_seq st) ?s (sessions st) = (sessions st @ [(next_seq st, ?s)], True)"
    using assms(2) by (intro map_insert_last) (auto simp: sessions_ok_def)
  then have save: "SaveSession c method request response done st = Inr (?s, st\<lparr>heap := (heap st)(?a \<mapsto> d),
      next_addr := ?a + 1, sessions := sessions st @ [(next_seq st, ?s)], next_seq := next_seq st + 1\<rparr>)"
    (is "_ = Inr (_, ?st1)")
    using pkg(1) d(1) by (simp add: SaveSession_def allocate_def Let_def)
  have ok1: "sessions_ok ?st1" by (rule SaveSession_ok(1) [OF assms(2,4) save])
  have same: "heap ?st1 b = heap st b" if "b \<in> set (pending st)" for b using assms(5) that by auto
  have q1: "queue_ok ?st1"
    using assms(3) same by (auto simp: queue_ok_def sendable_def frame_of_def split: list.splits)
  have F: "frame_of ?st1 ?a = ?F" using d(2) by (simp add: frame_of_def)
  have s1: "sendable ?st1 ?a" "?a \<notin> set (pending ?st1)"
    using F RPCData_of_fields(3,4) [OF d(1)] assms(5) by (auto simp: sendable_def pkg(3) dest: arg_cong [of _ _ length])
  let ?next = "\<lambda>h i. ?st1\<lparr>heap := h, io := i, pending := pending ?st1 @ [?a]\<rparr>"
  obtain h i where hi: "SendInLoop c ?a ?st1 = Inr (?next h i)" "queue_ok (?next h i)" "\<forall>b. b \<noteq> ?a \<longrightarrow> h b = heap ?st1 b"
    "\<forall>e. heap ?st1 ?a = Some e \<longrightarrow> (\<exists>p. h ?a = Some (e\<lparr>rd_is_pending := p\<rparr>))"
    using SendInLoop_result [OF q1 s1, of c] by blast
  let ?st2 = "?next h i"
  have "queue_sends ?st2 (subs @ [?F]) n" if "queue_sends st subs n"
  proof -
    have "queue_sends ?st1 subs n" using that same by (subst queue_sends_cong [of _ st]) (auto simp: writes_def)
    then show ?thesis using SendInLoop_ok [OF q1 _ s1, of subs n c] hi(1) F by auto
  qed
  moreover have "sessions_ok ?st2"
    using hi(3,4) by (intro sessions_ok_marks [OF ok1]) auto
  moreover have "Client_SendInLoop c method request response done st = Inr ?st2"
    using hi(1) by (simp add: Client_SendInLoop_def save Session_Data_def ClientSession_new_def)
  moreover have "frame_of ?st2 ?a = ?F" using hi(4) d(2) by (auto simp: frame_of_def)
  ultimately show ?thesis using hi(2,3) by (intro exI [of _ h] exI [of _ i]) (simp add: Let_def)
qed

lemma awaiting_issues:
  assumes "message_codec c" "awaiting c ks old order addrs n st" "Suc (length ks) < 2 ^ 64"
    "sendable_call c (next_seq st) method request"
  shows "\<exists>st'. Client_SendInLoop c method request response done st = Inr st'
    \<and> awaiting c (ks @ [(call_package c (next_seq st) method request, response, done)]) old (order @ [length ks])
        (addrs @ [next_addr st]) n st'
    \<and> completed st' = completed st \<and> terminated st' = terminated st \<and> partial_message st' = partial_message st
    \<and> closed_by_peer st' = closed_by_peer st \<and> server_given st' = server_given st \<and> (\<forall>a. a \<noteq> next_addr st \<longrightarrow> heap st' a = heap st a)"
proof -
  let ?a = "next_addr st" and ?k = "(call_package c (next_seq st) method request, response, done)"
  let ?s = "ClientSession_new ?a response done" and ?F = "\<lambda>ks i. package_frame c (call_request (ks ! i))"
  have w: "client_ready st" "sessions_ok st" "queue_ok st" "next_seq st = of_nat (length ks)"
    "queue_sends st (old @ map (?F ks) order) (length old + n)"
    "length addrs = length ks" "distinct addrs" "pending st = map ((!) addrs) (drop n order)"
    "\<forall>a \<in> set addrs. a < ?a \<and> partial_message st \<noteq> Some a"
    using assms(2) by (auto simp: awaiting_def client_ready_def)
  note bounds = awaiting_bounds [OF assms(2)]
  have seq: "next_seq st \<noteq> - 1"
  proof
    assume "next_seq st = - 1"
    then have "unat (next_seq st) = 2 ^ 64 - 1" by (simp add: unsigned_minus_1_eq_mask mask_eq_exp_minus_1)
    then show False using assms(3) w(4) unat_of_nat_u64 [of "length ks"] by simp
  qed
  have "\<forall>b \<in> set (pending st). b < ?a" using awaiting_queue [OF assms(2)] w(9) by auto
  then obtain h i where hi: "let a = ?a; s = ?s;
        st' = st\<lparr>next_addr := a + 1, sessions := sessions st @ [(next_seq st, s)], next_seq := next_seq st + 1,
          heap := h, io := i, pending := pending st @ [a]\<rparr> in
      Client_SendInLoop c method request response done st = Inr st' \<and> queue_ok st' \<and> sessions_ok st'
      \<and> (queue_sends st (old @ map (?F ks) order) (length old + n) \<longrightarrow>
          queue_sends st' ((old @ map (?F ks) order) @ [package_frame c (call_request ?k)]) (length old + n))
      \<and> (\<forall>b. b \<noteq> a \<longrightarrow> h b = heap st b) \<and> frame_of st' a = package_frame c (call_request ?k)"
    using Client_SendInLoop_shape [OF assms(1) w(2,3) seq _ assms(4), of response "done" "old @ map (?F ks) order" "length old + n"] by auto
  let ?st' = "st\<lparr>next_addr := ?a + 1, sessions := sessions st @ [(next_seq st, ?s)], next_seq := next_seq st + 1,
      heap := h, io := i, pending := pending st @ [?a]\<rparr>"
  have st': "Client_SendInLoop c method request response done st = Inr ?st'" "queue_ok ?st'" "sessions_ok ?st'"
    "queue_sends ?st' ((old @ map (?F ks) order) @ [package_frame c (call_request ?k)]) (length old + n)"
    "\<forall>b. b \<noteq> ?a \<longrightarrow> h b = heap st b" "frame_of ?st' ?a = package_frame c (call_request ?k)"
    using hi w(5) by (simp_all add: Let_def)
  have fin: "finished ?st' = finished st" "finished st \<subseteq> {..<length ks} - set (drop n order)"
    using assms(2) by (simp_all add: finished_def awaiting_def)
  have fresh: "?a \<notin> set addrs" using w(9) by auto
  have at: "(addrs @ [?a]) ! j = addrs ! j" "(ks @ [?k]) ! j = ks ! j" "addrs ! j \<noteq> ?a" if "j < length ks" for j
    using that w(6) by (simp_all add: nth_append) (metis fresh nth_mem)
  have order: "i < length ks" if "i \<in> set order" for i using that bounds(3) by auto
  have subs: "map (?F (ks @ [?k])) order = map (?F ks) order" "map ((!) (addrs @ [?a])) (drop n order) = map ((!) addrs) (drop n order)"
    using order at by (auto dest: in_set_dropD)
  have "awaiting c (ks @ [?k]) old (order @ [length ks]) (addrs @ [?a]) n ?st'"
  proof (rule awaitingI)
    show "client_ready ?st'"
      using w(1) st'(3) by (auto simp: client_ready_def ClientSession_new_def session_addr_def)
    show "queue_sends ?st' (old @ map (?F (ks @ [?k])) (order @ [length ks])) (length old + n)"
      using st'(4) unfolding map_append subs(1) by simp
    show "pending ?st' = map ((!) (addrs @ [?a])) (drop n (order @ [length ks]))"
      using w(6,8) subs(2) bounds(1) by (simp add: nth_append)
    show "distinct (order @ [length ks])" using bounds(4) order by auto
  next
    fix j assume "j \<in> finished ?st'"
    then show "j \<notin> set (drop n (order @ [length ks]))" using fin bounds(1) by auto
  next
    fix j assume j: "j < length (ks @ [?k])"
    have "map_ok (sessions st @ [(next_seq st, ?s)])" using st'(3) by (simp add: sessions_ok_def)
    then have find: "map_find (of_nat j) (sessions ?st') = (if of_nat j = next_seq st then Some ?s else map_find (of_nat j) (sessions st))"
      by (simp add: map_find_last)
    have eq: "of_nat j = next_seq st \<longleftrightarrow> j = length ks"
      unfolding w(4) using j assms(3) by (intro of_nat_u64_inject) simp_all
    show "map_find (of_nat j) (sessions ?st') = (if j \<in> finished ?st' then None
        else Some (ClientSession_new ((addrs @ [?a]) ! j) (call_response ((ks @ [?k]) ! j)) (call_done ((ks @ [?k]) ! j))))"
    proof (cases "j = length ks")
      case True
      then show ?thesis using find eq fin w(6) by (auto simp: nth_append)
    next
      case False
      then have "j < length ks" using j by simp
      then show ?thesis using find eq fin(1) at False awaiting_at [OF assms(2), of j] by simp
    qed
    show "frame_of ?st' ((addrs @ [?a]) ! j) = package_frame c (call_request ((ks @ [?k]) ! j))" if "j \<notin> finished ?st'"
    proof (cases "j = length ks")
      case True
      then show ?thesis using st'(6) w(6) by (simp add: nth_append)
    next
      case False
      then have lt: "j < length ks" using j by simp
      have "frame_of ?st' (addrs ! j) = frame_of st (addrs ! j)" using at(3) [OF lt] st'(5) by (intro frame_of_cong) simp
      then show ?thesis using that fin(1) at [OF lt] lt assms(2) by (simp add: awaiting_def)
    qed
  next
    fix j assume j: "j \<in> set (take n (order @ [length ks]))" "j \<notin> finished ?st'"
    then have t: "j \<in> set (take n order)" using bounds(1) by simp
    show "\<exists>d. heap ?st' ((addrs @ [?a]) ! j) = Some d \<and> IsPending d"
      using t j(2) fin(1) at [OF awaiting_sent(1) [OF assms(2) t]] st'(5) assms(2) by (simp add: awaiting_def)
  next
    fix b assume "b \<in> set (addrs @ [?a])"
    then show "b < next_addr ?st'" "partial_message ?st' \<noteq> Some b"
      using w(1,9) by (auto simp: client_ready_def less_Suc_eq)
  qed (use w bounds st'(2) fin fresh assms(3) order in \<open>auto intro: less_SucI\<close>)
  then show ?thesis using st'(1,5) by auto
qed

lemma serving_written:
  assumes "server_ready st" "queue_sends st subs n" "pending st \<noteq> []"
  shows "\<exists>st'. Written c (server_calls c env release) False (length (last (writes st))) st = Inr st'
    \<and> server_ready st' \<and> queue_sends st' subs (Suc n) \<and> n < length subs \<and> last (writes st) = subs ! n
    \<and> called st' = called st \<and> unanswered st' = unanswered st \<and> service_pool st' = service_pool st
    \<and> terminated st' = terminated st \<and> partial_message st' = partial_message st
    \<and> (\<forall>a. partial_message st = Some a \<longrightarrow> heap st' a = heap st a)"
proof -
  note n = queue_sends_last [OF assms(2,3)]
  obtain a rest where pend: "pending st = a # rest" using assms(3) by (cases "pending st") auto
  have ok: "queue_ok st" using assms(1) by (simp add: server_ready_def)
  have rec: "recycler (RecycleRPCData (server_calls c env release :: ('a, 'b, 'c, 'd) server_state_scheme channel_calls))"
    using server.recycler_axioms by (simp add: server_calls_def)
  have len: "length (last (writes st)) = length (frame_of st a)" using n pend by simp
  obtain h i where hi: "Written c (server_calls c env release) False (length (last (writes st))) st
      = Inr (st\<lparr>heap := h, io := i, pending := rest\<rparr>)" (is "_ = Inr ?st'")
    and other: "\<forall>b. b \<notin> set (pending st) \<longrightarrow> h b = heap st b"
    using Written_shape [OF rec ok pend, of c] unfolding len by blast
  have wr: "writes st ! n = last (writes st)" "n < length (writes st)"
    using assms(2,3) n by (auto simp: queue_sends_def)
  have "queue_ok ?st' \<and> queue_sends ?st' subs (Suc n)"
    using Written_ok [OF rec ok assms(2) wr(2), of c] hi unfolding wr(1) by auto
  moreover from this have "server_ready ?st'" using assms(1) pend by (auto simp: server_ready_def)
  ultimately show ?thesis using hi other n assms(1) by (auto simp: called_def server_ready_def)
qed

section \<open>Reconnecting\<close>

text \<open>The calls that are not completed, in the order of their numbers, are those of the saved sessions.\<close>

definition open_calls :: "'u issued_call list \<Rightarrow> nat set \<Rightarrow> nat list" where
  "open_calls ks fin = filter (\<lambda>i. i \<notin> fin) [0..<length ks]"

lemma awaiting_sessions:
  assumes "awaiting c ks old order addrs n st"
  shows "map (unat \<circ> fst) (sessions st) = open_calls ks (finished st)"
    "map (session_addr \<circ> snd) (sessions st) = map ((!) addrs) (open_calls ks (finished st))"
proof -
  have ok: "sessions_ok st" "map_ok (sessions st)" "next_seq st = of_nat (length ks)" "length ks < 2 ^ 64"
    using assms by (auto simp: awaiting_def client_ready_def sessions_ok_def)
  have len: "unat (next_seq st) = length ks" using ok(3,4) unat_of_nat_u64 by simp
  have entry: "unat k < length ks \<and> unat k \<notin> finished st \<and> session_addr s = addrs ! unat k" if "(k, s) \<in> set (sessions st)" for k s
  proof -
    have lt: "unat k < length ks" using that ok(1) len by (auto simp: sessions_ok_def word_less_nat_alt)
    have "map_find (of_nat (unat k)) (sessions st) = Some s" using std.find_entries [OF ok(2), of k s] that by simp
    then show ?thesis using awaiting_at [OF assms lt] lt by (auto simp: ClientSession_new_def session_addr_def split: if_splits)
  qed
  have "set (map (unat \<circ> fst) (sessions st)) = set (open_calls ks (finished st))"
  proof -
    have "\<exists>s. (of_nat i, s) \<in> set (sessions st)" if "i < length ks" "i \<notin> finished st" for i
      using awaiting_at [OF assms that(1)] that(2) std.find_entries [OF ok(2)] by force
    moreover have "unat (of_nat i :: u64) = i" if "i < length ks" for i using that ok(4) unat_of_nat_u64 by simp
    ultimately show ?thesis using entry by (force simp: open_calls_def image_iff)
  qed
  moreover have "sorted_wrt (<) (map (unat \<circ> fst) (sessions st))"
    using ok(2) by (simp add: map_ok_def sorted_wrt_map word_less_nat_alt)
  ultimately show keys: "map (unat \<circ> fst) (sessions st) = open_calls ks (finished st)"
    by (intro strict_sorted_equal) (auto simp: open_calls_def intro: sorted_wrt_filter)
  show "map (session_addr \<circ> snd) (sessions st) = map ((!) addrs) (open_calls ks (finished st))"
    unfolding keys [symmetric] using entry by auto
qed

text \<open>
  A reconnection empties the queue and submits the open calls again, in the order of their numbers.
\<close>

lemma awaiting_reconnects:
  assumes "awaiting c ks old order addrs n st" "\<not> terminated st" "partial_message st = None"
  shows "\<exists>st'. Channel_Connected c parses s False st = Inr st'
    \<and> awaiting c ks (writes st) (open_calls ks (finished st)) addrs 0 st' \<and> completed st' = completed st
    \<and> \<not> terminated st' \<and> partial_message st' = None \<and> \<not> closed_by_peer st'"
proof -
  let ?order = "open_calls ks (finished st)" and ?F = "\<lambda>i. package_frame c (call_request (ks ! i))"
  note keys = awaiting_sessions [OF assms(1)]
  have ok: "client_ready st" "sessions_ok st" "length addrs = length ks" "distinct addrs"
    using assms(1) by (auto simp: awaiting_def client_ready_def)
  have order: "i < length ks" "i \<notin> finished st" if "i \<in> set ?order" for i using that by (auto simp: open_calls_def)
  have "frame_of st (addrs ! i) = ?F i" if "i \<in> set ?order" for i
    using order [OF that] assms(1) by (simp add: awaiting_def)
  then have frames: "map (frame_of st \<circ> session_addr \<circ> snd) (sessions st) = map ?F ?order"
    using arg_cong [OF keys(2), of "map (frame_of st)"] by (simp add: comp_assoc)
  have "\<forall>(k, t) \<in> set (sessions st). frame_of st (session_addr t) \<noteq> []"
  proof clarify
    fix k t assume "(k, t) \<in> set (sessions st)" "frame_of st (session_addr t) = []"
    then have "[] \<in> set (map (frame_of st \<circ> session_addr \<circ> snd) (sessions st))" by force
    then obtain i where "[] = ?F i" unfolding frames set_map by (elim imageE)
    then show False using frame_nonempty by metis
  qed
  then obtain st' h i where st': "st' = st\<lparr>heap := h, io := i, pending := map (session_addr \<circ> snd) (sessions st), socket := s,
      closed_by_peer := False\<rparr>"
    "Channel_Connected c parses s False st = Inr st'" "queue_ok st'" "frame_of st' = frame_of st"
    "writes st' = writes st @ take 1 (map (frame_of st \<circ> session_addr \<circ> snd) (sessions st))"
    "\<And>b. h b = heap st b \<or> (\<exists>d p. heap st b = Some d \<and> h b = Some (d\<lparr>rd_is_pending := p\<rparr>))"
    using Channel_Connected_resends [OF ok(2) assms(2)] by metis
  have fields: "sessions st' = sessions st" "next_seq st' = next_seq st" "next_addr st' = next_addr st"
    "partial_message st' = partial_message st" "pending st' = map ((!) addrs) ?order" "heap st' = h" "finished st' = finished st"
    using st'(1) keys(2) by (simp_all add: finished_def)
  have "awaiting c ks (writes st) ?order addrs 0 st'"
  proof (rule awaitingI)
    show "client_ready st'"
      using ok(1) st'(6) sessions_ok_marks [OF ok(2) fields(1,2)] unfolding client_ready_def fields by simp
    have "map (frame_of st') (pending st') = map (frame_of st) (map (session_addr \<circ> snd) (sessions st))"
      unfolding st'(4) keys(2) fields(5) ..
    then have "map (frame_of st') (pending st') = map ?F ?order" unfolding map_map comp_assoc [symmetric] frames .
    moreover have "pending st' = [] \<longleftrightarrow> ?order = []" unfolding fields(5) by simp
    ultimately show "queue_sends st' (writes st @ map ?F ?order) (length (writes st) + 0)"
      unfolding queue_sends_def st'(5) frames by (cases ?order) simp_all
  next
    fix j assume j: "j < length ks"
    show "map_find (of_nat j) (sessions st') = (if j \<in> finished st' then None
        else Some (ClientSession_new (addrs ! j) (call_response (ks ! j)) (call_done (ks ! j))))"
      unfolding fields by (rule awaiting_at [OF assms(1) j])
    show "frame_of st' (addrs ! j) = ?F j" if "j \<notin> finished st'"
      using that j assms(1) unfolding fields st'(4) by (simp add: awaiting_def)
  next
    fix j assume "j \<in> finished st'"
    then show "j < length ks" "j \<notin> set (drop 0 ?order)" using assms(1) order(2) unfolding fields by (auto simp: awaiting_def)
  next
    fix a assume "a \<in> set addrs"
    then show "a < next_addr st'" "partial_message st' \<noteq> Some a" unfolding fields using assms(1) by (simp_all add: awaiting_def)
  next
    show "next_seq st' = of_nat (length ks)" "length ks < 2 ^ 64" unfolding fields using assms(1) by (simp_all add: awaiting_def)
  next
    show "queue_ok st'" by (rule st'(3))
    show "pending st' = map ((!) addrs) (drop 0 ?order)" by (simp add: fields(5))
    show "distinct ?order" by (simp add: open_calls_def)
  qed (use ok(3,4) order(1) in simp_all)
  then show ?thesis using assms(2,3) st'(1,2) by auto
qed

end
