(* ===== verification/Rpc_Connection.thy ===== *)
theory Rpc_Connection
  imports Rpc_Flow "HOL-Library.Multiset"
begin

text \<open>
  A whole connection: a client, a server, and the bytes between them. The events are those that
  the loops of the two processes handle, in any order: a call is issued, a write or a read
  completes, a service runs a closure it kept, the connection breaks, the client connects anew.

  The bytes of a frame can be read once the completion of its write was handled. Whatever the
  server does earlier it can as well do later, so that this excludes only that the client
  handles an answer before it handles that its request was written, which is the fault
  of \<open>early_answer_dangles\<close>. After a break only the new channel of the server is followed: what a
  service answers over the old one is lost or, once that channel is deleted, the fault
  of \<open>answer_after_close_dangles\<close>. A write that fails changes nothing at the client, and is no event.
\<close>

section \<open>The connection\<close>

text \<open>
  The two processes, with the channel of the server for the present connection, the bytes on their way in both
  directions, and three histories that no event reads: the calls issued so far, indexed by their numbers,
  the responses that services gave later, and what was completed before the present connection was made.
\<close>

record ('u, 'm, 'q) connection =
  client_end :: "('u, 'm) client_state"
  server_end :: "('u, 'm, 'q) server_state"
  to_server :: "byte list"
  to_client :: "byte list"
  issued :: "'u issued_call list"
  late_answers :: "(u64 \<times> 'm) list"
  earlier :: "(u64 \<times> nat \<times> byte list) list"

datatype 'm connection_event =
    Issue method_descriptor 'm nat nat
  | Client_wrote
  | Server_reads nat
  | Server_answers nat 'm
  | Server_wrote
  | Client_reads nat
  | Client_breaks
  | Client_connects bool

text \<open>
  The server accepts a new connection: a new channel, whose objects are its own, of the same server.
\<close>

definition accepted_channel :: "('u, 'm, 'q) server_state \<Rightarrow> ('u, 'm, 'q) server_state" where
  "accepted_channel sv = StartToRead (RPCChannel_new (Suc (socket sv))
     (sv\<lparr>heap := Map.empty, next_addr := 0, io := [], calls_made := [], unanswered := []\<rparr>))"

text \<open>
  What an event does. A completed write reports the bytes of the frame it was given, a completed
  read brings the first \<open>k\<close> bytes on their way. When the connection breaks, a read of the client fails;
  an attempt to connect fails or gives a new connection, and what was on its way is lost.
\<close>

fun occurs ::
  "('u, 'm) rpc_codec \<Rightarrow> (nat \<Rightarrow> byte list \<Rightarrow> bool) \<Rightarrow> ('m, 'q) services \<Rightarrow> 'm connection_event \<Rightarrow>
     ('u, 'm, 'q) connection \<Rightarrow> ('u, 'm, 'q) connection result" where
  "occurs c parses env (Issue method request response done) cn =
     bind_result (Client_SendInLoop c method request response done (client_end cn)) (\<lambda>cl.
     Inr (cn\<lparr>client_end := cl,
       issued := issued cn @ [(call_package c (next_seq (client_end cn)) method request, response, done)]\<rparr>))"
| "occurs c parses env Client_wrote cn =
     (let frame = last (writes (client_end cn)) in
      bind_result (Written c (client_calls parses) False (length frame) (client_end cn)) (\<lambda>cl.
      Inr (cn\<lparr>client_end := cl, to_server := to_server cn @ frame\<rparr>)))"
| "occurs c parses env (Server_reads k) cn =
     bind_result (ReadInLoop c (server_calls c env Inr) False (take k (to_server cn)) (server_end cn)) (\<lambda>sv.
     Inr (cn\<lparr>server_end := sv, to_server := drop k (to_server cn)\<rparr>))"
| "occurs c parses env (Server_answers i response) cn =
     bind_result (RunKeptClosure c i response (server_end cn)) (\<lambda>sv.
     Inr (cn\<lparr>server_end := sv,
       late_answers := late_answers cn @ [(md_seq (unanswered (server_end cn) ! i), response)]\<rparr>))"
| "occurs c parses env Server_wrote cn =
     (let frame = last (writes (server_end cn)) in
      bind_result (Written c (server_calls c env Inr) False (length frame) (server_end cn)) (\<lambda>sv.
      Inr (cn\<lparr>server_end := sv, to_client := to_client cn @ frame\<rparr>)))"
| "occurs c parses env (Client_reads k) cn =
     bind_result (ReadInLoop c (client_calls parses) False (take k (to_client cn)) (client_end cn)) (\<lambda>cl.
     Inr (cn\<lparr>client_end := cl, to_client := drop k (to_client cn)\<rparr>))"
| "occurs c parses env Client_breaks cn =
     bind_result (ReadInLoop c (client_calls parses) True [] (client_end cn)) (\<lambda>cl. Inr (cn\<lparr>client_end := cl\<rparr>))"
| "occurs c parses env (Client_connects error) cn =
     bind_result (Channel_Connected c parses (next_socket (client_end cn) - 1) error (client_end cn)) (\<lambda>cl.
     Inr (if error then cn\<lparr>client_end := cl\<rparr>
       else cn\<lparr>client_end := cl, server_end := accepted_channel (server_end cn), to_server := [], to_client := [],
         earlier := completed (client_end cn)\<rparr>))"

text \<open>
  A response that can be serialized behind its header and that the response object of the call accepts.
\<close>

definition acceptable_reply ::
  "('u, 'm) rpc_codec \<Rightarrow> (nat \<Rightarrow> byte list \<Rightarrow> bool) \<Rightarrow> 'u issued_call \<Rightarrow> 'm \<Rightarrow> bool" where
  "acceptable_reply c parses k r =
     (case payload_SerializeToArray c r (payload_ByteSize c r) of None \<Rightarrow> False
      | Some bs \<Rightarrow> length (package_frame c (response_package c (fst (call_request k)) r)) < 2 ^ 32
          \<and> parses (call_response k) bs)"

text \<open>
  A request for a registered service and one of its methods, which the class of the request accepts.
\<close>

definition known_request :: "('m, 'q) services \<Rightarrow> (u32, nat) std_map \<Rightarrow> 'u package \<Rightarrow> bool" where
  "known_request env known f =
     (case map_find (md_service_id (fst f)) known of None \<Rightarrow> False
      | Some s \<Rightarrow> 0 \<le> sint (md_method_id (fst f)) \<and> sint (md_method_id (fst f)) < int (method_count env s)
          \<and> parse_request env s (nat (sint (md_method_id (fst f)))) (snd f) \<noteq> None)"

text \<open>What the user must keep to: calls of registered methods, and services whose answers fit.\<close>

definition good_call ::
  "('u, 'm) rpc_codec \<Rightarrow> (nat \<Rightarrow> byte list \<Rightarrow> bool) \<Rightarrow> ('m, 'q) services \<Rightarrow> (u32, nat) std_map \<Rightarrow> 'u issued_call \<Rightarrow> bool" where
  "good_call c parses env known k \<longleftrightarrow> known_request env known (call_request k)
     \<and> (case reply_to c env known (call_request k) of None \<Rightarrow> True | Some r \<Rightarrow> acceptable_reply c parses k r)"

text \<open>
  When an event can happen. No event is restricted in when it happens, except that no read
  completes while a part of a header is stored, and that the client connects again only with no part of
  a message stored (otherwise the bytes of the two connections are mixed, \<open>reconnection_mixes_messages\<close>).
\<close>

fun possible ::
  "('u, 'm) rpc_codec \<Rightarrow> (nat \<Rightarrow> byte list \<Rightarrow> bool) \<Rightarrow> ('m, 'q) services \<Rightarrow> 'm connection_event \<Rightarrow>
     ('u, 'm, 'q) connection \<Rightarrow> bool" where
  "possible c parses env (Issue method request response done) cn \<longleftrightarrow>
     Suc (length (issued cn)) < 2 ^ 64 \<and> sendable_call c (next_seq (client_end cn)) method request
     \<and> good_call c parses env (service_pool (server_end cn))
         (call_package c (next_seq (client_end cn)) method request, response, done)"
| "possible c parses env Client_wrote cn \<longleftrightarrow> pending (client_end cn) \<noteq> []"
| "possible c parses env (Server_reads k) cn \<longleftrightarrow> 0 < k \<and> k \<le> length (to_server cn) \<and> \<not> header_stored c (server_end cn)"
| "possible c parses env (Server_answers i response) cn \<longleftrightarrow> i < length (unanswered (server_end cn))
     \<and> acceptable_reply c parses (issued cn ! unat (md_seq (unanswered (server_end cn) ! i))) response"
| "possible c parses env Server_wrote cn \<longleftrightarrow> pending (server_end cn) \<noteq> []"
| "possible c parses env (Client_reads k) cn \<longleftrightarrow> 0 < k \<and> k \<le> length (to_client cn) \<and> \<not> header_stored c (client_end cn)
     \<and> \<not> closed_by_peer (client_end cn)"
| "possible c parses env Client_breaks cn \<longleftrightarrow> \<not> closed_by_peer (client_end cn)"
| "possible c parses env (Client_connects error) cn \<longleftrightarrow> closed_by_peer (client_end cn) \<and> server_given (client_end cn)
     \<and> (error \<or> partial_message (client_end cn) = None)"

text \<open>A new connection, with any services registered.\<close>

definition fresh_connection :: "('u, 'm, 'q) connection \<Rightarrow> bool" where
  "fresh_connection cn \<longleftrightarrow> sessions (client_end cn) = [] \<and> next_seq (client_end cn) = 0 \<and> completed (client_end cn) = []
     \<and> pending (client_end cn) = [] \<and> writes (client_end cn) = [] \<and> partial_message (client_end cn) = None
     \<and> \<not> terminated (client_end cn) \<and> \<not> closed_by_peer (client_end cn)
     \<and> map_ok (service_pool (server_end cn)) \<and> calls_made (server_end cn) = [] \<and> unanswered (server_end cn) = []
     \<and> pending (server_end cn) = [] \<and> writes (server_end cn) = [] \<and> partial_message (server_end cn) = None
     \<and> \<not> terminated (server_end cn)
     \<and> to_server cn = [] \<and> to_client cn = [] \<and> issued cn = [] \<and> late_answers cn = [] \<and> earlier cn = []"

inductive connected ::
  "('u, 'm) rpc_codec \<Rightarrow> (nat \<Rightarrow> byte list \<Rightarrow> bool) \<Rightarrow> ('m, 'q) services \<Rightarrow> ('u, 'm, 'q) connection \<Rightarrow> bool"
  for c parses env where
  fresh: "fresh_connection cn \<Longrightarrow> connected c parses env cn"
| event: "connected c parses env cn \<Longrightarrow> possible c parses env e cn \<Longrightarrow> occurs c parses env e cn = Inr cn' \<Longrightarrow>
    connected c parses env cn'"

section \<open>The invariant\<close>

abbreviation seq_of :: "'u package \<Rightarrow> u64" where "seq_of f \<equiv> md_seq (fst f)"

abbreviation numbers_of :: "(u64 \<times> 'a) list \<Rightarrow> nat set" where "numbers_of xs \<equiv> unat ` fst ` set xs"

abbreviation requests_of :: "'u issued_call list \<Rightarrow> nat list \<Rightarrow> 'u package list" where
  "requests_of ks is \<equiv> map (\<lambda>i. call_request (ks ! i)) is"

text \<open>The numbers of the calls that go over the present connection, in the order of their issue.\<close>

definition due :: "('u, 'm, 'q) connection \<Rightarrow> nat list" where
  "due cn = open_calls (issued cn) (numbers_of (earlier cn))"

text \<open>
  The calls of the server are the first of the written requests \<open>reqs\<close>; those that follow are on their way.
\<close>

definition request_flow ::
  "('u, 'm) rpc_codec \<Rightarrow> 'u package list \<Rightarrow> ('u, 'm, 'q, 'z) server_state_scheme \<Rightarrow> byte list \<Rightarrow> bool" where
  "request_flow c reqs sv buf \<longleftrightarrow> (\<exists>r p. reqs = called sv @ r \<and> carried c r p sv buf)"

text \<open>
  The calls completed over this connection are those of the first of the written responses \<open>resp\<close>; those
  that follow are on their way.
\<close>

definition response_flow ::
  "('u, 'm) rpc_codec \<Rightarrow> 'u issued_call list \<Rightarrow> (u64 \<times> nat \<times> byte list) list \<Rightarrow> 'u package list \<Rightarrow>
     ('u, 'm, 'z) client_state_scheme \<Rightarrow> byte list \<Rightarrow> bool" where
  "response_flow c ks before resp cl buf \<longleftrightarrow> (\<exists>ds r p. resp = ds @ r \<and> completed cl = before @ map (completion ks) ds
     \<and> carried c r p cl buf)"

text \<open>The response of the service to a request: the one it gave at once, or the one it gave later.\<close>

definition answer_for ::
  "('u, 'm) rpc_codec \<Rightarrow> ('m, 'q) services \<Rightarrow> (u32, nat) std_map \<Rightarrow> (u64 \<times> 'm) list \<Rightarrow> 'u package \<Rightarrow> 'm \<Rightarrow> bool" where
  "answer_for c env known late f r \<longleftrightarrow>
     (case reply_to c env known f of None \<Rightarrow> (seq_of f, r) \<in> set late | Some r' \<Rightarrow> r = r')"

definition answered ::
  "('u, 'm) rpc_codec \<Rightarrow> (nat \<Rightarrow> byte list \<Rightarrow> bool) \<Rightarrow> ('m, 'q) services \<Rightarrow> (u32, nat) std_map \<Rightarrow> (u64 \<times> 'm) list \<Rightarrow>
     'u issued_call \<Rightarrow> 'm \<Rightarrow> 'u package \<Rightarrow> bool" where
  "answered c parses env known late k r f \<longleftrightarrow> f = response_package c (fst (call_request k)) r
     \<and> acceptable_reply c parses k r \<and> answer_for c env known late (call_request k) r"

text \<open>A completed call ran its own closure with a response of its own service to its own request.\<close>

definition own_answer ::
  "('u, 'm) rpc_codec \<Rightarrow> ('m, 'q) services \<Rightarrow> (u32, nat) std_map \<Rightarrow> 'u issued_call list \<Rightarrow> (u64 \<times> 'm) list \<Rightarrow>
     u64 \<times> nat \<times> byte list \<Rightarrow> bool" where
  "own_answer c env known ks late e \<longleftrightarrow> (case e of (seq, closure, bytes) \<Rightarrow>
     unat seq < length ks \<and> closure = call_done (ks ! unat seq)
     \<and> (\<exists>r. answer_for c env known late (call_request (ks ! unat seq)) r
          \<and> payload_SerializeToArray c r (payload_ByteSize c r) = Some bytes))"

text \<open>Every call of the server is answered once or kept, and every response answers its own call.\<close>

definition matched ::
  "('u, 'm) rpc_codec \<Rightarrow> (nat \<Rightarrow> byte list \<Rightarrow> bool) \<Rightarrow> ('m, 'q) services \<Rightarrow> 'u issued_call list \<Rightarrow> (u64 \<times> 'm) list \<Rightarrow>
     ('u, 'm, 'q, 'z) server_state_scheme \<Rightarrow> 'u package list \<Rightarrow> bool" where
  "matched c parses env ks late sv resp \<longleftrightarrow>
     mset (map seq_of resp) + mset (map md_seq (unanswered sv)) = mset (map seq_of (called sv))
     \<and> (\<forall>m \<in> set (unanswered sv). \<exists>f \<in> set (called sv). fst f = m \<and> reply_to c env (service_pool sv) f = None)
     \<and> (\<forall>f \<in> set resp. unat (seq_of f) < length ks
          \<and> (\<exists>r. answered c parses env (service_pool sv) late (ks ! unat (seq_of f)) r f))"

definition good_calls ::
  "('u, 'm) rpc_codec \<Rightarrow> (nat \<Rightarrow> byte list \<Rightarrow> bool) \<Rightarrow> ('m, 'q) services \<Rightarrow> (u32, nat) std_map \<Rightarrow> 'u issued_call list \<Rightarrow> bool" where
  "good_calls c parses env known ks \<longleftrightarrow> length ks < 2 ^ 64
     \<and> (\<forall>i < length ks. good_call c parses env known (ks ! i) \<and> seq_of (call_request (ks ! i)) = of_nat i
          \<and> frame_ok c (fst (call_request (ks ! i))) (snd (call_request (ks ! i))))"

text \<open>
  The invariant, with the frames of earlier connections, the addresses of the message objects of the calls,
  and, over the present connection, the number of written calls, all responses and the number of written ones.
\<close>

definition connection_ok ::
  "('u, 'm) rpc_codec \<Rightarrow> (nat \<Rightarrow> byte list \<Rightarrow> bool) \<Rightarrow> ('m, 'q) services \<Rightarrow> byte list list \<Rightarrow> nat list \<Rightarrow> nat \<Rightarrow>
     'u package list \<Rightarrow> nat \<Rightarrow> ('u, 'm, 'q) connection \<Rightarrow> bool" where
  "connection_ok c parses env old addrs n resp m cn \<longleftrightarrow>
     awaiting c (issued cn) old (due cn) addrs n (client_end cn) \<and> \<not> terminated (client_end cn)
     \<and> server_ready (server_end cn) \<and> \<not> terminated (server_end cn)
     \<and> queue_sends (server_end cn) (map (package_frame c) resp) m
     \<and> request_flow c (requests_of (issued cn) (take n (due cn))) (server_end cn) (to_server cn)
     \<and> response_flow c (issued cn) (earlier cn) (take m resp) (client_end cn) (to_client cn)
     \<and> matched c parses env (issued cn) (late_answers cn) (server_end cn) resp
     \<and> good_calls c parses env (service_pool (server_end cn)) (issued cn)
     \<and> distinct (map fst (earlier cn))
     \<and> (\<forall>e \<in> set (earlier cn). own_answer c env (service_pool (server_end cn)) (issued cn) (late_answers cn) e)"

lemma connection_start:
  assumes "fresh_connection cn"
  shows "connection_ok c parses env [] [] 0 [] 0 cn"
proof -
  have due: "due cn = []" using assms by (simp add: due_def open_calls_def fresh_connection_def)
  have "awaiting c [] [] [] [] 0 (client_end cn)"
    by (rule awaitingI)
      (use assms in \<open>simp_all add: fresh_connection_def client_ready_def sessions_ok_def queue_ok_def queue_sends_def finished_def\<close>)
  then show ?thesis
    using assms carried_start [of "client_end cn" c] carried_start [of "server_end cn" c]
    by (auto simp: connection_ok_def due fresh_connection_def server_ready_def queue_ok_def queue_sends_def
        request_flow_def response_flow_def matched_def good_calls_def called_def)
qed

lemma connection_okD:
  assumes "connection_ok c parses env old addrs n resp m cn"
  shows "awaiting c (issued cn) old (due cn) addrs n (client_end cn)" "\<not> terminated (client_end cn)"
    "server_ready (server_end cn)" "\<not> terminated (server_end cn)" "queue_sends (server_end cn) (map (package_frame c) resp) m"
    "request_flow c (requests_of (issued cn) (take n (due cn))) (server_end cn) (to_server cn)"
    "response_flow c (issued cn) (earlier cn) (take m resp) (client_end cn) (to_client cn)"
    "matched c parses env (issued cn) (late_answers cn) (server_end cn) resp"
    "good_calls c parses env (service_pool (server_end cn)) (issued cn)"
    "distinct (map fst (earlier cn))"
    "\<forall>e \<in> set (earlier cn). own_answer c env (service_pool (server_end cn)) (issued cn) (late_answers cn) e"
  using assms by (simp_all add: connection_ok_def)

lemma due_calls:
  assumes "i \<in> set (due cn)"
  shows "i < length (issued cn)" "i \<notin> numbers_of (earlier cn)"
  using assms by (auto simp: due_def open_calls_def)

lemma good_call_serves:
  assumes "good_call c parses env known k"
  shows "\<exists>s q. serves c env known (call_request k) s q"
proof -
  obtain meta body where f: "call_request k = (meta, body)" by fastforce
  obtain s q where s: "map_find (md_service_id meta) known = Some s" "0 \<le> sint (md_method_id meta)"
    "sint (md_method_id meta) < int (method_count env s)"
    "parse_request env s (nat (sint (md_method_id meta))) body = Some q"
    using assms by (auto simp: good_call_def known_request_def f split: option.splits)
  have "\<exists>bs. sendable_response c meta r bs" if "serve env s (nat (sint (md_method_id meta))) q = Some r" for r
    using assms that s
    by (auto simp: good_call_def reply_to_def f acceptable_reply_def sendable_response_def response_package_def
        split: option.splits)
  then show ?thesis using s by (auto simp: serves_def f)
qed

lemma called_calls:
  assumes "request_flow c (requests_of ks is) sv buf" "f \<in> set (called sv)"
  obtains i where "i \<in> set is" "f = call_request (ks ! i)"
proof -
  have "f \<in> set (requests_of ks is)" using assms unfolding request_flow_def by (metis UnI1 set_append)
  then show thesis using that by auto
qed

lemma call_number:
  assumes "good_calls c parses env known ks" "i < length ks"
  shows "unat (seq_of (call_request (ks ! i))) = i"
  using assms unat_of_nat_u64 [of i] by (simp add: good_calls_def)

lemma call_numbers:
  assumes "good_calls c parses env known ks" "set is \<subseteq> {..<length ks}"
  shows "map (unat \<circ> seq_of) (requests_of ks is) = is"
  using assms call_number [OF assms(1)] by (induction "is") auto

lemma called_distinct:
  assumes "request_flow c (requests_of ks is) sv buf" "good_calls c parses env known ks" "set is \<subseteq> {..<length ks}" "distinct is"
  shows "distinct (map seq_of (called sv))"
proof -
  obtain r where "requests_of ks is = called sv @ r" using assms(1) by (auto simp: request_flow_def)
  then have "map (unat \<circ> seq_of) (called sv @ r) = is" using call_numbers [OF assms(2,3)] by simp
  then have "distinct (map (unat \<circ> seq_of) (called sv @ r))" using assms(4) by (simp only:)
  then show ?thesis by (simp add: distinct_map inj_on_def)
qed

lemma responses_distinct:
  assumes "request_flow c (requests_of ks is) sv buf" "good_calls c parses env known ks" "set is \<subseteq> {..<length ks}" "distinct is"
    "matched c parses env ks late sv resp"
  shows "distinct (map seq_of resp)" "f \<in> set resp \<Longrightarrow> unat (seq_of f) \<in> set is"
proof -
  have ms: "mset (map seq_of resp) + mset (map md_seq (unanswered sv)) = mset (map seq_of (called sv))"
    using assms(5) by (simp add: matched_def)
  then have "mset (map seq_of resp @ map md_seq (unanswered sv)) = mset (map seq_of (called sv))" by simp
  then have "distinct (map seq_of resp @ map md_seq (unanswered sv))"
    by (rule iffD2 [OF mset_eq_imp_distinct_iff called_distinct [OF assms(1-4)]])
  then show "distinct (map seq_of resp)" by simp
  show "unat (seq_of f) \<in> set is" if "f \<in> set resp"
  proof -
    have "seq_of f \<in># mset (map seq_of (called sv))" unfolding ms [symmetric] using that by simp
    then obtain g where g: "g \<in> set (called sv)" "seq_of f = seq_of g" by auto
    then obtain i where i: "i \<in> set is" "g = call_request (ks ! i)" using called_calls [OF assms(1)] by blast
    then show ?thesis using call_number [OF assms(2), of i] g(2) assms(3) by auto
  qed
qed

text \<open>The same for the present connection.\<close>

lemma connection_responses:
  assumes "connection_ok c parses env old addrs n resp m cn"
  shows "distinct (map seq_of resp)" "f \<in> set resp \<Longrightarrow> unat (seq_of f) \<in> set (take n (due cn))"
proof -
  note inv = connection_okD [OF assms] and bounds = awaiting_bounds [OF connection_okD(1) [OF assms]]
  have "set (take n (due cn)) \<subseteq> {..<length (issued cn)}" "distinct (take n (due cn))"
    using bounds(3,4) by (auto dest: in_set_takeD)
  note rs = responses_distinct [OF inv(6,9) this inv(8)]
  show "distinct (map seq_of resp)" by (rule rs(1))
  show "f \<in> set resp \<Longrightarrow> unat (seq_of f) \<in> set (take n (due cn))" by (rule rs(2))
qed

text \<open>
  Every event preserves the invariant, and the services that are registered; what is completed stays so.
\<close>

definition carries_over :: "('u, 'm, 'q) connection \<Rightarrow> ('u, 'm, 'q) connection \<Rightarrow> bool" where
  "carries_over cn cn' \<longleftrightarrow> service_pool (server_end cn') = service_pool (server_end cn)
     \<and> (\<exists>xs. completed (client_end cn') = completed (client_end cn) @ xs)"

lemma completion_append:
  "unat (seq_of f) < length ks \<Longrightarrow> completion (ks @ ks') f = completion ks f"
  by (simp add: completion_def nth_append)

lemma response_flow_cong:
  assumes "response_flow c ks before resp cl buf" "completed cl' = completed cl" "partial_message cl' = partial_message cl"
    "\<And>a. partial_message cl = Some a \<Longrightarrow> heap cl' a = heap cl a"
    "\<And>f. f \<in> set resp \<Longrightarrow> completion ks' f = completion ks f"
  shows "response_flow c ks' before resp cl' buf"
proof -
  obtain ds r p where f: "resp = ds @ r" "completed cl = before @ map (completion ks) ds" "carried c r p cl buf"
    using assms(1) by (auto simp: response_flow_def)
  have "map (completion ks') ds = map (completion ks) ds" using assms(5) f(1) by simp
  then show ?thesis
    using f assms(2) carried_cong [OF f(3) assms(3,4)] unfolding response_flow_def by metis
qed

lemma request_flow_cong:
  assumes "request_flow c reqs sv buf" "called sv' = called sv" "partial_message sv' = partial_message sv"
    "\<And>a. partial_message sv = Some a \<Longrightarrow> heap sv' a = heap sv a"
  shows "request_flow c reqs sv' buf"
  using assms(1,2) carried_cong [OF _ assms(3,4)] unfolding request_flow_def by metis

lemma request_flow_append:
  assumes "request_flow c reqs sv buf"
  shows "request_flow c (reqs @ [f]) sv (buf @ package_frame c f)"
  using assms carried_append [of c _ _ sv buf "[f]"] by (fastforce simp: request_flow_def stream_bytes_one)

lemma response_flow_append:
  assumes "response_flow c ks before resp cl buf"
  shows "response_flow c ks before (resp @ [f]) cl (buf @ package_frame c f)"
  using assms carried_append [of c _ _ cl buf "[f]"] by (fastforce simp: response_flow_def stream_bytes_one)

lemma matched_answer:
  assumes "matched c parses env ks late sv resp" "f \<in> set resp"
  obtains r where "unat (seq_of f) < length ks" "answered c parses env (service_pool sv) late (ks ! unat (seq_of f)) r f"
  using assms unfolding matched_def by blast

lemma matched_mono:
  assumes "matched c parses env ks late sv resp" "set late \<subseteq> set late'" "called sv' = called sv"
    "unanswered sv' = unanswered sv" "service_pool sv' = service_pool sv"
  shows "matched c parses env (ks @ ks') late' sv' resp"
proof -
  have "unat (seq_of f) < length (ks @ ks')
      \<and> (\<exists>r. answered c parses env (service_pool sv) late' ((ks @ ks') ! unat (seq_of f)) r f)" if f: "f \<in> set resp" for f
  proof -
    obtain r where r: "unat (seq_of f) < length ks"
      "answered c parses env (service_pool sv) late (ks ! unat (seq_of f)) r f"
      using matched_answer [OF assms(1) f] .
    then have "answered c parses env (service_pool sv) late' (ks ! unat (seq_of f)) r f"
      using assms(2) by (auto simp: answered_def answer_for_def split: option.splits)
    then show ?thesis using r(1) by (auto simp: nth_append)
  qed
  then show ?thesis using assms(1) unfolding matched_def assms(3-5) by blast
qed

lemma own_answer_mono:
  assumes "own_answer c env known ks late e" "set late \<subseteq> set late'"
  shows "own_answer c env known (ks @ ks') late' e"
proof -
  obtain seq closure bytes where e: "e = (seq, closure, bytes)" by (metis surj_pair)
  obtain r where r: "answer_for c env known late (call_request (ks ! unat seq)) r"
    "payload_SerializeToArray c r (payload_ByteSize c r) = Some bytes" "unat seq < length ks" "closure = call_done (ks ! unat seq)"
    using assms(1) by (auto simp: own_answer_def e)
  have "answer_for c env known late' (call_request (ks ! unat seq)) r"
    using r(1) assms(2) by (auto simp: answer_for_def split: option.splits)
  then show ?thesis using r(2-4) by (auto simp: own_answer_def e nth_append)
qed

lemma partial_elsewhere:
  assumes "awaiting c ks old order addrs n cl" "partial_message cl = Some a"
  shows "a < next_addr cl" "a \<notin> set addrs"
  using assms by (auto simp: awaiting_def client_ready_def)

text \<open>What is completed, before and over the present connection.\<close>

lemma answered_bytes:
  "answered c parses env known late k r f \<Longrightarrow> payload_SerializeToArray c r (payload_ByteSize c r) = Some (snd f)"
  by (auto simp: answered_def acceptable_reply_def response_package_def split: option.splits)

lemma completed_answers:
  assumes "connection_ok c parses env old addrs n resp m cn"
  shows "distinct (map fst (completed (client_end cn)))"
    "\<forall>e \<in> set (completed (client_end cn)). own_answer c env (service_pool (server_end cn)) (issued cn) (late_answers cn) e"
proof -
  let ?ks = "issued cn"
  note inv = connection_okD [OF assms] and resp = connection_responses [OF assms]
  obtain ds r where comp: "take m resp = ds @ r" "completed (client_end cn) = earlier cn @ map (completion ?ks) ds"
    using inv(7) by (auto simp: response_flow_def)
  have ds: "f \<in> set resp" if "f \<in> set ds" for f
    using that comp(1) by (metis UnCI in_set_takeD set_append)
  have dist: "distinct (map seq_of (ds @ r))" using distinct_take [OF resp(1), of m] comp(1) by (simp add: take_map)
  have new: "seq_of f \<notin> fst ` set (earlier cn)" if "f \<in> set ds" for f
    using due_calls(2) [OF in_set_takeD [OF resp(2) [OF ds [OF that]]]] by (metis imageI)
  have "x \<notin> set (map fst (earlier cn))" if x: "x \<in> set (map seq_of ds)" for x
  proof -
    obtain f where "f \<in> set ds" "x = seq_of f" using x unfolding set_map by (rule imageE)
    then show ?thesis using new [of f] by (simp only: set_map not_False_eq_True)
  qed
  then have "set (map fst (earlier cn)) \<inter> set (map seq_of ds) = {}" by blast
  moreover have "map fst (completed (client_end cn)) = map fst (earlier cn) @ map seq_of ds" unfolding comp(2) by (simp add: completion_def)
  ultimately show "distinct (map fst (completed (client_end cn)))" using inv(10) dist by simp
  have "own_answer c env (service_pool (server_end cn)) ?ks (late_answers cn) (completion ?ks f)" if f: "f \<in> set ds" for f
  proof -
    obtain rr where rr: "unat (seq_of f) < length ?ks"
      "answered c parses env (service_pool (server_end cn)) (late_answers cn) (?ks ! unat (seq_of f)) rr f"
      using matched_answer [OF inv(8) ds [OF f]] .
    then show ?thesis using answered_bytes [OF rr(2)] by (auto simp: own_answer_def completion_def answered_def)
  qed
  then show "\<forall>e \<in> set (completed (client_end cn)). own_answer c env (service_pool (server_end cn)) ?ks (late_answers cn) e"
    using inv(11) unfolding comp(2) by auto
qed

lemma due_issue:
  assumes "\<forall>e \<in> set (earlier cn). own_answer c env known (issued cn) late e"
  shows "due (cn\<lparr>client_end := cl, issued := issued cn @ [k]\<rparr>) = due cn @ [length (issued cn)]"
proof -
  have "length (issued cn) \<notin> numbers_of (earlier cn)" using assms by (force simp: own_answer_def)
  then show ?thesis by (simp add: due_def open_calls_def)
qed

lemma issue_ok:
  assumes "message_codec c" "connection_ok c parses env old addrs n resp m cn"
    "possible c parses env (Issue method request response done) cn"
  shows "\<exists>cn'. occurs c parses env (Issue method request response done) cn = Inr cn'
    \<and> connection_ok c parses env old (addrs @ [next_addr (client_end cn)]) n resp m cn' \<and> carries_over cn cn'"
proof -
  let ?cl = "client_end cn" and ?k = "(call_package c (next_seq (client_end cn)) method request, response, done)"
  note inv = connection_okD [OF assms(2)] and bounds = awaiting_bounds [OF connection_okD(1) [OF assms(2)]]
  have p: "Suc (length (issued cn)) < 2 ^ 64" "sendable_call c (next_seq ?cl) method request"
    "good_call c parses env (service_pool (server_end cn)) ?k"
    using assms(3) by simp_all
  obtain cl where cl: "Client_SendInLoop c method request response done ?cl = Inr cl"
    "awaiting c (issued cn @ [?k]) old (due cn @ [length (issued cn)]) (addrs @ [next_addr ?cl]) n cl" "completed cl = completed ?cl"
    "terminated cl = terminated ?cl" "partial_message cl = partial_message ?cl"
    "\<forall>a. a \<noteq> next_addr ?cl \<longrightarrow> heap cl a = heap ?cl a"
    using awaiting_issues [OF assms(1) inv(1) p(1,2)] by blast
  have "response_flow c (issued cn @ [?k]) (earlier cn) (take m resp) cl (to_client cn)"
  proof (rule response_flow_cong [OF inv(7) cl(3,5)])
    show "heap cl a = heap ?cl a" if "partial_message ?cl = Some a" for a
      using cl(6) partial_elsewhere(1) [OF inv(1) that] by simp
    show "completion (issued cn @ [?k]) f = completion (issued cn) f" if "f \<in> set (take m resp)" for f
      using inv(8) in_set_takeD [OF that] by (intro completion_append) (auto simp: matched_def)
  qed
  moreover have "good_calls c parses env (service_pool (server_end cn)) (issued cn @ [?k])"
  proof -
    have "next_seq ?cl = of_nat (length (issued cn))" using inv(1) by (simp add: awaiting_def)
    moreover obtain sid body where "call_package c (next_seq ?cl) method request
        = (call_meta c (next_seq ?cl) method sid request, body)"
      "frame_ok c (call_meta c (next_seq ?cl) method sid request) body"
      using call_package_ok [OF assms(1) p(2)] by metis
    ultimately show ?thesis using inv(9) p(1,3) by (auto simp: good_calls_def nth_append less_Suc_eq)
  qed
  moreover have "matched c parses env (issued cn @ [?k]) (late_answers cn) (server_end cn) resp"
    by (rule matched_mono [OF inv(8)]) simp_all
  moreover have "requests_of (issued cn @ [?k]) (take n (due cn @ [length (issued cn)])) = requests_of (issued cn) (take n (due cn))"
    using bounds(1,3) by (auto simp: nth_append dest!: in_set_takeD)
  moreover have "own_answer c env (service_pool (server_end cn)) (issued cn @ [?k]) (late_answers cn) e" if "e \<in> set (earlier cn)" for e
    using own_answer_mono [of c env _ "issued cn" "late_answers cn" e "late_answers cn" "[?k]"] inv(11) that by blast
  ultimately show ?thesis
    using cl inv(2-6,10) unfolding connection_ok_def by (simp add: due_issue [OF inv(11)] carries_over_def)
qed

lemma client_wrote_ok:
  assumes "connection_ok c parses env old addrs n resp m cn" "possible c parses env Client_wrote cn"
  shows "\<exists>cn'. occurs c parses env Client_wrote cn = Inr cn' \<and> connection_ok c parses env old addrs (Suc n) resp m cn'
    \<and> carries_over cn cn'"
proof -
  let ?cl = "client_end cn" and ?sv = "server_end cn"
  note inv = connection_okD [OF assms(1)]
  obtain cl where cl: "Written c (client_calls parses) False (length (last (writes ?cl))) ?cl = Inr cl"
    "awaiting c (issued cn) old (due cn) addrs (Suc n) cl" "n < length (due cn)"
    "last (writes ?cl) = package_frame c (call_request (issued cn ! (due cn ! n)))" "completed cl = completed ?cl"
    "terminated cl = terminated ?cl" "partial_message cl = partial_message ?cl" "\<forall>a. a \<notin> set addrs \<longrightarrow> heap cl a = heap ?cl a"
    using awaiting_written [OF inv(1), of parses] assms(2) by auto
  have "response_flow c (issued cn) (earlier cn) (take m resp) cl (to_client cn)"
    using cl(8) partial_elsewhere(2) [OF inv(1)] by (intro response_flow_cong [OF inv(7) cl(5,7)]) auto
  moreover have "request_flow c (requests_of (issued cn) (take (Suc n) (due cn))) ?sv (to_server cn @ last (writes ?cl))"
    using request_flow_append [OF inv(6), of "call_request (issued cn ! (due cn ! n))"] cl(3,4)
    by (simp add: take_Suc_conv_app_nth)
  ultimately show ?thesis using cl inv by (auto simp: connection_ok_def due_def carries_over_def Let_def)
qed

lemma server_wrote_ok:
  assumes "connection_ok c parses env old addrs n resp m cn" "possible c parses env Server_wrote cn"
  shows "\<exists>cn'. occurs c parses env Server_wrote cn = Inr cn' \<and> connection_ok c parses env old addrs n resp (Suc m) cn'
    \<and> carries_over cn cn'"
proof -
  let ?cl = "client_end cn" and ?sv = "server_end cn"
  note inv = connection_okD [OF assms(1)]
  obtain sv where sv: "Written c (server_calls c env Inr) False (length (last (writes ?sv))) ?sv = Inr sv"
    "server_ready sv" "queue_sends sv (map (package_frame c) resp) (Suc m)" "m < length resp"
    "last (writes ?sv) = package_frame c (resp ! m)" "called sv = called ?sv" "unanswered sv = unanswered ?sv"
    "service_pool sv = service_pool ?sv" "terminated sv = terminated ?sv" "partial_message sv = partial_message ?sv"
    "\<forall>a. partial_message ?sv = Some a \<longrightarrow> heap sv a = heap ?sv a"
    using serving_written [OF inv(3,5), of c env Inr] assms(2) by auto
  have "request_flow c (requests_of (issued cn) (take n (due cn))) sv (to_server cn)"
    using sv(11) by (intro request_flow_cong [OF inv(6) sv(6,10)]) simp
  moreover have "matched c parses env (issued cn) (late_answers cn) sv resp"
    using matched_mono [OF inv(8), of "late_answers cn" sv "[]"] sv by simp
  moreover have "response_flow c (issued cn) (earlier cn) (take (Suc m) resp) ?cl (to_client cn @ last (writes ?sv))"
    using response_flow_append [OF inv(7), of "resp ! m"] sv(4,5) by (simp add: take_Suc_conv_app_nth)
  ultimately show ?thesis using sv inv by (auto simp: connection_ok_def due_def carries_over_def Let_def)
qed

lemma seq_of_response [simp]: "seq_of (response_package c meta r) = md_seq meta"
  by (simp add: response_package_def response_meta_def meta_setters)

lemma replies_kept_seqs:
  "mset (map seq_of (replies c env known fs)) + mset (map md_seq (kept c env known fs)) = mset (map seq_of fs)"
proof (induction fs)
  case (Cons f fs)
  then show ?case
    by (cases "reply_to c env known f") (auto simp: replies_def kept_def)
qed (simp add: replies_def kept_def)

lemma replies_from:
  "g \<in> set (replies c env known fs) \<Longrightarrow>
     \<exists>f r. f \<in> set fs \<and> reply_to c env known f = Some r \<and> g = response_package c (fst f) r"
  unfolding replies_def by (auto split: option.split_asm) (metis fst_conv)

lemma kept_from:
  "meta \<in> set (kept c env known fs) \<Longrightarrow> \<exists>f. f \<in> set fs \<and> reply_to c env known f = None \<and> fst f = meta"
  by (auto simp: kept_def)

lemma acceptable_frame_ok:
  assumes "message_codec c" "frame_ok c (fst (call_request k)) (snd (call_request k))" "acceptable_reply c parses k r"
  shows "sendable_response c (fst (call_request k)) r (snd (response_package c (fst (call_request k)) r))"
    "frame_ok c (fst (response_package c (fst (call_request k)) r)) (snd (response_package c (fst (call_request k)) r))"
    "parses (call_response k) (snd (response_package c (fst (call_request k)) r))"
proof -
  let ?m = "fst (call_request k)"
  obtain bs where bs: "payload_SerializeToArray c r (payload_ByteSize c r) = Some bs" "parses (call_response k) bs"
    "length (package_frame c (response_package c ?m r)) < 2 ^ 32"
    using assms(3) by (auto simp: acceptable_reply_def split: option.splits)
  then show s: "sendable_response c ?m r (snd (response_package c ?m r))" "parses (call_response k) (snd (response_package c ?m r))"
    by (auto simp: sendable_response_def response_package_def)
  show "frame_ok c (fst (response_package c ?m r)) (snd (response_package c ?m r))"
    using response_frame_ok(1) [OF assms(2) s(1) assms(1)] by (simp add: response_package_def)
qed

lemma server_reads_ok:
  assumes "message_codec c" "connection_ok c parses env old addrs n resp m cn" "possible c parses env (Server_reads l) cn"
  shows "\<exists>cn' resp'. occurs c parses env (Server_reads l) cn = Inr cn' \<and> connection_ok c parses env old addrs n resp' m cn'
    \<and> carries_over cn cn'"
proof -
  let ?sv = "server_end cn" and ?ks = "issued cn" and ?reqs = "requests_of (issued cn) (take n (due cn))"
  let ?known = "service_pool (server_end cn)" and ?un = "unanswered (server_end cn)"
  note inv = connection_okD [OF assms(2)] and bounds = awaiting_bounds [OF connection_okD(1) [OF assms(2)]]
  note rec = serving_package_receiver [OF assms(1), where env = env and known = ?known and reqs = "called ?sv" and un = ?un
      and resp = resp and n = m and release = Inr]
  obtain fs p where p: "carried c fs p ?sv (to_server cn)" and reqs: "?reqs = called ?sv @ fs"
    using inv(6) by (auto simp: request_flow_def)
  have request: "\<exists>i < length ?ks. f = call_request (?ks ! i)" if "f \<in> set ?reqs" for f
    using that bounds(3) by (auto dest!: in_set_takeD)
  have fs: "\<exists>k \<in> set ?ks. f = call_request k" if "f \<in> set fs" for f
    using that request [of f] unfolding reqs by auto
  have good: "good_call c parses env ?known k" "frame_ok c (fst (call_request k)) (snd (call_request k))" if "k \<in> set ?ks" for k
    using inv(9) that by (auto simp: good_calls_def in_set_conv_nth)
  have "served c env ?known fs" using fs good_call_serves good(1) unfolding served_def by metis
  moreover have "frame_ok c (fst f) (snd f)" if "f \<in> set fs" for f using fs [OF that] good(2) by auto
  moreover have "serving_since c env ?known (called ?sv) ?un resp m ?sv"
    using inv(3,5) by (auto simp: serving_since_def replies_def kept_def intro!: exI [of _ "[]"])
  ultimately obtain sv ds r q where read: "ReadInLoop c (server_calls c env Inr) False (take l (to_server cn)) ?sv = Inr sv"
    and ds: "fs = ds @ r" and cons: "package_receiver.consumes (serving_since c env ?known (called ?sv) ?un resp m)
      (\<lambda>st. served c env ?known) called (\<lambda>f. f) ?sv ds r sv"
    and carry: "carried c r q sv (drop l (to_server cn))"
    using package_receiver.read_carried [OF rec _ inv(4) _ _ p, of l] assms(3) by auto
  have sv: "server_ready sv" "service_pool sv = ?known" "called sv = called ?sv @ ds" "\<not> terminated sv"
    "unanswered sv = ?un @ kept c env ?known ds" "queue_sends sv (map (package_frame c) (resp @ replies c env ?known ds)) m"
    using cons by (auto simp: package_receiver.consumes_def [OF rec] serving_since_def)
  let ?resp = "resp @ replies c env ?known ds"
  have flow': "request_flow c ?reqs sv (drop l (to_server cn))"
    using carry reqs unfolding request_flow_def sv(3) ds by auto
  have "matched c parses env ?ks (late_answers cn) sv ?resp"
  proof -
    have "mset (map seq_of ?resp) + mset (map md_seq (unanswered sv)) = mset (map seq_of (called sv))"
    proof -
      have "mset (map seq_of ?resp) + mset (map md_seq (unanswered sv))
          = (mset (map seq_of resp) + mset (map md_seq ?un))
            + (mset (map seq_of (replies c env ?known ds)) + mset (map md_seq (kept c env ?known ds)))"
        unfolding sv(5) map_append mset_append by (simp only: ac_simps)
      also have "\<dots> = mset (map seq_of (called ?sv)) + mset (map seq_of ds)"
        using inv(8) unfolding matched_def replies_kept_seqs by presburger
      finally show ?thesis unfolding sv(3) by simp
    qed
    moreover have "\<exists>f \<in> set (called sv). fst f = mm \<and> reply_to c env ?known f = None" if mm: "mm \<in> set (unanswered sv)" for mm
    proof (cases "mm \<in> set ?un")
      case True
      then show ?thesis using inv(8) sv(3) unfolding matched_def by fastforce
    next
      case False
      then show ?thesis using mm kept_from [of mm c env ?known ds] sv(3,5) by fastforce
    qed
    moreover have "unat (seq_of f) < length ?ks
        \<and> (\<exists>rr. answered c parses env ?known (late_answers cn) (?ks ! unat (seq_of f)) rr f)" if f: "f \<in> set ?resp" for f
    proof (cases "f \<in> set resp")
      case True
      then show ?thesis using matched_answer [OF inv(8)] by metis
    next
      case False
      then obtain g rr where g: "g \<in> set ds" "reply_to c env ?known g = Some rr" "f = response_package c (fst g) rr"
        using f replies_from [of f c env ?known ds] by auto
      have "g \<in> set ?reqs" unfolding reqs ds using g(1) by simp
      then obtain i where i: "i < length ?ks" "g = call_request (?ks ! i)" using request by blast
      have "unat (seq_of f) = i" using call_number [OF inv(9) i(1)] g(3) i(2) by simp
      moreover have "acceptable_reply c parses (?ks ! i) rr"
        using good(1) [of "?ks ! i"] i g(2) by (simp add: good_call_def)
      ultimately show ?thesis using i g by (auto simp: answered_def answer_for_def)
    qed
    ultimately show ?thesis unfolding matched_def sv(2) by blast
  qed
  moreover have "response_flow c ?ks (earlier cn) (take m ?resp) (client_end cn) (to_client cn)"
    using inv(5,7) by (simp add: queue_sends_def)
  ultimately have "connection_ok c parses env old addrs n ?resp m (cn\<lparr>server_end := sv, to_server := drop l (to_server cn)\<rparr>)"
    using inv(1,2,9-11) sv flow' by (simp add: connection_ok_def due_def)
  then show ?thesis using read sv(2) by (auto simp: carries_over_def)
qed

lemma client_reads_ok:
  assumes "message_codec c" "connection_ok c parses env old addrs n resp m cn" "possible c parses env (Client_reads l) cn"
  shows "\<exists>cn'. occurs c parses env (Client_reads l) cn = Inr cn' \<and> connection_ok c parses env old addrs n resp m cn'
    \<and> carries_over cn cn'"
proof -
  let ?cl = "client_end cn" and ?ks = "issued cn" and ?sent = "take n (due cn)"
  note inv = connection_okD [OF assms(2)] and rs = connection_responses [OF assms(2)]
  note rec = awaiting_package_receiver [OF assms(1), of parses ?ks old "due cn" addrs n]
  obtain es fs p where p: "carried c fs p ?cl (to_client cn)" and flow: "take m resp = es @ fs"
    "completed ?cl = earlier cn @ map (completion ?ks) es"
    using inv(7) by (auto simp: response_flow_def)
  have resp: "f \<in> set resp" if "f \<in> set (es @ fs)" for f using that unfolding flow(1) [symmetric] by (rule in_set_takeD)
  have ans: "frame_ok c (fst f) (snd f) \<and> parses (call_response (?ks ! unat (seq_of f))) (snd f)" if f: "f \<in> set resp" for f
  proof -
    obtain r where r: "unat (seq_of f) < length ?ks"
      "answered c parses env (service_pool (server_end cn)) (late_answers cn) (?ks ! unat (seq_of f)) r f"
      using matched_answer [OF inv(8) f] .
    then show ?thesis
      using acceptable_frame_ok [OF assms(1), of "?ks ! unat (seq_of f)" parses r] inv(9)
      by (auto simp: answered_def good_calls_def)
  qed
  have dist: "distinct (map seq_of es @ map seq_of fs)"
    using distinct_take [OF rs(1), of m] flow(1) by (simp add: take_map)
  have new: "unat (seq_of f) \<notin> finished ?cl" if f: "f \<in> set fs" for f
  proof -
    have "seq_of f \<in> set (map seq_of fs)" using f unfolding set_map by (rule imageI)
    then have old: "seq_of f \<notin> set (map seq_of es)" by (rule distinct_append_notin [OF dist])
    have "unat (seq_of f) \<notin> numbers_of (earlier cn)"
      using resp f by (intro due_calls(2) in_set_takeD [OF rs(2)]) simp
    moreover have "map fst (completed ?cl) = map fst (earlier cn) @ map seq_of es"
      unfolding flow(2) by (simp add: completion_def)
    then have "fst ` set (completed ?cl) = fst ` set (earlier cn) \<union> set (map seq_of es)"
      by (metis list.set_map set_append)
    then have "finished ?cl = numbers_of (earlier cn) \<union> unat ` set (map seq_of es)" unfolding finished_def by (simp only: image_Un)
    moreover have "unat (seq_of f) \<notin> unat ` set (map seq_of es)"
    proof
      assume "unat (seq_of f) \<in> unat ` set (map seq_of es)"
      then obtain x where x: "x \<in> set (map seq_of es)" "unat (seq_of f) = unat x" by (rule imageE)
      then have "seq_of f = x" by (simp only: word_unat_eq_iff)
      then show False using old x(1) by blast
    qed
    ultimately show ?thesis by (simp only: Un_iff simp_thms)
  qed
  have "answering parses ?ks ?sent ?cl fs"
    unfolding answering_def
  proof (intro conjI ballI)
    show "distinct (map (md_seq \<circ> fst) fs)" using dist by (simp add: o_def)
    fix f assume f: "f \<in> set fs"
    then have "f \<in> set resp" using resp by simp
    then show "case f of (meta, body) \<Rightarrow> unat (md_seq meta) \<in> set ?sent \<and> unat (md_seq meta) \<notin> finished ?cl
        \<and> parses (call_response (?ks ! unat (md_seq meta))) body"
      using new [OF f] ans rs(2) by (auto split: prod.split)
  qed
  then obtain cl ds r q where read: "ReadInLoop c (client_calls parses) False (take l (to_client cn)) ?cl = Inr cl"
    and ds: "fs = ds @ r"
    and cons: "package_receiver.consumes (awaiting c ?ks old (due cn) addrs n) (answering parses ?ks ?sent) completed (completion ?ks) ?cl ds r cl"
    and carry: "carried c r q cl (drop l (to_client cn))"
    using package_receiver.read_carried [OF rec inv(1,2) _ _ p, of l] assms(3) ans resp by auto
  have cl: "awaiting c ?ks old (due cn) addrs n cl" "\<not> terminated cl" "completed cl = completed ?cl @ map (completion ?ks) ds"
    using cons by (auto simp: package_receiver.consumes_def [OF rec])
  have "response_flow c ?ks (earlier cn) (take m resp) cl (drop l (to_client cn))"
    using carry cl(3) flow ds unfolding response_flow_def by (intro exI [of _ "es @ ds"] exI [of _ r] exI [of _ q]) simp
  then show ?thesis using read cl inv by (auto simp: connection_ok_def due_def carries_over_def)
qed

lemma server_answers_ok:
  assumes "message_codec c" "connection_ok c parses env old addrs n resp m cn" "possible c parses env (Server_answers i r) cn"
  shows "\<exists>cn' resp'. occurs c parses env (Server_answers i r) cn = Inr cn' \<and> connection_ok c parses env old addrs n resp' m cn'
    \<and> carries_over cn cn'"
proof -
  let ?sv = "server_end cn" and ?ks = "issued cn" and ?known = "service_pool (server_end cn)"
  let ?un = "unanswered (server_end cn)" and ?late = "late_answers cn @ [(md_seq (unanswered (server_end cn) ! i), r)]"
  let ?rest = "take i (unanswered (server_end cn)) @ drop (Suc i) (unanswered (server_end cn))"
  let ?sv1 = "?sv\<lparr>unanswered := ?rest\<rparr>"
  note inv = connection_okD [OF assms(2)] and bounds = awaiting_bounds [OF connection_okD(1) [OF assms(2)]]
  have i: "i < length ?un" using assms(3) by simp
  then obtain f where f: "f \<in> set (called ?sv)" "fst f = ?un ! i" "reply_to c env ?known f = None"
    using inv(8) unfolding matched_def by (metis nth_mem)
  obtain k where k': "k \<in> set (take n (due cn))" "f = call_request (?ks ! k)" by (rule called_calls [OF inv(6) f(1)])
  have k: "k < length ?ks" "f = call_request (?ks ! k)" using k' due_calls(1) by (auto dest: in_set_takeD)
  have num: "unat (md_seq (?un ! i)) = k" using call_number [OF inv(9) k(1)] f(2) k(2) by simp
  then have acc: "acceptable_reply c parses (?ks ! k) r" using assms(3) by simp
  have ok: "frame_ok c (fst (call_request (?ks ! k))) (snd (call_request (?ks ! k)))" using inv(9) k(1) by (simp add: good_calls_def)
  let ?g = "response_package c (?un ! i) r"
  note send = acceptable_frame_ok(1) [OF assms(1) ok acc, folded k(2), unfolded f(2)]
  have ready: "server_ready ?sv1" by (rule server_ready_cong [OF inv(3)]) simp_all
  have queue: "queue_sends ?sv1 (map (package_frame c) resp) m"
    using inv(5) by (subst queue_sends_cong [of _ ?sv]) (simp_all add: writes_def)
  have "Meta_IsInitialized (?un ! i)" using ok k(2) f(2) by (simp add: frame_ok_def)
  then obtain sv where sv: "SendResponse c (?un ! i) r ?sv1 = Inr sv" "server_ready sv"
    "queue_sends sv (map (package_frame c) (resp @ [?g])) m" "partial_message sv = partial_message ?sv"
    "terminated sv = terminated ?sv" "service_pool sv = ?known" "calls_made sv = calls_made ?sv" "unanswered sv = ?rest"
    "\<forall>a. a \<noteq> next_addr ?sv \<longrightarrow> heap sv a = heap ?sv a"
    using SendResponse_queue [OF assms(1) ready _ send queue] by auto
  have called: "called sv = called ?sv" using sv(7) by (simp add: called_def)
  have "request_flow c (requests_of ?ks (take n (due cn))) sv (to_server cn)"
    using sv(9) inv(3) by (intro request_flow_cong [OF inv(6) called sv(4)]) (auto simp: server_ready_def)
  moreover have "matched c parses env ?ks ?late sv (resp @ [?g])"
  proof -
    have un: "?un = take i ?un @ ?un ! i # drop (Suc i) ?un" using i by (rule id_take_nth_drop)
    have "mset (map seq_of (resp @ [?g])) + mset (map md_seq (unanswered sv)) = mset (map seq_of resp) + mset (map md_seq ?un)"
      unfolding sv(8) by (subst (3) un) simp
    then have "mset (map seq_of (resp @ [?g])) + mset (map md_seq (unanswered sv)) = mset (map seq_of (called sv))"
      using inv(8) unfolding matched_def called by presburger
    moreover have "\<exists>f \<in> set (called sv). fst f = mm \<and> reply_to c env ?known f = None" if "mm \<in> set (unanswered sv)" for mm
    proof -
      have "mm \<in> set ?un" using that unfolding sv(8) by (auto dest: in_set_takeD in_set_dropD)
      then show ?thesis using inv(8) unfolding matched_def called by blast
    qed
    moreover have "unat (seq_of h) < length ?ks \<and> (\<exists>rr. answered c parses env ?known ?late (?ks ! unat (seq_of h)) rr h)"
      if h: "h \<in> set (resp @ [?g])" for h
    proof (cases "h \<in> set resp")
      case True
      have "matched c parses env (?ks @ []) ?late ?sv resp" by (rule matched_mono [OF inv(8)]) auto
      then show ?thesis using matched_answer True by (metis append_Nil2)
    next
      case False
      then have "answered c parses env ?known ?late (?ks ! k) r h"
        using h acc f k(2) by (simp add: answered_def answer_for_def)
      then show ?thesis using False h num k(1) by auto
    qed
    ultimately show ?thesis unfolding matched_def sv(6) by blast
  qed
  moreover have "response_flow c ?ks (earlier cn) (take m (resp @ [?g])) (client_end cn) (to_client cn)"
    using inv(5,7) by (simp add: queue_sends_def)
  moreover have "own_answer c env ?known ?ks ?late e" if "e \<in> set (earlier cn)" for e
    using own_answer_mono [of c env ?known ?ks "late_answers cn" e ?late "[]"] inv(11) that by auto
  ultimately have "connection_ok c parses env old addrs n (resp @ [?g]) m (cn\<lparr>server_end := sv, late_answers := ?late\<rparr>)"
    using inv(1,2,4,9,10) sv by (simp add: connection_ok_def due_def)
  then show ?thesis using sv(1,6) i by (auto simp: RunKeptClosure_def carries_over_def)
qed

text \<open>A change of the client that leaves its messages, its calls and its queue alone.\<close>

lemma connection_client_cong:
  assumes "connection_ok c parses env old addrs n resp m cn"
    "heap cl = heap (client_end cn)" "pending cl = pending (client_end cn)" "writes cl = writes (client_end cn)"
    "next_seq cl = next_seq (client_end cn)" "next_addr cl = next_addr (client_end cn)" "sessions cl = sessions (client_end cn)"
    "completed cl = completed (client_end cn)" "partial_message cl = partial_message (client_end cn)"
    "terminated cl = terminated (client_end cn)"
  shows "connection_ok c parses env old addrs n resp m (cn\<lparr>client_end := cl\<rparr>)"
proof -
  note inv = connection_okD [OF assms(1)]
  have "client_ready (client_end cn)" using inv(1) by (simp add: awaiting_def)
  then have "client_ready cl" by (simp add: client_ready_def sessions_ok_def assms)
  moreover have "partial_message cl \<noteq> Some a" if "a \<in> set addrs" for a using inv(1) that by (simp add: awaiting_def assms(9))
  ultimately have "awaiting c (issued cn) old (due cn) addrs n cl"
    using assms by (intro awaiting_cong [OF inv(1)]) simp_all
  moreover have "response_flow c (issued cn) (earlier cn) (take m resp) cl (to_client cn)"
    using assms by (intro response_flow_cong [OF inv(7)]) simp_all
  ultimately show ?thesis using inv assms(10) by (simp add: connection_ok_def due_def)
qed

lemma client_breaks_ok:
  assumes "connection_ok c parses env old addrs n resp m cn" "possible c parses env Client_breaks cn"
  shows "\<exists>cn'. occurs c parses env Client_breaks cn = Inr cn' \<and> connection_ok c parses env old addrs n resp m cn'
    \<and> carries_over cn cn' \<and> closed_by_peer (client_end cn') \<and> server_given (client_end cn') = server_given (client_end cn)
    \<and> partial_message (client_end cn') = partial_message (client_end cn) \<and> issued cn' = issued cn"
proof -
  let ?cl = "client_end cn"
  note inv = connection_okD [OF assms(1)]
  let ?cl' = "if server_given ?cl then do_io (Async_connect (next_socket ?cl)) (?cl\<lparr>closed_by_peer := True, next_socket := next_socket ?cl + 1\<rparr>)
    else ?cl\<lparr>closed_by_peer := True\<rparr>"
  have "ReadInLoop c (client_calls parses) True [] ?cl = Inr ?cl'"
    using inv(2) assms(2) by (simp add: ReadInLoop_def client_calls_def ReconnectOrFail_def)
  moreover have "connection_ok c parses env old addrs n resp m (cn\<lparr>client_end := ?cl'\<rparr>)"
    by (rule connection_client_cong [OF assms(1)]) (simp_all add: do_io_def writes_def)
  ultimately show ?thesis by (simp add: do_io_def carries_over_def)
qed

text \<open>A new connection starts where the calls stand: the open ones are queued again, and nothing is on its way.\<close>

lemma client_connects_ok:
  assumes "connection_ok c parses env old addrs n resp m cn" "possible c parses env (Client_connects False) cn"
  shows "\<exists>cn'. occurs c parses env (Client_connects False) cn = Inr cn'
    \<and> connection_ok c parses env (writes (client_end cn)) addrs 0 [] 0 cn' \<and> issued cn' = issued cn
    \<and> partial_message (client_end cn') = None \<and> partial_message (server_end cn') = None \<and> \<not> closed_by_peer (client_end cn')
    \<and> carries_over cn cn'"
proof -
  let ?cl = "client_end cn" and ?sv = "accepted_channel (server_end cn)"
  note inv = connection_okD [OF assms(1)]
  have "partial_message ?cl = None" using assms(2) by simp
  then obtain cl where cl: "Channel_Connected c parses (next_socket ?cl - 1) False ?cl = Inr cl"
    "awaiting c (issued cn) (writes ?cl) (open_calls (issued cn) (finished ?cl)) addrs 0 cl" "completed cl = completed ?cl"
    "\<not> terminated cl" "partial_message cl = None" "\<not> closed_by_peer cl"
    using awaiting_reconnects [OF inv(1,2)] by blast
  let ?cn = "cn\<lparr>client_end := cl, server_end := ?sv, to_server := [], to_client := [], earlier := completed ?cl\<rparr>"
  have sv: "partial_message ?sv = None" "service_pool ?sv = service_pool (server_end cn)" "called ?sv = []" "unanswered ?sv = []"
    "pending ?sv = []" "writes ?sv = []" "\<not> terminated ?sv" "server_ready ?sv"
    using inv(3)
    by (simp_all add: accepted_channel_def RPCChannel_new_def StartToRead_def do_io_def called_def writes_def server_ready_def queue_ok_def)
  have due: "due ?cn = open_calls (issued cn) (finished ?cl)" by (simp add: due_def finished_def)
  have "connection_ok c parses env (writes ?cl) addrs 0 [] 0 ?cn"
    unfolding connection_ok_def due
    using cl sv inv(9) completed_answers [OF assms(1)] carried_start [of cl c] carried_start [of ?sv c]
    by (auto simp: queue_sends_def request_flow_def response_flow_def matched_def)
  then show ?thesis using cl sv by (simp add: carries_over_def)
qed

lemma event_ok:
  assumes "message_codec c" "connection_ok c parses env old addrs n resp m cn" "possible c parses env e cn"
  shows "\<exists>cn' old' addrs' n' resp' m'. occurs c parses env e cn = Inr cn' \<and> connection_ok c parses env old' addrs' n' resp' m' cn'
    \<and> carries_over cn cn'"
proof (cases e)
  case (Issue met request response "done")
  then show ?thesis using issue_ok [OF assms(1,2)] assms(3) by blast
next
  case Client_wrote
  then show ?thesis using client_wrote_ok [OF assms(2)] assms(3) by blast
next
  case (Server_reads l)
  then show ?thesis using server_reads_ok [OF assms(1,2)] assms(3) by blast
next
  case (Server_answers i r)
  then show ?thesis using server_answers_ok [OF assms(1,2)] assms(3) by blast
next
  case Server_wrote
  then show ?thesis using server_wrote_ok [OF assms(2)] assms(3) by blast
next
  case (Client_reads l)
  then show ?thesis using client_reads_ok [OF assms(1,2)] assms(3) by blast
next
  case Client_breaks
  then show ?thesis using client_breaks_ok [OF assms(2)] assms(3) by blast
next
  case (Client_connects error)
  show ?thesis
  proof (cases error)
    case True
    let ?cn = "cn\<lparr>client_end := do_io (Async_connect (next_socket (client_end cn) - 1)) (client_end cn)\<rparr>"
    have "connection_ok c parses env old addrs n resp m ?cn"
      by (rule connection_client_cong [OF assms(2)]) (simp_all add: do_io_def writes_def)
    moreover have "occurs c parses env e cn = Inr ?cn"
      using Client_connects True connection_okD(2) [OF assms(2)] by (simp add: Channel_Connected_def)
    moreover have "carries_over cn ?cn" by (simp add: carries_over_def do_io_def)
    ultimately show ?thesis by blast
  next
    case False
    then have e: "e = Client_connects False" using Client_connects by simp
    show ?thesis using client_connects_ok [OF assms(2) assms(3) [unfolded e]] unfolding e by blast
  qed
qed

lemma connected_ok:
  assumes "message_codec c" "connected c parses env cn"
  shows "\<exists>old addrs n resp m. connection_ok c parses env old addrs n resp m cn"
  using assms(2)
proof induction
  case (fresh cn)
  then show ?case using connection_start by blast
next
  case (event cn e cn')
  then show ?case using event_ok [OF assms(1)] by (metis Inr_inject)
qed

section \<open>Coming to rest\<close>

text \<open>Nothing is left to write or to read.\<close>

definition at_rest :: "('u, 'm, 'q) connection \<Rightarrow> bool" where
  "at_rest cn \<longleftrightarrow> pending (client_end cn) = [] \<and> to_server cn = [] \<and> pending (server_end cn) = [] \<and> to_client cn = []"

fun by_network :: "'m connection_event \<Rightarrow> bool" where
  "by_network (Issue method request response done) = False"
| "by_network (Server_answers i r) = False"
| "by_network Client_breaks = False"
| "by_network e = True"

text \<open>Runs of the network alone: no call is issued, no kept closure is run and no connection breaks.\<close>

inductive carries_on ::
  "('u, 'm) rpc_codec \<Rightarrow> (nat \<Rightarrow> byte list \<Rightarrow> bool) \<Rightarrow> ('m, 'q) services \<Rightarrow> ('u, 'm, 'q) connection \<Rightarrow>
     ('u, 'm, 'q) connection \<Rightarrow> bool"
  for c parses env where
  stop: "carries_on c parses env cn cn"
| go_on: "possible c parses env e cn \<Longrightarrow> by_network e \<Longrightarrow> occurs c parses env e cn = Inr cn' \<Longrightarrow>
    carries_on c parses env cn' cn'' \<Longrightarrow> carries_on c parses env cn cn''"

lemma carries_on_trans:
  "carries_on c parses env cn cn' \<Longrightarrow> carries_on c parses env cn' cn'' \<Longrightarrow> carries_on c parses env cn cn''"
  by (induction rule: carries_on.induct) (auto intro: carries_on.go_on)

lemma carried_all:
  assumes "carried c fs p st []"
  shows "fs = []" "\<not> header_stored c st"
proof -
  show "fs = []"
  proof (rule ccontr)
    assume "fs \<noteq> []"
    then obtain meta body gs where "fs = (meta, body) # gs" by (metis list.exhaust surj_pair)
    then show False using assms by (auto simp: carried_def at_stream_def split: if_splits)
  qed
  then show "\<not> header_stored c st" using assms by (auto simp: carried_def at_stream_def header_stored_def split: if_splits)
qed

lemma all_written:
  assumes "queue_sends st subs n" "pending st = []"
  shows "n = length subs"
  using assms by (simp add: queue_sends_def)

text \<open>The calls completed before a connection and those that go over it are all calls.\<close>

lemma due_accounts:
  assumes "connection_ok c parses env old addrs n resp m cn"
  shows "mset (map fst (earlier cn)) + mset (map of_nat (due cn)) = mset (map of_nat [0..<length (issued cn)])"
proof -
  note inv = connection_okD [OF assms]
  let ?l = "length (issued cn)" and ?E = "map fst (earlier cn)"
  have len: "unat (of_nat i :: u64) = i" if "i < ?l" for i using that inv(9) unat_of_nat_u64 [of i] by (simp add: good_calls_def)
  then have inj: "inj_on (of_nat :: nat \<Rightarrow> u64) {..<?l}" by (metis (mono_tags) inj_onI lessThan_iff)
  have due: "set (due cn) = {i. i < ?l \<and> i \<notin> numbers_of (earlier cn)}" "distinct (due cn)"
    by (auto simp: due_def open_calls_def)
  have early: "unat x < ?l" if "x \<in> set ?E" for x using that inv(11) by (auto simp: own_answer_def)
  have "distinct (?E @ map of_nat (due cn))"
  proof -
    have "distinct (map (of_nat :: nat \<Rightarrow> u64) (due cn))"
      using due inj by (auto simp: distinct_map intro: inj_on_subset)
    moreover have "(of_nat i :: u64) \<notin> set ?E" if "i \<in> set (due cn)" for i
    proof
      assume "(of_nat i :: u64) \<in> set ?E"
      then have "unat (of_nat i :: u64) \<in> numbers_of (earlier cn)" by auto
      then show False using that len [of i] due(1) by simp
    qed
    then have "set ?E \<inter> of_nat ` set (due cn) = {}" by blast
    ultimately show ?thesis using inv(10) by simp
  qed
  moreover have "distinct (map (of_nat :: nat \<Rightarrow> u64) [0..<?l])"
    using inj by (simp add: distinct_map atLeast0LessThan)
  moreover have "set (?E @ map of_nat (due cn)) = set (map (of_nat :: nat \<Rightarrow> u64) [0..<?l])"
  proof
    show "set (?E @ map of_nat (due cn)) \<subseteq> set (map (of_nat :: nat \<Rightarrow> u64) [0..<?l])"
    proof
      fix x assume "x \<in> set (?E @ map of_nat (due cn))"
      then consider "x \<in> set ?E" | i where "x = of_nat i" "i < ?l" using due(1) by auto
      then show "x \<in> set (map of_nat [0..<?l])"
      proof cases
        case 1
        then have "x = of_nat (unat x)" "unat x \<in> set [0..<?l]" using early by simp_all
        then show ?thesis unfolding set_map by (rule image_eqI)
      qed auto
    qed
    show "set (map (of_nat :: nat \<Rightarrow> u64) [0..<?l]) \<subseteq> set (?E @ map of_nat (due cn))"
    proof
      fix x :: u64 assume "x \<in> set (map of_nat [0..<?l])"
      then obtain i where i: "x = of_nat i" "i < ?l" by auto
      show "x \<in> set (?E @ map of_nat (due cn))"
      proof (cases "i \<in> numbers_of (earlier cn)")
        case True
        then obtain y where "y \<in> set ?E" "i = unat y" by auto
        then show ?thesis using i(1) by simp
      qed (use i due(1) in auto)
    qed
  qed
  ultimately show ?thesis by (metis mset_append set_eq_iff_mset_eq_distinct)
qed

lemma rest_accounts:
  assumes "connection_ok c parses env old addrs n resp m cn" "at_rest cn"
  shows "mset (map fst (completed (client_end cn))) + mset (map md_seq (unanswered (server_end cn)))
    = mset (map of_nat [0..<length (issued cn)])"
proof -
  let ?cl = "client_end cn" and ?sv = "server_end cn" and ?ks = "issued cn"
  note inv = connection_okD [OF assms(1)] and bounds = awaiting_bounds [OF connection_okD(1) [OF assms(1)]]
  have rest: "pending ?cl = []" "to_server cn = []" "pending ?sv = []" "to_client cn = []"
    using assms(2) by (simp_all add: at_rest_def)
  have "pending ?cl = map ((!) addrs) (drop n (due cn))" using inv(1) by (simp add: awaiting_def)
  then have n: "take n (due cn) = due cn" using rest(1) by simp
  have m: "m = length resp" using all_written [OF inv(5) rest(3)] by simp
  have "called ?sv = requests_of ?ks (due cn)"
    using inv(6) rest(2) carried_all(1) unfolding n request_flow_def by fastforce
  moreover have "map seq_of (requests_of ?ks (due cn)) = map of_nat (due cn)"
    using inv(9) due_calls(1) [of _ cn] by (simp add: good_calls_def)
  ultimately have called: "map seq_of (called ?sv) = map of_nat (due cn)" by (simp only:)
  obtain ds r q where ds: "resp = ds @ r" "completed ?cl = earlier cn @ map (completion ?ks) ds" "carried c r q ?cl []"
    using inv(7) rest(4) m by (auto simp: response_flow_def)
  have "r = []" by (rule carried_all(1) [OF ds(3)])
  then have "map fst (completed ?cl) = map fst (earlier cn) @ map seq_of resp" using ds(1,2) by (simp add: completion_def)
  then have "mset (map fst (completed ?cl)) + mset (map md_seq (unanswered ?sv))
      = mset (map fst (earlier cn)) + (mset (map seq_of resp) + mset (map md_seq (unanswered ?sv)))" by simp
  also have "\<dots> = mset (map fst (earlier cn)) + mset (map of_nat (due cn))"
    using inv(8) called unfolding matched_def by presburger
  finally show ?thesis using due_accounts [OF assms(1)] by simp
qed

lemma client_writes_all:
  assumes "connection_ok c parses env old addrs n resp m cn"
  shows "\<exists>cn' n'. carries_on c parses env cn cn' \<and> connection_ok c parses env old addrs n' resp m cn'
    \<and> pending (client_end cn') = [] \<and> server_end cn' = server_end cn
    \<and> header_stored c (client_end cn') = header_stored c (client_end cn)
    \<and> closed_by_peer (client_end cn') = closed_by_peer (client_end cn)"
  using assms
proof (induction "length (pending (client_end cn))" arbitrary: cn n)
  case 0
  then show ?case by (intro exI [of _ cn] exI [of _ n]) (simp add: carries_on.stop)
next
  case (Suc l)
  let ?cl = "client_end cn"
  note inv = connection_okD [OF Suc.prems]
  have p: "pending ?cl \<noteq> []" using Suc.hyps(2) by auto
  then have poss: "possible c parses env Client_wrote cn" by simp
  obtain cn1 where cn1: "occurs c parses env Client_wrote cn = Inr cn1" "connection_ok c parses env old addrs (Suc n) resp m cn1"
    using client_wrote_ok [OF Suc.prems poss] by blast
  obtain cl where cl: "Written c (client_calls parses) False (length (last (writes ?cl))) ?cl = Inr cl"
    "partial_message cl = partial_message ?cl" "\<forall>a. a \<notin> set addrs \<longrightarrow> heap cl a = heap ?cl a"
    "closed_by_peer cl = closed_by_peer ?cl"
    using awaiting_written [OF inv(1) p, of parses] by blast
  have cn1_eq: "cn1 = cn\<lparr>client_end := cl, to_server := to_server cn @ last (writes ?cl)\<rparr>"
    using cn1(1) cl(1) by (simp add: Let_def)
  have "header_stored c cl = header_stored c ?cl"
    using cl(2,3) partial_elsewhere(2) [OF inv(1)] by (simp add: header_stored_def split: option.split)
  moreover have "pending ?cl = map ((!) addrs) (drop n (due cn))" "pending (client_end cn1) = map ((!) addrs) (drop (Suc n) (due cn1))"
    using inv(1) connection_okD(1) [OF cn1(2)] by (simp_all add: awaiting_def)
  then have "l = length (pending (client_end cn1))" using Suc.hyps(2) cn1_eq by (simp add: due_def)
  then obtain cn' n' where "carries_on c parses env cn1 cn'" "connection_ok c parses env old addrs n' resp m cn'"
    "pending (client_end cn') = []" "server_end cn' = server_end cn1"
    "header_stored c (client_end cn') = header_stored c (client_end cn1)"
    "closed_by_peer (client_end cn') = closed_by_peer (client_end cn1)"
    using Suc.hyps(1) [OF _ cn1(2)] by blast
  ultimately show ?case
    using carries_on.go_on [OF poss _ cn1(1)] cn1_eq cl(4) by auto
qed

lemma server_writes_all:
  assumes "connection_ok c parses env old addrs n resp m cn"
  shows "\<exists>cn' m'. carries_on c parses env cn cn' \<and> connection_ok c parses env old addrs n resp m' cn'
    \<and> pending (server_end cn') = [] \<and> client_end cn' = client_end cn \<and> to_server cn' = to_server cn \<and> due cn' = due cn
    \<and> service_pool (server_end cn') = service_pool (server_end cn)"
  using assms
proof (induction "length (pending (server_end cn))" arbitrary: cn m)
  case 0
  then show ?case by (intro exI [of _ cn] exI [of _ m]) (simp add: carries_on.stop)
next
  case (Suc l)
  let ?sv = "server_end cn"
  note inv = connection_okD [OF Suc.prems]
  have poss: "possible c parses env Server_wrote cn" using Suc.hyps(2) by auto
  obtain cn1 where cn1: "occurs c parses env Server_wrote cn = Inr cn1" "connection_ok c parses env old addrs n resp (Suc m) cn1"
    "service_pool (server_end cn1) = service_pool ?sv"
    using server_wrote_ok [OF Suc.prems poss] unfolding carries_over_def by blast
  have same: "client_end cn1 = client_end cn" "to_server cn1 = to_server cn" "due cn1 = due cn"
    using cn1(1) by (auto simp: Let_def bind_result_eq_Inr due_def)
  have "map (frame_of ?sv) (pending ?sv) = drop m (map (package_frame c) resp)"
    "map (frame_of (server_end cn1)) (pending (server_end cn1)) = drop (Suc m) (map (package_frame c) resp)"
    using inv(5) connection_okD(5) [OF cn1(2)] by (simp_all add: queue_sends_def)
  note lens = this [THEN arg_cong [of _ _ length]]
  have "l = length (pending (server_end cn1))" using Suc.hyps(2) lens by simp
  then obtain cn' m' where "carries_on c parses env cn1 cn'" "connection_ok c parses env old addrs n resp m' cn'"
    "pending (server_end cn') = []" "client_end cn' = client_end cn1" "to_server cn' = to_server cn1" "due cn' = due cn1"
    "service_pool (server_end cn') = service_pool (server_end cn1)"
    using Suc.hyps(1) [OF _ cn1(2)] by blast
  then show ?case
    using carries_on.go_on [OF poss _ cn1(1)] same cn1(3) by auto
qed

lemma comes_to_rest:
  assumes "message_codec c" "connection_ok c parses env old addrs n resp m cn"
    "\<not> header_stored c (server_end cn)" "\<not> header_stored c (client_end cn)" "\<not> closed_by_peer (client_end cn)"
  shows "\<exists>cn' n' resp' m'. carries_on c parses env cn cn' \<and> connection_ok c parses env old addrs n' resp' m' cn' \<and> at_rest cn'
    \<and> service_pool (server_end cn') = service_pool (server_end cn)"
proof -
  obtain cn1 n1 where cn1: "carries_on c parses env cn cn1" "connection_ok c parses env old addrs n1 resp m cn1"
    "pending (client_end cn1) = []" "server_end cn1 = server_end cn" "\<not> header_stored c (client_end cn1)"
    "\<not> closed_by_peer (client_end cn1)"
    using client_writes_all [OF assms(2)] assms(4,5) by blast
  obtain cn2 resp2 where cn2: "carries_on c parses env cn1 cn2" "connection_ok c parses env old addrs n1 resp2 m cn2"
    "client_end cn2 = client_end cn1" "to_server cn2 = []"
    "service_pool (server_end cn2) = service_pool (server_end cn1)" "due cn2 = due cn1"
  proof (cases "to_server cn1 = []")
    case True
    then show ?thesis using that cn1(2) carries_on.stop by blast
  next
    case False
    let ?e = "Server_reads (length (to_server cn1))"
    have poss: "possible c parses env ?e cn1" using False assms(3) cn1(4) by simp
    then obtain cn2 resp2 where "occurs c parses env ?e cn1 = Inr cn2" "connection_ok c parses env old addrs n1 resp2 m cn2"
      "service_pool (server_end cn2) = service_pool (server_end cn1)"
      using server_reads_ok [OF assms(1) cn1(2)] unfolding carries_over_def by blast
    moreover from this have "client_end cn2 = client_end cn1" "to_server cn2 = []" "due cn2 = due cn1"
      by (auto simp: bind_result_eq_Inr due_def)
    ultimately show ?thesis using that carries_on.go_on [OF poss _ _ carries_on.stop] by simp
  qed
  obtain cn3 m3 where cn3: "carries_on c parses env cn2 cn3" "connection_ok c parses env old addrs n1 resp2 m3 cn3"
    "pending (server_end cn3) = []" "client_end cn3 = client_end cn2" "to_server cn3 = []"
    "service_pool (server_end cn3) = service_pool (server_end cn2)" "due cn3 = due cn2"
    using server_writes_all [OF cn2(2)] cn2(4) by auto
  obtain cn4 where cn4: "carries_on c parses env cn3 cn4" "connection_ok c parses env old addrs n1 resp2 m3 cn4"
    "server_end cn4 = server_end cn3" "to_server cn4 = []" "to_client cn4 = []" "due cn4 = due cn3"
  proof (cases "to_client cn3 = []")
    case True
    then show ?thesis using that cn3(2,5) carries_on.stop by blast
  next
    case False
    let ?e = "Client_reads (length (to_client cn3))"
    have poss: "possible c parses env ?e cn3" using False cn1(5,6) cn2(3) cn3(4) by simp
    then obtain cn4 where "occurs c parses env ?e cn3 = Inr cn4" "connection_ok c parses env old addrs n1 resp2 m3 cn4"
      using client_reads_ok [OF assms(1) cn3(2)] by blast
    moreover from this have "server_end cn4 = server_end cn3" "to_server cn4 = []" "to_client cn4 = []" "due cn4 = due cn3"
      using cn3(5) by (auto simp: bind_result_eq_Inr due_def)
    ultimately show ?thesis using that carries_on.go_on [OF poss _ _ carries_on.stop] by simp
  qed
  have "pending (client_end cn4) = map ((!) addrs) (drop n1 (due cn1))" "pending (client_end cn1) = map ((!) addrs) (drop n1 (due cn1))"
    using connection_okD(1) [OF cn4(2)] connection_okD(1) [OF cn1(2)] cn2(6) cn3(7) cn4(6) by (simp_all add: awaiting_def)
  then have "at_rest cn4" using cn1(3) cn3(3) cn4(3-5) by (simp add: at_rest_def)
  then show ?thesis using carries_on_trans [OF cn1(1) carries_on_trans [OF cn2(1) carries_on_trans [OF cn3(1) cn4(1)]]] cn4(2,3)
      cn3(6) cn2(5) cn1(4) by metis
qed

lemma carries_on_issued: "carries_on c parses env cn cn' \<Longrightarrow> issued cn' = issued cn"
proof (induction rule: carries_on.induct)
  case (go_on e cn cn' cn'')
  then show ?case by (cases e) (auto simp: bind_result_eq_Inr Let_def)
qed simp

lemma carries_on_connected:
  "carries_on c parses env cn cn' \<Longrightarrow> connected c parses env cn \<Longrightarrow> connected c parses env cn'"
  by (induction rule: carries_on.induct) (auto intro: connected.event)

text \<open>A broken connection is made anew, and then comes to rest.\<close>

lemma recovers:
  assumes "message_codec c" "connection_ok c parses env old addrs n resp m cn"
    "closed_by_peer (client_end cn)" "server_given (client_end cn)" "partial_message (client_end cn) = None"
  shows "\<exists>cn' old' n' resp' m'. carries_on c parses env cn cn' \<and> connection_ok c parses env old' addrs n' resp' m' cn' \<and> at_rest cn'
    \<and> service_pool (server_end cn') = service_pool (server_end cn)"
proof -
  have poss: "possible c parses env (Client_connects False) cn" using assms(3-5) by simp
  obtain cn1 where cn1: "occurs c parses env (Client_connects False) cn = Inr cn1"
    "connection_ok c parses env (writes (client_end cn)) addrs 0 [] 0 cn1" "\<not> closed_by_peer (client_end cn1)"
    "partial_message (client_end cn1) = None" "partial_message (server_end cn1) = None"
    "service_pool (server_end cn1) = service_pool (server_end cn)"
    using client_connects_ok [OF assms(2) poss] unfolding carries_over_def by blast
  have "\<not> header_stored c (server_end cn1)" "\<not> header_stored c (client_end cn1)" using cn1(4,5) by (simp_all add: header_stored_def)
  then obtain cn' n' resp' m' where "carries_on c parses env cn1 cn'" "at_rest cn'"
    "connection_ok c parses env (writes (client_end cn)) addrs n' resp' m' cn'"
    "service_pool (server_end cn') = service_pool (server_end cn1)"
    using comes_to_rest [OF assms(1) cn1(2) _ _ cn1(3)] by blast
  moreover from this(1) have "carries_on c parses env cn cn'" by (intro carries_on.go_on [OF poss _ cn1(1)]) simp_all
  ultimately show ?thesis using cn1(6) by metis
qed

section \<open>Properties of a connection\<close>





subsection \<open>Witnesses\<close>

text \<open>
  An idle client connected to the echo server, and the call of its method 3. The connection breaks before the
  request is written, and the call is completed over a new one.
\<close>

abbreviation echo_method :: method_descriptor where
  "echo_method \<equiv> \<lparr>method_index = 3, service_full_name = []\<rparr>"

abbreviation echo_call :: "byte list connection_event" where "echo_call \<equiv> Issue echo_method [65] 10 20"

definition echo_connection :: "(byte list, byte list, byte list) connection" where
  "echo_connection = \<lparr>client_end = waiting_client\<lparr>sessions := [], next_seq := 0\<rparr>,
     server_end = echo_server\<lparr>service_pool := (case GetServiceID [] of Inl f \<Rightarrow> [] | Inr sid \<Rightarrow> [(sid, 0)])\<rparr>,
     to_server = [], to_client = [], issued = [], late_answers = [], earlier = []\<rparr>"

lemma echo_fresh: "fresh_connection echo_connection"
  by (auto simp: fresh_connection_def echo_connection_def waiting_client_def echo_server_def writes_def split: sum.split)

lemma echo_call_possible:
  "possible guide_codec (\<lambda>r b. True) echo_services echo_call echo_connection"
proof -
  obtain sid where sid: "GetServiceID [] = Inr sid" using GetServiceID_ok by blast
  let ?m = "call_meta guide_codec 0 echo_method sid [65]"
  have "length (meta_bytes guide_codec ?m) \<le> 44"
    "length (meta_bytes guide_codec (response_meta guide_codec ?m [65])) \<le> 44"
    by (rule guide_meta_bytes_bound, simp add: response_meta_def meta_setters)+
  then show ?thesis
    by (simp add: echo_connection_def sid sendable_call_def call_package_def good_call_def known_request_def reply_to_def
        acceptable_reply_def response_package_def map_find_def echo_services_def guide_codec_def)
qed


lemma echo_broken:
  obtains cn where "connected guide_codec (\<lambda>r b. True) echo_services cn" "length (issued cn) = 1"
    "call_done (issued cn ! 0) = 20" "closed_by_peer (client_end cn)" "server_given (client_end cn)"
    "partial_message (client_end cn) = None"
    "reply_to guide_codec echo_services (service_pool (server_end cn)) (call_request (issued cn ! 0)) = Some [65]"
proof -
  note start = connection_start [OF echo_fresh, of guide_codec "\<lambda>r b. True" echo_services]
  note con = guide_messages.message_codec_axioms
  obtain cn where cn: "occurs guide_codec (\<lambda>r b. True) echo_services echo_call echo_connection = Inr cn"
    "connection_ok guide_codec (\<lambda>r b. True) echo_services [] [next_addr (client_end echo_connection)] 0 [] 0 cn"
    using issue_ok [OF con start echo_call_possible] by auto
  obtain sid where sid: "GetServiceID [] = Inr sid" using GetServiceID_ok by blast
  let ?k = "(call_package guide_codec 0 echo_method [65], 10, 20)"
  have init: "next_seq (client_end echo_connection) = 0" "issued echo_connection = []" "due echo_connection = []"
    "partial_message (client_end echo_connection) = None" "closed_by_peer (client_end echo_connection) = False"
    "server_given (client_end echo_connection)" "service_pool (server_end echo_connection) = [(sid, 0)]"
    by (simp_all add: echo_connection_def waiting_client_def echo_server_def sid due_def open_calls_def)
  have cn_eq: "issued cn = [?k]" "server_end cn = server_end echo_connection"
    using cn(1) init by (auto simp: bind_result_eq_Inr)
  obtain cl where cl: "Client_SendInLoop guide_codec echo_method [65] 10 20 (client_end echo_connection) = Inr cl" "client_end cn = cl"
    using cn(1) by (auto simp: bind_result_eq_Inr)
  have "awaiting guide_codec [] [] [] [] 0 (client_end echo_connection)" using connection_okD(1) [OF start] init by simp
  then have client: "partial_message cl = None" "\<not> closed_by_peer cl" "server_given cl"
    using awaiting_issues [OF con, of "[]" "[]" "[]" "[]" 0 "client_end echo_connection" echo_method "[65]" 10 20]
      echo_call_possible cl(1) init by auto
  then have poss: "possible guide_codec (\<lambda>r b. True) echo_services Client_breaks cn" using cl(2) by simp
  obtain cn1 where cn1: "occurs guide_codec (\<lambda>r b. True) echo_services Client_breaks cn = Inr cn1"
    "closed_by_peer (client_end cn1)" "server_given (client_end cn1) = server_given (client_end cn)"
    "partial_message (client_end cn1) = partial_message (client_end cn)" "issued cn1 = issued cn"
    using client_breaks_ok [OF cn(2) poss] by blast
  have "server_end cn1 = server_end cn" using cn1(1) by (auto simp: bind_result_eq_Inr)
  moreover have "connected guide_codec (\<lambda>r b. True) echo_services cn1"
    by (rule connected.event [OF connected.event [OF connected.fresh [OF echo_fresh] echo_call_possible cn(1)] poss cn1(1)])
  moreover have "reply_to guide_codec echo_services [(sid, 0)] (call_request ?k) = Some [65]"
    by (simp add: reply_to_def call_package_def sid map_find_def echo_services_def guide_codec_def)
  ultimately show thesis using that [of cn1] cn_eq cl(2) init client cn1(2-5) by simp
qed

text \<open>The connection after the call was completed.\<close>

lemma echo_answered:
  obtains cn where "connected guide_codec (\<lambda>r b. True) echo_services cn" "at_rest cn" "length (issued cn) = 1"
    "unanswered (server_end cn) = []" "call_done (issued cn ! 0) = 20"
    "reply_to guide_codec echo_services (service_pool (server_end cn)) (call_request (issued cn ! 0)) = Some [65]"
proof -
  obtain cn where cn: "connected guide_codec (\<lambda>r b. True) echo_services cn" "length (issued cn) = 1"
    "call_done (issued cn ! 0) = 20" "closed_by_peer (client_end cn)" "server_given (client_end cn)"
    "partial_message (client_end cn) = None"
    "reply_to guide_codec echo_services (service_pool (server_end cn)) (call_request (issued cn ! 0)) = Some [65]"
    by (rule echo_broken)
  obtain old addrs n resp m where "connection_ok guide_codec (\<lambda>r b. True) echo_services old addrs n resp m cn"
    using connected_ok [OF guide_messages.message_codec_axioms cn(1)] by blast
  then obtain cn' old' n' resp' m' where cn': "carries_on guide_codec (\<lambda>r b. True) echo_services cn cn'"
    "connection_ok guide_codec (\<lambda>r b. True) echo_services old' addrs n' resp' m' cn'" "at_rest cn'"
    "service_pool (server_end cn') = service_pool (server_end cn)"
    using recovers [OF guide_messages.message_codec_axioms _ cn(4-6)] by blast
  have ks: "issued cn' = issued cn" by (rule carries_on_issued [OF cn'(1)])
  note inv = connection_okD [OF cn'(2)]
  have "\<not> (\<exists>mm. mm \<in> set (unanswered (server_end cn')))"
  proof
    assume "\<exists>mm. mm \<in> set (unanswered (server_end cn'))"
    then obtain f where f: "f \<in> set (called (server_end cn'))"
      "reply_to guide_codec echo_services (service_pool (server_end cn')) f = None"
      using inv(8) unfolding matched_def by blast
    obtain i where i: "i \<in> set (take n' (due cn'))" "f = call_request (issued cn' ! i)" by (rule called_calls [OF inv(6) f(1)])
    then have "i < length (issued cn')" using due_calls(1) by (auto dest: in_set_takeD)
    then show False using f(2) i(2) cn(2,7) cn'(4) ks by simp
  qed
  then have "unanswered (server_end cn') = []" by (cases "unanswered (server_end cn')") auto
  then show thesis
    using that [of cn'] carries_on_connected [OF cn'(1) cn(1)] cn'(3,4) ks cn(2,3,7) by simp
qed


lemma echo_completed:
  obtains cn where "connected guide_codec (\<lambda>r b. True) echo_services cn" "fst ` set (completed (client_end cn)) = {0}"
    "call_done (issued cn ! 0) = 20"
    "reply_to guide_codec echo_services (service_pool (server_end cn)) (call_request (issued cn ! 0)) = Some [65]"
proof -
  obtain cn where cn: "connected guide_codec (\<lambda>r b. True) echo_services cn" "at_rest cn" "length (issued cn) = 1"
    "unanswered (server_end cn) = []" "call_done (issued cn ! 0) = 20"
    "reply_to guide_codec echo_services (service_pool (server_end cn)) (call_request (issued cn ! 0)) = Some [65]"
    by (rule echo_answered)
  obtain old addrs n resp m where ok: "connection_ok guide_codec (\<lambda>r b. True) echo_services old addrs n resp m cn"
    using connected_ok [OF guide_messages.message_codec_axioms cn(1)] by blast
  have "mset (map fst (completed (client_end cn))) = {#0#}" using rest_accounts [OF ok cn(2)] cn(3,4) by simp
  then have "fst ` set (completed (client_end cn)) = {0}" by (metis set_mset_mset list.set_map set_mset_single)
  then show thesis using that cn by blast
qed



end
