(* ===== verification/Rpc_Contract.thy ===== *)
theory Rpc_Contract
  imports Rpc_Connection
begin

text \<open>
  What the library promises to its user, with no word about bytes, sockets, queues or message objects: calls are
  made, services give answers, and every call returns at most once, with an answer that its service gave to
  it. The connection of \<^verbatim>\<open>Rpc_Connection\<close>, with all its events and however often it breaks, is shown to be
  a refinement of this contract.
\<close>

section \<open>The contract\<close>

record ('u, 'm) contract =
  asked :: "'u issued_call list"
  given :: "(u64 \<times> 'm) list"
  returned :: "(u64 \<times> nat \<times> byte list) list"

text \<open>
  A call is made under the next number; a service that kept the closure of a call gives its answer; a call that
  did not return yet returns with an answer of its service.
\<close>

inductive contract_step ::
  "('u, 'm) rpc_codec \<Rightarrow> ('m, 'q) services \<Rightarrow> (u32, nat) std_map \<Rightarrow> ('u, 'm) contract \<Rightarrow> ('u, 'm) contract \<Rightarrow> bool"
  for c env known where
  ask: "seq_of (call_request k) = of_nat (length (asked s)) \<Longrightarrow>
    contract_step c env known s (s\<lparr>asked := asked s @ [k]\<rparr>)"
| give: "i < length (asked s) \<Longrightarrow> reply_to c env known (call_request (asked s ! i)) = None \<Longrightarrow>
    contract_step c env known s (s\<lparr>given := given s @ [(of_nat i, r)]\<rparr>)"
| return: "own_answer c env known (asked s) (given s) e \<Longrightarrow> fst e \<notin> fst ` set (returned s) \<Longrightarrow>
    contract_step c env known s (s\<lparr>returned := returned s @ [e]\<rparr>)"

abbreviation contract_run ::
  "('u, 'm) rpc_codec \<Rightarrow> ('m, 'q) services \<Rightarrow> (u32, nat) std_map \<Rightarrow> ('u, 'm) contract \<Rightarrow> ('u, 'm) contract \<Rightarrow> bool" where
  "contract_run c env known \<equiv> (contract_step c env known)\<^sup>*\<^sup>*"

text \<open>The contract keeps what it promises: no call returns twice, and only with an answer to it.\<close>

lemma contract_safe:
  assumes "contract_run c env known s s'" "distinct (map fst (returned s))"
    "\<forall>e \<in> set (returned s). own_answer c env known (asked s) (given s) e"
  shows "distinct (map fst (returned s')) \<and> (\<forall>e \<in> set (returned s'). own_answer c env known (asked s') (given s') e)"
  using assms
proof (induction rule: rtranclp_induct)
  case (step s' s'')
  have inv: "distinct (map fst (returned s'))" "\<forall>e \<in> set (returned s'). own_answer c env known (asked s') (given s') e"
    using step.IH step.prems by auto
  from step.hyps(2) show ?case
  proof (cases rule: contract_step.cases)
    case (ask k)
    then show ?thesis using inv own_answer_mono [of c env known "asked s'" "given s'" _ "given s'" "[k]"] by auto
  next
    case (give i r)
    then show ?thesis using inv own_answer_mono [of c env known "asked s'" "given s'" _ "given s' @ [(of_nat i, r)]" "[]"] by auto
  next
    case (return e)
    then show ?thesis using inv by auto
  qed
qed simp

text \<open>Calls that return one after the other.\<close>

lemma contract_returns:
  assumes "distinct (map fst (returned s @ es))" "\<forall>e \<in> set es. own_answer c env known (asked s) (given s) e"
  shows "contract_run c env known s (s\<lparr>returned := returned s @ es\<rparr>)"
  using assms
proof (induction es rule: rev_induct)
  case (snoc e es)
  let ?s = "s\<lparr>returned := returned s @ es\<rparr>"
  have "contract_run c env known s ?s" using snoc by simp
  also have "contract_step c env known ?s (?s\<lparr>returned := returned ?s @ [e]\<rparr>)"
    using snoc.prems by (intro contract_step.return) (auto simp: image_Un)
  finally show ?case by simp
qed simp

section \<open>Simulation\<close>

text \<open>
  A step relation with an invariant, whose steps are runs of an abstract one.
\<close>

locale simulated =
  fixes step :: "'s \<Rightarrow> 's \<Rightarrow> bool" and inv :: "'s \<Rightarrow> bool" and view :: "'s \<Rightarrow> 'a" and abstract :: "'a \<Rightarrow> 'a \<Rightarrow> bool"
  assumes simulates: "inv s \<Longrightarrow> step s s' \<Longrightarrow> inv s' \<and> abstract\<^sup>*\<^sup>* (view s) (view s')"
begin

lemma runs_simulate: "step\<^sup>*\<^sup>* s s' \<Longrightarrow> inv s \<Longrightarrow> inv s' \<and> abstract\<^sup>*\<^sup>* (view s) (view s')"
proof (induction rule: rtranclp_induct)
  case (step s' s'')
  then show ?case using simulates [of s' s''] by (meson rtranclp_trans)
qed simp

end

section \<open>The connection keeps the contract\<close>

definition contract_of :: "('u, 'm, 'q) connection \<Rightarrow> ('u, 'm) contract" where
  "contract_of cn = \<lparr>asked = issued cn, given = late_answers cn, returned = completed (client_end cn)\<rparr>"

definition happens ::
  "('u, 'm) rpc_codec \<Rightarrow> (nat \<Rightarrow> byte list \<Rightarrow> bool) \<Rightarrow> ('m, 'q) services \<Rightarrow> ('u, 'm, 'q) connection \<Rightarrow> ('u, 'm, 'q) connection \<Rightarrow> bool" where
  "happens c parses env cn cn' \<longleftrightarrow> (\<exists>e. possible c parses env e cn \<and> occurs c parses env e cn = Inr cn')"

definition keeps_contract ::
  "('u, 'm) rpc_codec \<Rightarrow> (nat \<Rightarrow> byte list \<Rightarrow> bool) \<Rightarrow> ('m, 'q) services \<Rightarrow> (u32, nat) std_map \<Rightarrow> ('u, 'm, 'q) connection \<Rightarrow> bool" where
  "keeps_contract c parses env known cn \<longleftrightarrow> service_pool (server_end cn) = known
     \<and> (\<exists>old addrs n resp m. connection_ok c parses env old addrs n resp m cn)"

lemma late_answer_given:
  assumes "connection_ok c parses env old addrs n resp m cn" "i < length (unanswered (server_end cn))"
  obtains j where "j < length (issued cn)" "md_seq (unanswered (server_end cn) ! i) = of_nat j"
    "reply_to c env (service_pool (server_end cn)) (call_request (issued cn ! j)) = None"
proof -
  note inv = connection_okD [OF assms(1)]
  obtain f where f: "f \<in> set (called (server_end cn))" "fst f = unanswered (server_end cn) ! i"
    "reply_to c env (service_pool (server_end cn)) f = None"
    using inv(8) assms(2) unfolding matched_def by (metis nth_mem)
  obtain j where j: "j \<in> set (take n (due cn))" "f = call_request (issued cn ! j)" by (rule called_calls [OF inv(6) f(1)])
  have "j < length (issued cn)" using j(1) due_calls(1) by (auto dest: in_set_takeD)
  moreover from this have "md_seq (fst f) = of_nat j" using inv(9) j(2) by (simp add: good_calls_def)
  ultimately show thesis using that f(2,3) j(2) by simp
qed

text \<open>
  Of what the contract speaks, an event changes the calls, or the late answers, or adds to what returned.
\<close>

lemma event_histories:
  assumes "connection_ok c parses env old addrs n resp m cn" "possible c parses env e cn" "occurs c parses env e cn = Inr cn'"
  obtains "issued cn' = issued cn" "late_answers cn' = late_answers cn"
  | k where "issued cn' = issued cn @ [k]" "late_answers cn' = late_answers cn"
  | i r where "issued cn' = issued cn" "i < length (issued cn)" "late_answers cn' = late_answers cn @ [(of_nat i, r)]"
      "reply_to c env (service_pool (server_end cn)) (call_request (issued cn ! i)) = None"
proof (cases e)
  case (Issue met request response "done")
  with assms(3) have "issued cn' = issued cn @ [(call_package c (next_seq (client_end cn)) met request, response, done)]"
    "late_answers cn' = late_answers cn"
    by (auto simp: bind_result_eq_Inr)
  then show thesis by (rule that(2))
next
  case (Server_answers i r)
  then have "i < length (unanswered (server_end cn))" using assms(2) by simp
  then obtain j where "j < length (issued cn)" "md_seq (unanswered (server_end cn) ! i) = of_nat j"
    "reply_to c env (service_pool (server_end cn)) (call_request (issued cn ! j)) = None"
    using late_answer_given [OF assms(1)] by blast
  then show thesis using that(3) assms(3) Server_answers by (auto simp: bind_result_eq_Inr)
qed (use that(1) assms(3) in \<open>auto simp: bind_result_eq_Inr Let_def\<close>)

lemma event_simulates:
  assumes "message_codec c" "keeps_contract c parses env known cn" "happens c parses env cn cn'"
  shows "keeps_contract c parses env known cn' \<and> contract_run c env known (contract_of cn) (contract_of cn')"
proof -
  obtain e where e: "possible c parses env e cn" "occurs c parses env e cn = Inr cn'" using assms(3) by (auto simp: happens_def)
  obtain old addrs n resp m where ok: "connection_ok c parses env old addrs n resp m cn" and known: "service_pool (server_end cn) = known"
    using assms(2) by (auto simp: keeps_contract_def)
  obtain old' addrs' n' resp' m' where ok': "connection_ok c parses env old' addrs' n' resp' m' cn'" and over: "carries_over cn cn'"
    using event_ok [OF assms(1) ok e(1)] e(2) by (metis Inr_inject)
  obtain es where es: "completed (client_end cn') = completed (client_end cn) @ es" and known': "service_pool (server_end cn') = known"
    using over known by (auto simp: carries_over_def)
  let ?s = "contract_of cn" let ?s1 = "?s\<lparr>asked := issued cn', given := late_answers cn'\<rparr>"
  from ok e have "contract_run c env known ?s ?s1"
  proof (cases rule: event_histories)
    case 1
    then show ?thesis by (simp add: contract_of_def)
  next
    case (2 k)
    have "length (issued cn) < length (issued cn')" using 2(1) by simp
    then have "seq_of (call_request (issued cn' ! length (issued cn))) = of_nat (length (issued cn))"
      using connection_okD(9) [OF ok'] unfolding good_calls_def by blast
    then have "seq_of (call_request k) = of_nat (length (asked ?s))" using 2(1) by (simp add: contract_of_def)
    from contract_step.ask [OF this] show ?thesis using 2 by (intro r_into_rtranclp) (simp add: contract_of_def)
  next
    case (3 i r)
    then have "i < length (asked ?s)" "reply_to c env known (call_request (asked ?s ! i)) = None"
      using known by (simp_all add: contract_of_def)
    from contract_step.give [OF this, of r] show ?thesis using 3 by (intro r_into_rtranclp) (simp add: contract_of_def)
  qed
  also have "contract_run c env known ?s1 (?s1\<lparr>returned := returned ?s1 @ es\<rparr>)"
    using completed_answers [OF ok'] es known' by (intro contract_returns) (simp_all add: contract_of_def)
  also have "?s1\<lparr>returned := returned ?s1 @ es\<rparr> = contract_of cn'" using es by (simp add: contract_of_def)
  finally show ?thesis using ok' known' unfolding keeps_contract_def by blast
qed

lemma connection_simulated:
  assumes "message_codec c"
  shows "simulated (happens c parses env) (keeps_contract c parses env known) contract_of (contract_step c env known)"
  using event_simulates [OF assms] by unfold_locales

interpretation connection: simulated "happens guide_codec parses env" "keeps_contract guide_codec parses env known" contract_of
  "contract_step guide_codec env known" for parses env known
  by (rule connection_simulated) (rule guide_messages.message_codec_axioms)

text \<open>The states of \<^verbatim>\<open>connected\<close> are the ends of the runs that start with a new connection.\<close>

lemma connected_runs:
  "connected c parses env cn \<longleftrightarrow> (\<exists>cn0. fresh_connection cn0 \<and> (happens c parses env)\<^sup>*\<^sup>* cn0 cn)"
proof
  show "connected c parses env cn \<Longrightarrow> \<exists>cn0. fresh_connection cn0 \<and> (happens c parses env)\<^sup>*\<^sup>* cn0 cn"
  proof (induction rule: connected.induct)
    case (event cn e cn')
    then have "happens c parses env cn cn'" unfolding happens_def by blast
    then show ?case using event.IH by (meson rtranclp.rtrancl_into_rtrancl)
  qed blast
next
  assume "\<exists>cn0. fresh_connection cn0 \<and> (happens c parses env)\<^sup>*\<^sup>* cn0 cn"
  then obtain cn0 where "(happens c parses env)\<^sup>*\<^sup>* cn0 cn" "fresh_connection cn0" by blast
  then show "connected c parses env cn"
    by (induction rule: rtranclp_induct) (auto simp: happens_def intro: connected.fresh dest: connected.event simp del: possible.simps occurs.simps)
qed



end
