(* ===== verification/Rpc_Events.thy ===== *)
theory Rpc_Events
  imports Rpc_Prelude
begin

text \<open>
  The three events threads wait for: \<^verbatim>\<open>AtomicEvent\<close> (\<^verbatim>\<open>rpc/atomic_event.h\<close>, a loop around a
  compare-and-exchange), \<^verbatim>\<open>SyncEvent\<close> (\<^verbatim>\<open>rpc/sync_event.h\<close>, a mutex and a condition variable)
  and \<^verbatim>\<open>Semaphore\<close> (\<^verbatim>\<open>rpc/sem_event.h\<close>, a POSIX semaphore). Each is a step relation over the
  program counters of its threads, every step labelled with what it means for a counting
  semaphore, if anything. The locale \<open>semaphore_implementation\<close> says when such a relation
  implements the semaphore; all three classes are interpretations of it.
\<close>

section \<open>The counting semaphore\<close>

datatype sem_label = Signal | Request nat | Grant nat | Give_up nat

record semaphore =
  sem_tokens :: nat
  sem_waiting :: "nat set"

definition sem_init :: semaphore where
  "sem_init = \<lparr>sem_tokens = 0, sem_waiting = {}\<rparr>"

fun sem_next :: "sem_label \<Rightarrow> semaphore \<Rightarrow> semaphore option" where
  "sem_next Signal s = Some (s\<lparr>sem_tokens := sem_tokens s + 1\<rparr>)"
| "sem_next (Request t) s =
     (if t \<in> sem_waiting s then None else Some (s\<lparr>sem_waiting := insert t (sem_waiting s)\<rparr>))"
| "sem_next (Grant t) s =
     (if t \<in> sem_waiting s \<and> 0 < sem_tokens s
      then Some (s\<lparr>sem_tokens := sem_tokens s - 1, sem_waiting := sem_waiting s - {t}\<rparr>) else None)"
| "sem_next (Give_up t) s =
     (if t \<in> sem_waiting s then Some (s\<lparr>sem_waiting := sem_waiting s - {t}\<rparr>) else None)"

primrec sem_run :: "sem_label list \<Rightarrow> semaphore \<Rightarrow> semaphore option" where
  "sem_run [] s = Some s"
| "sem_run (l # ls) s = Option.bind (sem_next l s) (sem_run ls)"

definition posts :: "sem_label list \<Rightarrow> nat" where
  "posts tr = length (filter (\<lambda>l. l = Signal) tr)"

definition is_Grant :: "sem_label \<Rightarrow> bool" where
  "is_Grant l = (case l of Grant t \<Rightarrow> True | _ \<Rightarrow> False)"

definition grants :: "sem_label list \<Rightarrow> nat" where
  "grants tr = length (filter is_Grant tr)"

lemma count_labels [simp]:
  "posts [] = 0" "posts (l # ls) = (if l = Signal then 1 else 0) + posts ls"
  "posts (xs @ ys) = posts xs + posts ys"
  "grants [] = 0" "grants (l # ls) = (if is_Grant l then 1 else 0) + grants ls"
  "grants (xs @ ys) = grants xs + grants ys"
  by (simp_all add: posts_def grants_def)

lemma sem_run_append: "sem_run (xs @ ys) s = Option.bind (sem_run xs s) (sem_run ys)"
proof (induction xs arbitrary: s)
  case (Cons l xs)
  then show ?case by (cases "sem_next l s") simp_all
qed simp

lemma sem_next_tokens:
  "sem_next l s = Some s' \<Longrightarrow>
     sem_tokens s' + (if is_Grant l then 1 else 0) = sem_tokens s + (if l = Signal then 1 else 0)"
  by (cases l) (auto simp: is_Grant_def split: if_splits)

lemma sem_run_tokens:
  "sem_run tr s = Some s' \<Longrightarrow> sem_tokens s' + grants tr = sem_tokens s + posts tr"
proof (induction tr arbitrary: s)
  case (Cons l tr)
  then obtain s1 where "sem_next l s = Some s1" "sem_run tr s1 = Some s'"
    by (auto simp: bind_eq_Some_conv)
  then show ?case using Cons.IH [of s1] sem_next_tokens [of l s s1] by simp
qed simp

section \<open>Runs of a labelled step relation\<close>

inductive labelled_run :: "('s \<Rightarrow> 'l option \<Rightarrow> 's \<Rightarrow> bool) \<Rightarrow> 's \<Rightarrow> 'l list \<Rightarrow> 's \<Rightarrow> bool"
  for step :: "'s \<Rightarrow> 'l option \<Rightarrow> 's \<Rightarrow> bool" where
  run_start: "labelled_run step s [] s"
| run_silent: "labelled_run step s tr s1 \<Longrightarrow> step s1 None s2 \<Longrightarrow> labelled_run step s tr s2"
| run_visible: "labelled_run step s tr s1 \<Longrightarrow> step s1 (Some l) s2 \<Longrightarrow> labelled_run step s (tr @ [l]) s2"

text \<open>
  An implementation of the counting semaphore, good for at most \<open>capacity\<close> tokens: each step
  either leaves the semaphore it stands for alone or is the step its label names.
\<close>

locale semaphore_implementation =
  fixes init :: 's
    and step :: "'s \<Rightarrow> sem_label option \<Rightarrow> 's \<Rightarrow> bool"
    and inv :: "'s \<Rightarrow> bool"
    and abs :: "'s \<Rightarrow> semaphore"
    and capacity :: nat
  assumes init_inv: "inv init"
    and init_abs: "abs init = sem_init"
    and step_inv: "inv s \<Longrightarrow> step s e s' \<Longrightarrow> (e = Some Signal \<Longrightarrow> sem_tokens (abs s) < capacity) \<Longrightarrow> inv s'"
    and step_silent: "inv s \<Longrightarrow> step s None s' \<Longrightarrow> abs s' = abs s"
    and step_visible: "inv s \<Longrightarrow> step s (Some l) s' \<Longrightarrow>
      (l = Signal \<Longrightarrow> sem_tokens (abs s) < capacity) \<Longrightarrow> sem_next l (abs s) = Some (abs s')"
begin

lemma run_simulated:
  "labelled_run step s0 tr s \<Longrightarrow> s0 = init \<Longrightarrow> posts tr \<le> capacity \<Longrightarrow> inv s \<and> sem_run tr sem_init = Some (abs s)"
proof (induction rule: labelled_run.induct)
  case (run_visible s tr s1 l s2)
  then have s1: "inv s1" "sem_run tr sem_init = Some (abs s1)" by (auto split: if_splits)
  have "sem_tokens (abs s1) < capacity" if "l = Signal"
    using sem_run_tokens [OF s1(2)] run_visible.prems that by (simp add: sem_init_def)
  then show ?case
    using s1 run_visible.hyps step_inv [of s1 "Some l" s2] step_visible [of s1 l s2] by (auto simp: sem_run_append)
qed (auto simp: init_inv init_abs step_silent intro: step_inv)

lemma tokens_accounted:
  assumes "labelled_run step init tr s" "posts tr \<le> capacity"
  shows "sem_tokens (abs s) + grants tr = posts tr"
  using run_simulated [OF assms(1) refl assms(2)] sem_run_tokens [of tr sem_init "abs s"] by (simp add: sem_init_def)

end

section \<open>AtomicEvent\<close>

text \<open>
  A thread in \<^verbatim>\<open>Wait\<close> is about to load the value, or holds the loaded value \<open>expected\<close> and is
  about to exchange. The load is relaxed, so the value \<open>seen\<close> may be any; the weak exchange may
  fail although the value is the expected one (\<open>spurious\<close>).
\<close>

datatype atomic_pc = Outside | Wait_load | Wait_exchange i32

record atomic_system =
  ae_value :: i32
  ae_pc :: "nat \<Rightarrow> atomic_pc"

definition AtomicEvent_new :: i32 where
  "AtomicEvent_new = 0"

definition AtomicEvent_Notify :: "i32 \<Rightarrow> i32" where
  "AtomicEvent_Notify v = v + 1"

definition AtomicEvent_GetValue :: "i32 \<Rightarrow> int" where
  "AtomicEvent_GetValue v = sint v"

fun AtomicEvent_Wait_step :: "i32 \<Rightarrow> bool \<Rightarrow> i32 \<Rightarrow> atomic_pc \<Rightarrow> i32 \<times> atomic_pc" where
  "AtomicEvent_Wait_step seen spurious v Outside = (v, Outside)"
| "AtomicEvent_Wait_step seen spurious v Wait_load =
     (v, if 0 < sint seen then Wait_exchange seen else Wait_load)"
| "AtomicEvent_Wait_step seen spurious v (Wait_exchange expected) =
     (if v = expected \<and> \<not> spurious then (expected - 1, Outside) else (v, Wait_load))"

definition atomic_start :: atomic_system where
  "atomic_start = \<lparr>ae_value = AtomicEvent_new, ae_pc = (\<lambda>t. Outside)\<rparr>"

definition atomic_update :: "nat \<Rightarrow> i32 \<times> atomic_pc \<Rightarrow> atomic_system \<Rightarrow> atomic_system" where
  "atomic_update t vp s = s\<lparr>ae_value := fst vp, ae_pc := (ae_pc s)(t := snd vp)\<rparr>"

inductive atomic_step :: "atomic_system \<Rightarrow> sem_label option \<Rightarrow> atomic_system \<Rightarrow> bool" where
  atomic_notify: "atomic_step s (Some Signal) (s\<lparr>ae_value := AtomicEvent_Notify (ae_value s)\<rparr>)"
| atomic_enter: "ae_pc s t = Outside \<Longrightarrow> atomic_step s (Some (Request t)) (s\<lparr>ae_pc := (ae_pc s)(t := Wait_load)\<rparr>)"
| atomic_wait: "ae_pc s t \<noteq> Outside \<Longrightarrow> vp = AtomicEvent_Wait_step seen spurious (ae_value s) (ae_pc s t) \<Longrightarrow>
    atomic_step s (if snd vp = Outside then Some (Grant t) else None) (atomic_update t vp s)"

inductive_cases atomic_stepE: "atomic_step s e s'"

definition atomic_abs :: "atomic_system \<Rightarrow> semaphore" where
  "atomic_abs s = \<lparr>sem_tokens = unat (ae_value s), sem_waiting = {t. ae_pc s t \<noteq> Outside}\<rparr>"

text \<open>Only positive values are ever expected, and the count has not overflowed.\<close>

definition atomic_inv :: "atomic_system \<Rightarrow> bool" where
  "atomic_inv s \<longleftrightarrow> 0 \<le> sint (ae_value s) \<and> (\<forall>t e. ae_pc s t = Wait_exchange e \<longrightarrow> 0 < sint e)"

interpretation atomic: semaphore_implementation atomic_start atomic_step atomic_inv atomic_abs "2 ^ 31 - 1"
proof
  show "atomic_inv s'" if "atomic_inv s" "atomic_step s e s'"
    "e = Some Signal \<Longrightarrow> sem_tokens (atomic_abs s) < 2 ^ 31 - 1" for s e s'
    using that(2)
  proof cases
    case atomic_notify
    then show ?thesis using that sint_Suc_i32 [of "ae_value s"]
      by (auto simp: atomic_inv_def atomic_abs_def AtomicEvent_Notify_def)
  next
    case (atomic_wait t vp seen spurious)
    then show ?thesis using that(1) sint_pred_i32 [of "ae_value s"]
      by (cases "ae_pc s t") (auto simp: atomic_inv_def atomic_update_def)
  qed (use that(1) in \<open>auto simp: atomic_inv_def\<close>)
  show "atomic_abs s' = atomic_abs s" if "atomic_inv s" "atomic_step s None s'" for s s'
    using that(2)
  proof cases
    case (atomic_wait t vp seen spurious)
    then show ?thesis
      by (cases "ae_pc s t") (auto simp: atomic_abs_def atomic_update_def split: if_splits)
  qed
  show "sem_next l (atomic_abs s) = Some (atomic_abs s')" if "atomic_inv s" "atomic_step s (Some l) s'"
    "l = Signal \<Longrightarrow> sem_tokens (atomic_abs s) < 2 ^ 31 - 1" for s l s'
    using that(2)
  proof cases
    case atomic_notify
    then show ?thesis using that sint_Suc_i32 [of "ae_value s"]
      by (auto simp: atomic_inv_def atomic_abs_def AtomicEvent_Notify_def)
  next
    case (atomic_wait t vp seen spurious)
    then show ?thesis using that(1) sint_pred_i32 [of "ae_value s"]
      by (cases "ae_pc s t") (auto simp: atomic_inv_def atomic_abs_def atomic_update_def split: if_splits)
  qed (auto simp: atomic_abs_def)
qed (auto simp: atomic_inv_def atomic_abs_def atomic_start_def sem_init_def AtomicEvent_new_def)

section \<open>SyncEvent\<close>

text \<open>
  A thread in \<^verbatim>\<open>Wait\<close> or \<^verbatim>\<open>TimedWait\<close> is about to take the mutex, sleeps on the condition
  variable, or, in \<^verbatim>\<open>TimedWait\<close>, was woken, with the result of \<^verbatim>\<open>timed_wait\<close>. The mutex makes each
  stretch between two of these points one step. A sleeping thread wakes on a notification, on
  a timeout, or for no reason at all; \<^verbatim>\<open>timed_wait\<close> returns false on a timeout only.
\<close>

datatype wait_kind = Untimed | Timed

datatype sync_pc = Sync_outside | Locking wait_kind | Asleep wait_kind | Woken bool

record sync_system =
  se_value :: i32
  se_reset :: bool
  se_pc :: "nat \<Rightarrow> sync_pc"
  se_results :: "(nat \<times> bool) list"

definition SyncEvent_new :: "bool \<Rightarrow> sync_system" where
  "SyncEvent_new auto_reset = \<lparr>se_value = 0, se_reset = auto_reset, se_pc = (\<lambda>t. Sync_outside), se_results = []\<rparr>"

definition wake :: "bool \<Rightarrow> sync_pc \<Rightarrow> sync_pc" where
  "wake r p = (case p of Asleep Untimed \<Rightarrow> Locking Untimed | Asleep Timed \<Rightarrow> Woken r | _ \<Rightarrow> p)"

definition SyncEvent_Notify :: "sync_system \<Rightarrow> sync_system" where
  "SyncEvent_Notify s = s\<lparr>se_value := se_value s + 1, se_pc := wake True \<circ> se_pc s\<rparr>"

definition take_value :: "sync_system \<Rightarrow> i32 result" where
  "take_value s = CHECK (0 < sint (se_value s)) (Inr (if se_reset s then 0 else se_value s - 1))"

definition SyncEvent_Wait :: "nat \<Rightarrow> sync_system \<Rightarrow> sync_system result" where
  "SyncEvent_Wait t s =
     (if se_value s = 0 then Inr (s\<lparr>se_pc := (se_pc s)(t := Asleep Untimed)\<rparr>)
      else bind_result (take_value s) (\<lambda>v. Inr (s\<lparr>se_value := v, se_pc := (se_pc s)(t := Sync_outside)\<rparr>)))"

definition return_from :: "nat \<Rightarrow> bool \<Rightarrow> sync_system \<Rightarrow> sync_system" where
  "return_from t r s = s\<lparr>se_pc := (se_pc s)(t := Sync_outside), se_results := se_results s @ [(t, r)]\<rparr>"

definition SyncEvent_TimedWait :: "nat \<Rightarrow> sync_system \<Rightarrow> sync_system result" where
  "SyncEvent_TimedWait t s =
     (if se_value s = 0 then Inr (s\<lparr>se_pc := (se_pc s)(t := Asleep Timed)\<rparr>)
      else bind_result (take_value s) (\<lambda>v. Inr (return_from t True (s\<lparr>se_value := v\<rparr>))))"

definition wait_label :: "nat \<Rightarrow> sync_system \<Rightarrow> sem_label option" where
  "wait_label t s = (if se_pc s t = Sync_outside then Some (Grant t) else None)"

inductive sync_step :: "sync_system \<Rightarrow> sem_label option \<Rightarrow> sync_system \<Rightarrow> bool" where
  sync_notify: "sync_step s (Some Signal) (SyncEvent_Notify s)"
| sync_enter: "se_pc s t = Sync_outside \<Longrightarrow>
    sync_step s (Some (Request t)) (s\<lparr>se_pc := (se_pc s)(t := Locking k)\<rparr>)"
| sync_wait: "se_pc s t = Locking Untimed \<Longrightarrow> SyncEvent_Wait t s = Inr s' \<Longrightarrow> sync_step s (wait_label t s') s'"
| sync_timed_wait: "se_pc s t = Locking Timed \<Longrightarrow> SyncEvent_TimedWait t s = Inr s' \<Longrightarrow>
    sync_step s (wait_label t s') s'"
| sync_wake: "se_pc s t = Asleep k \<Longrightarrow> sync_step s None (s\<lparr>se_pc := (se_pc s)(t := wake r (Asleep k))\<rparr>)"
| sync_return: "se_pc s t = Woken r \<Longrightarrow> sync_step s (Some (Give_up t)) (return_from t r s)"

definition sync_abs :: "sync_system \<Rightarrow> semaphore" where
  "sync_abs s = \<lparr>sem_tokens = unat (se_value s), sem_waiting = {t. se_pc s t \<noteq> Sync_outside}\<rparr>"

definition sync_inv :: "sync_system \<Rightarrow> bool" where
  "sync_inv s \<longleftrightarrow> \<not> se_reset s \<and> 0 \<le> sint (se_value s) \<and> (\<forall>t k. se_pc s t = Asleep k \<longrightarrow> se_value s = 0)"

lemma wake_simps [simp]:
  "wake r Sync_outside = Sync_outside" "wake r (Locking k) = Locking k" "wake r (Woken r') = Woken r'"
  "wake r p \<noteq> Asleep k" "wake r p = Sync_outside \<longleftrightarrow> p = Sync_outside"
  by (auto simp: wake_def split: sync_pc.splits wait_kind.splits)

lemma waits_result:
  assumes "sync_inv s" "se_pc s t \<noteq> Sync_outside"
  shows "SyncEvent_Wait t s = Inr s' \<Longrightarrow> sync_inv s' \<and> (case wait_label t s' of
      None \<Rightarrow> sync_abs s' = sync_abs s | Some l \<Rightarrow> l \<noteq> Signal \<and> sem_next l (sync_abs s) = Some (sync_abs s'))"
    and "SyncEvent_TimedWait t s = Inr s' \<Longrightarrow> sync_inv s' \<and> (case wait_label t s' of
      None \<Rightarrow> sync_abs s' = sync_abs s | Some l \<Rightarrow> l \<noteq> Signal \<and> sem_next l (sync_abs s) = Some (sync_abs s'))"
  using assms sint_pred_i32 [of "se_value s"]
  by (auto simp: SyncEvent_Wait_def SyncEvent_TimedWait_def take_value_def return_from_def sync_inv_def
      sync_abs_def wait_label_def CHECK_def split: if_splits)

lemma sync_step_inv:
  assumes "sync_step s e s'" "sync_inv s" "e = Some Signal \<Longrightarrow> sem_tokens (sync_abs s) < 2 ^ 31 - 1"
  shows "sync_inv s' \<and> (case e of None \<Rightarrow> sync_abs s' = sync_abs s
      | Some l \<Rightarrow> sem_next l (sync_abs s) = Some (sync_abs s'))"
  using assms
proof cases
  case sync_notify
  then show ?thesis using assms sint_Suc_i32 [of "se_value s"]
    by (auto simp: sync_inv_def sync_abs_def SyncEvent_Notify_def)
next
  case (sync_wait t)
  then show ?thesis using assms(2) waits_result(1) [of s t s'] by (auto split: option.splits)
next
  case (sync_timed_wait t)
  then show ?thesis using assms(2) waits_result(2) [of s t s'] by (auto split: option.splits)
qed (use assms(2) in \<open>auto simp: sync_inv_def sync_abs_def return_from_def\<close>)

interpretation sync: semaphore_implementation "SyncEvent_new False" sync_step sync_inv sync_abs "2 ^ 31 - 1"
proof
  show "sync_inv s'" if "sync_inv s" "sync_step s e s'"
    "e = Some Signal \<Longrightarrow> sem_tokens (sync_abs s) < 2 ^ 31 - 1" for s e s'
    using sync_step_inv [OF that(2,1,3)] by simp
  show "sync_abs s' = sync_abs s" if "sync_inv s" "sync_step s None s'" for s s'
    using sync_step_inv [OF that(2,1)] by simp
  show "sem_next l (sync_abs s) = Some (sync_abs s')" if "sync_inv s" "sync_step s (Some l) s'"
    "l = Signal \<Longrightarrow> sem_tokens (sync_abs s) < 2 ^ 31 - 1" for s l s'
    using sync_step_inv [OF that(2,1)] that(3) by simp
qed (simp_all add: sync_inv_def sync_abs_def SyncEvent_new_def sem_init_def)

section \<open>Semaphore\<close>

text \<open>
  The POSIX calls the class makes: \<^verbatim>\<open>sem_post\<close> fails at \<^verbatim>\<open>SEM_VALUE_MAX\<close>, \<^verbatim>\<open>sem_wait\<close> fails when a
  signal handler interrupts it, and the deadline of \<^verbatim>\<open>sem_timedwait\<close> is a time since the epoch.
  What happens to a caller that blocks until a deadline is the argument \<open>blocked\<close>.
\<close>

datatype errno = EINTR | ETIMEDOUT | EOVERFLOW

definition sem_value_max :: nat where
  "sem_value_max = 2 ^ 31 - 1"

definition sem_post :: "nat \<Rightarrow> errno + nat" where
  "sem_post v = (if v < sem_value_max then Inr (v + 1) else Inl EOVERFLOW)"

text \<open>Nanoseconds since the epoch.\<close>

definition timespec :: "nat \<Rightarrow> nat \<Rightarrow> nat" where
  "timespec tv_sec tv_nsec = tv_sec * 1000000000 + tv_nsec"

definition sem_timedwait :: "nat \<Rightarrow> (nat \<Rightarrow> (errno + unit) \<times> nat) \<Rightarrow> nat \<Rightarrow> nat \<Rightarrow> (errno + unit) \<times> nat" where
  "sem_timedwait clock blocked deadline v =
     (if 0 < v then (Inr (), v - 1)
      else if deadline \<le> clock then (Inl ETIMEDOUT, v)
      else blocked deadline)"

definition Semaphore_new :: nat where
  "Semaphore_new = 0"

definition Semaphore_Notify :: "nat \<Rightarrow> nat result" where
  "Semaphore_Notify v = (case sem_post v of Inl e \<Rightarrow> Inl Check_failed | Inr v \<Rightarrow> Inr v)"

text \<open>\<^verbatim>\<open>Wait\<close> in the state in which \<^verbatim>\<open>sem_wait\<close> returns, interrupted or not; without a token it does not.\<close>

definition Semaphore_Wait :: "bool \<Rightarrow> nat \<Rightarrow> nat result" where
  "Semaphore_Wait interrupted v =
     (if 0 < v then Inr (v - 1) else if interrupted then Inl Check_failed else Inl Blocked_forever)"

definition Semaphore_TimedWait ::
  "nat \<Rightarrow> (nat \<Rightarrow> (errno + unit) \<times> nat) \<Rightarrow> u32 \<Rightarrow> nat \<Rightarrow> (bool \<times> nat) result" where
  "Semaphore_TimedWait clock blocked duration_in_ms v =
     (case sem_timedwait clock blocked
         (timespec (unat (duration_in_ms div 1000)) (unat (duration_in_ms mod 1000 * 1000000))) v of
        (Inr _, v) \<Rightarrow> Inr (True, v)
      | (Inl e, v) \<Rightarrow> CHECK (e = ETIMEDOUT) (Inr (False, v)))"

definition Semaphore_GetValue :: "nat \<Rightarrow> nat" where
  "Semaphore_GetValue v = v"

record posix_system =
  ps_value :: nat
  ps_waiting :: "nat \<Rightarrow> bool"

definition posix_start :: posix_system where
  "posix_start = \<lparr>ps_value = Semaphore_new, ps_waiting = (\<lambda>t. False)\<rparr>"

inductive posix_step :: "posix_system \<Rightarrow> sem_label option \<Rightarrow> posix_system \<Rightarrow> bool" where
  posix_notify: "Semaphore_Notify (ps_value s) = Inr v \<Longrightarrow> posix_step s (Some Signal) (s\<lparr>ps_value := v\<rparr>)"
| posix_enter: "\<not> ps_waiting s t \<Longrightarrow>
    posix_step s (Some (Request t)) (s\<lparr>ps_waiting := (ps_waiting s)(t := True)\<rparr>)"
| posix_wait: "ps_waiting s t \<Longrightarrow> Semaphore_Wait intr (ps_value s) = Inr v \<Longrightarrow>
    posix_step s (Some (Grant t)) (s\<lparr>ps_value := v, ps_waiting := (ps_waiting s)(t := False)\<rparr>)"

definition posix_abs :: "posix_system \<Rightarrow> semaphore" where
  "posix_abs s = \<lparr>sem_tokens = ps_value s, sem_waiting = {t. ps_waiting s t}\<rparr>"

interpretation posix: semaphore_implementation posix_start posix_step "\<lambda>s. True" posix_abs sem_value_max
proof
  show "posix_abs s' = posix_abs s" if "posix_step s None s'" for s s'
    using that by cases
  show "sem_next l (posix_abs s) = Some (posix_abs s')" if "posix_step s (Some l) s'" for s l s'
    using that
    by cases (auto simp: posix_abs_def Semaphore_Notify_def sem_post_def Semaphore_Wait_def split: if_splits sum.splits)
qed (simp_all add: posix_abs_def posix_start_def sem_init_def Semaphore_new_def)

subsection \<open>Sample runs\<close>

text \<open>One notification and a thread that has just called \<^verbatim>\<open>Wait\<close>; a thread asleep in \<^verbatim>\<open>TimedWait\<close>.\<close>

definition sample_waiting :: atomic_system where
  "sample_waiting = \<lparr>ae_value = 1, ae_pc = (\<lambda>t. Outside)(0 := Wait_load)\<rparr>"

definition sample_asleep :: sync_system where
  "sample_asleep = (SyncEvent_new False)\<lparr>se_pc := (\<lambda>t. Sync_outside)(0 := Asleep Timed)\<rparr>"

lemma sample_waiting_run: "labelled_run atomic_step atomic_start [Signal, Request 0] sample_waiting"
proof -
  let ?s = "atomic_start\<lparr>ae_value := AtomicEvent_Notify (ae_value atomic_start)\<rparr>"
  have "labelled_run atomic_step atomic_start ([] @ [Signal]) ?s"
    by (rule run_visible, rule run_start, rule atomic_notify)
  then have "labelled_run atomic_step atomic_start (([] @ [Signal]) @ [Request 0]) (?s\<lparr>ae_pc := (ae_pc ?s)(0 := Wait_load)\<rparr>)"
    by (rule run_visible, intro atomic_enter) (simp add: atomic_start_def)
  then show ?thesis
    by (simp add: sample_waiting_def atomic_start_def AtomicEvent_Notify_def AtomicEvent_new_def)
qed

lemma sample_asleep_run: "labelled_run sync_step (SyncEvent_new False) [Request 0] sample_asleep"
proof -
  let ?s = "(SyncEvent_new False)\<lparr>se_pc := (se_pc (SyncEvent_new False))(0 := Locking Timed)\<rparr>"
  have "labelled_run sync_step (SyncEvent_new False) ([] @ [Request 0]) ?s"
    by (rule run_visible, rule run_start, intro sync_enter) (simp add: SyncEvent_new_def)
  moreover have "SyncEvent_TimedWait 0 ?s = Inr sample_asleep" "se_pc ?s 0 = Locking Timed"
    by (simp_all add: SyncEvent_TimedWait_def SyncEvent_new_def sample_asleep_def)
  moreover have "wait_label 0 sample_asleep = None" by (simp add: wait_label_def sample_asleep_def)
  ultimately show ?thesis using run_silent sync_timed_wait by (metis append_Nil)
qed

section \<open>Properties\<close>

text \<open>
  C14: A run of any number of threads notifying and waiting on an \<^verbatim>\<open>AtomicEvent\<close>, with loads that
  return stale values and exchanges that fail spuriously, is a run of a counting semaphore as
  long as the notifications fit an \<^verbatim>\<open>int\<close>: a \<^verbatim>\<open>Wait\<close> returns only when there is a token, and the
  value is the notifications less the waits that returned.
\<close>

theorem AtomicEvent_refines_semaphore:
  assumes "labelled_run atomic_step atomic_start tr s" "posts tr < 2 ^ 31"
  shows "sem_run tr sem_init = Some (atomic_abs s)
    \<and> AtomicEvent_GetValue (ae_value s) = int (posts tr) - int (grants tr)"
proof -
  have inv: "atomic_inv s" "sem_run tr sem_init = Some (atomic_abs s)"
    using atomic.run_simulated [OF assms(1) refl] assms(2) by auto
  have "sem_tokens (atomic_abs s) + grants tr = posts tr"
    using atomic.tokens_accounted [OF assms(1)] assms(2) by simp
  moreover have "sint (ae_value s) = int (sem_tokens (atomic_abs s))"
    using inv(1) unat_i32_less [of "ae_value s"]
    by (simp add: atomic_inv_def atomic_abs_def sint_i32 del: of_nat_unat split: if_splits)
  ultimately show ?thesis using inv(2) by (simp add: AtomicEvent_GetValue_def)
qed

theorem AtomicEvent_refines_semaphore_witness:
  "sem_run [Signal, Request 0] sem_init = Some (atomic_abs sample_waiting)
    \<and> AtomicEvent_GetValue (ae_value sample_waiting) = 1"
  using AtomicEvent_refines_semaphore [OF sample_waiting_run] by (simp add: is_Grant_def)

text \<open>A thread that takes two steps on its own, on fresh values and without spurious failures.\<close>

definition solo_wait :: "nat \<Rightarrow> atomic_system \<Rightarrow> atomic_system" where
  "solo_wait t s = atomic_update t (AtomicEvent_Wait_step (ae_value s) False (ae_value s) (ae_pc s t)) s"

lemma solo_wait_step: "ae_pc s t \<noteq> Outside \<Longrightarrow> \<exists>e. atomic_step s e (solo_wait t s)"
  unfolding solo_wait_def by (intro exI) (rule atomic_wait [OF _ refl])

text \<open>
  C25: \<^verbatim>\<open>AtomicEvent::Wait\<close> returns. In whatever state the other threads have brought it, a waiting
  thread that finds a token is through after at most three steps of its own if it is not
  interrupted: one to notice that its expected value is stale, one to load and one to exchange.
\<close>

theorem AtomicEvent_Wait_returns:
  assumes "labelled_run atomic_step atomic_start tr s" "posts tr < 2 ^ 31"
    and "ae_pc s t \<noteq> Outside" "grants tr < posts tr"
  shows "\<exists>n \<in> {1, 2, 3}. ae_pc ((solo_wait t ^^ n) s) t = Outside
    \<and> ae_value ((solo_wait t ^^ n) s) = ae_value s - 1"
proof -
  have "atomic_inv s" using atomic.run_simulated [OF assms(1) refl] assms(2) by auto
  moreover have "sem_tokens (atomic_abs s) \<noteq> 0"
    using atomic.tokens_accounted [OF assms(1)] assms(2,4) by simp
  ultimately have pos: "0 < sint (ae_value s)"
    using unat_i32_less [of "ae_value s"]
    by (simp add: atomic_inv_def atomic_abs_def sint_i32 del: of_nat_unat split: if_splits)
  note unfolded = solo_wait_def atomic_update_def numeral_3_eq_3 numeral_2_eq_2
  show ?thesis
  proof (cases "ae_pc s t")
    case Wait_load
    then show ?thesis using pos by (intro bexI [of _ 2]) (simp_all add: unfolded)
  next
    case (Wait_exchange e)
    then show ?thesis
    proof (cases "e = ae_value s")
      case False
      then show ?thesis using pos Wait_exchange by (intro bexI [of _ 3]) (simp_all add: unfolded)
    qed (use Wait_exchange in \<open>intro bexI [of _ 1], simp_all add: unfolded\<close>)
  qed (use assms(3) in simp)
qed

theorem AtomicEvent_Wait_returns_witness:
  "\<exists>n \<in> {1, 2, 3}. ae_pc ((solo_wait 0 ^^ n) sample_waiting) 0 = Outside
    \<and> ae_value ((solo_wait 0 ^^ n) sample_waiting) = 0"
  using AtomicEvent_Wait_returns [OF sample_waiting_run, of 0] by (simp add: is_Grant_def sample_waiting_def)



text \<open>
  A \<^verbatim>\<open>SyncEvent::TimedWait\<close> that had to sleep returns true when it was woken, without
  looking at the value: no token is taken, so that one notification answers both this call and
  the next one, and a spurious wake-up answers it although nobody notified.
\<close>

theorem SyncEvent_TimedWait_keeps_token:
  assumes "se_pc s t = Asleep Timed"
  shows "\<exists>s1 s2. sync_step s None s1 \<and> sync_step s1 (Some (Give_up t)) s2
      \<and> se_results s2 = se_results s @ [(t, True)] \<and> se_value s2 = se_value s
    \<and> (\<exists>s3. sync_step (SyncEvent_Notify s) (Some (Give_up t)) s3
      \<and> se_results s3 = se_results s @ [(t, True)] \<and> se_value s3 = se_value s + 1)"
proof -
  let ?s1 = "s\<lparr>se_pc := (se_pc s)(t := wake True (Asleep Timed))\<rparr>"
  have "sync_step s None ?s1" by (rule sync_wake [OF assms])
  moreover have "sync_step ?s1 (Some (Give_up t)) (return_from t True ?s1)"
    by (rule sync_return) (simp add: wake_def)
  moreover have "sync_step (SyncEvent_Notify s) (Some (Give_up t)) (return_from t True (SyncEvent_Notify s))"
    by (rule sync_return) (simp add: SyncEvent_Notify_def wake_def assms)
  ultimately show ?thesis
    by (intro exI [of _ ?s1] exI [of _ "return_from t True ?s1"] conjI
        exI [of _ "return_from t True (SyncEvent_Notify s)"]) (simp_all add: return_from_def SyncEvent_Notify_def)
qed

theorem SyncEvent_TimedWait_keeps_token_witness:
  "labelled_run sync_step (SyncEvent_new False) [Request 0] sample_asleep
    \<and> (\<exists>s1 s2. sync_step sample_asleep None s1 \<and> sync_step s1 (Some (Give_up 0)) s2
      \<and> se_results s2 = [(0, True)] \<and> se_value s2 = 0)"
  using SyncEvent_TimedWait_keeps_token [of sample_asleep 0] sample_asleep_run
  by (force simp: sample_asleep_def SyncEvent_new_def)

text \<open>
  \<^verbatim>\<open>Semaphore::TimedWait\<close> gives the duration as the deadline. Every duration an \<^verbatim>\<open>uint32\<close> of
  milliseconds can name was over fifty days after the epoch, so that after that the call never
  waits: it polls the semaphore and returns.
\<close>

theorem Semaphore_TimedWait_polls:
  assumes "2 ^ 32 * 1000000 \<le> clock"
  shows "Semaphore_TimedWait clock blocked duration_in_ms v = (if 0 < v then Inr (True, v - 1) else Inr (False, v))"
proof -
  let ?d = "unat duration_in_ms"
  have "unat (duration_in_ms mod 1000 * 1000000) = ?d mod 1000 * 1000000"
    by (simp add: unat_word_ariths unat_mod)
  moreover have "unat (duration_in_ms div 1000) = ?d div 1000" by (simp add: unat_div)
  moreover have "?d div 1000 * 1000 + ?d mod 1000 = ?d" by (rule div_mult_mod_eq)
  ultimately have "timespec (unat (duration_in_ms div 1000)) (unat (duration_in_ms mod 1000 * 1000000))
      = ?d * 1000000"
    unfolding timespec_def by linarith
  also have "\<dots> \<le> clock" using assms unat_i32_less [of duration_in_ms] by simp
  finally show ?thesis by (simp add: Semaphore_TimedWait_def sem_timedwait_def)
qed

theorem Semaphore_TimedWait_polls_witness:
  "Semaphore_TimedWait (2 ^ 60) (\<lambda>d. (Inr (), 0)) 5000 0 = Inr (False, 0)"
  using Semaphore_TimedWait_polls [of "2 ^ 60" "\<lambda>d. (Inr (), 0)" 5000 0] by simp

end
