(* ===== verification/Network_Dispatcher.thy ===== *)
theory Network_Dispatcher
  imports Rpc_Events Std_Map "HOL-Library.Multiset"
begin

text \<open>
  \<^verbatim>\<open>NetworkDispatcher\<close> (\<^verbatim>\<open>rpc/detail/network_dispatcher.h\<close> and \<^verbatim>\<open>.cc\<close>): the thread that runs the
  handlers of a group of channels, the pool of these channels, and the counted references
  (\<^verbatim>\<open>rpc/detail/ref_count.h\<close>) by which the pool and the handlers keep the channels alive.

  A channel is seen here as an object with a reference count and the two flags that decide its
  fate; what it reads and writes is the matter of \<^verbatim>\<open>Rpc_Channel\<close>. The handlers \<^verbatim>\<open>boost::asio\<close>
  still has to call are a list; any of them may complete next.
\<close>

section \<open>Reference counts\<close>

definition RefCount_new :: i32 where
  "RefCount_new = 1"

definition RefCount_UsedCount :: "i32 \<Rightarrow> int" where
  "RefCount_UsedCount c = sint c"

definition RefCount_Ref :: "i32 \<Rightarrow> i32" where
  "RefCount_Ref c = c + 1"

text \<open>\<^verbatim>\<open>UnRef\<close> gives the new count, or \<open>None\<close> when the object deleted itself.\<close>

definition RefCount_UnRef :: "i32 \<Rightarrow> i32 option result" where
  "RefCount_UnRef c = CHECK (1 \<le> sint c) (Inr (if c - 1 = 0 then None else Some (c - 1)))"

section \<open>State\<close>

record channel_object =
  ref_count :: i32
  ch_terminated :: bool
  ch_closed_by_peer :: bool

text \<open>
  What \<^verbatim>\<open>boost::asio\<close> is asked to call: \<^verbatim>\<open>StartChannelInLoop\<close>, \<^verbatim>\<open>ReadInLoop\<close> and \<^verbatim>\<open>Written\<close> hold a counted
  pointer to their channel; \<^verbatim>\<open>TerminateChannelInLoop\<close> a plain one; the others none.
\<close>

datatype handler =
    Start_channel nat
  | Read_some nat
  | Write_all nat
  | Terminate_channel "nat option"
  | Close_all_channels
  | Foreign nat

fun holds :: "handler \<Rightarrow> nat option" where
  "holds (Start_channel a) = Some a"
| "holds (Read_some a) = Some a"
| "holds (Write_all a) = Some a"
| "holds _ = None"

record dispatcher_state =
  channels :: "nat \<rightharpoonup> channel_object"
  next_channel :: nat
  channel_pool :: "(nat, nat) std_map"
  num_channels_threshold :: u32
  need_stop :: bool
  stopped :: nat
  keep_working :: bool
  loop_thread :: bool
  outstanding :: "handler list"

definition NetworkDispatcher_new :: "i32 \<Rightarrow> dispatcher_state result" where
  "NetworkDispatcher_new threshold =
     CHECK (0 \<le> sint threshold) (Inr \<lparr>channels = Map.empty, next_channel = 0, channel_pool = [],
       num_channels_threshold = threshold, need_stop = False, stopped = Semaphore_new,
       keep_working = False, loop_thread = False, outstanding = []\<rparr>)"

section \<open>Operations\<close>

definition channel_at :: "nat \<Rightarrow> 'z dispatcher_state_scheme \<Rightarrow> channel_object result" where
  "channel_at a st = (case channels st a of None \<Rightarrow> Inl Dangling_pointer | Some c \<Rightarrow> Inr c)"

definition set_channel :: "nat \<Rightarrow> channel_object option \<Rightarrow> 'z dispatcher_state_scheme \<Rightarrow> 'z dispatcher_state_scheme" where
  "set_channel a c st = st\<lparr>channels := (channels st)(a := c)\<rparr>"

definition intrusive_ptr_add_ref :: "nat \<Rightarrow> 'z dispatcher_state_scheme \<Rightarrow> 'z dispatcher_state_scheme result" where
  "intrusive_ptr_add_ref a st =
     bind_result (channel_at a st) (\<lambda>c. Inr (set_channel a (Some (c\<lparr>ref_count := RefCount_Ref (ref_count c)\<rparr>)) st))"

definition intrusive_ptr_release :: "nat \<Rightarrow> 'z dispatcher_state_scheme \<Rightarrow> 'z dispatcher_state_scheme result" where
  "intrusive_ptr_release a st =
     bind_result (channel_at a st) (\<lambda>c.
     bind_result (RefCount_UnRef (ref_count c)) (\<lambda>n.
     Inr (set_channel a (map_option (\<lambda>n. c\<lparr>ref_count := n\<rparr>) n) st)))"

text \<open>A handler is handed to \<^verbatim>\<open>boost::asio\<close>, with a counted pointer of its own.\<close>

definition submit :: "handler \<Rightarrow> 'z dispatcher_state_scheme \<Rightarrow> 'z dispatcher_state_scheme result" where
  "submit h st =
     bind_result (case holds h of None \<Rightarrow> Inr st | Some a \<Rightarrow> intrusive_ptr_add_ref a st) (\<lambda>st.
     Inr (st\<lparr>outstanding := outstanding st @ [h]\<rparr>))"

definition Dispatcher_TerminateInLoop :: "nat \<Rightarrow> 'z dispatcher_state_scheme \<Rightarrow> 'z dispatcher_state_scheme result" where
  "Dispatcher_TerminateInLoop a st =
     bind_result (channel_at a st) (\<lambda>c. Inr (set_channel a (Some (c\<lparr>ch_terminated := True\<rparr>)) st))"

fun terminate_each :: "nat list \<Rightarrow> 'z dispatcher_state_scheme \<Rightarrow> 'z dispatcher_state_scheme result" where
  "terminate_each [] st = Inr st"
| "terminate_each (a # as) st = bind_result (Dispatcher_TerminateInLoop a st) (terminate_each as)"

definition CloseAllChannelsInLoop :: "'z dispatcher_state_scheme \<Rightarrow> 'z dispatcher_state_scheme result" where
  "CloseAllChannelsInLoop st = terminate_each (map snd (channel_pool st)) st"

definition ReleaseChannel :: "nat \<Rightarrow> 'z dispatcher_state_scheme \<Rightarrow> 'z dispatcher_state_scheme result" where
  "ReleaseChannel a st =
     (case map_find a (channel_pool st) of
        None \<Rightarrow> Inr st
      | Some _ \<Rightarrow> intrusive_ptr_release a (st\<lparr>channel_pool := map_erase a (channel_pool st)\<rparr>))"

definition SaveChannel :: "nat \<Rightarrow> 'z dispatcher_state_scheme \<Rightarrow> (bool \<times> 'z dispatcher_state_scheme) result" where
  "SaveChannel a st =
     (if length (channel_pool st) = unat (num_channels_threshold st) then Inr (False, st)
      else case map_insert a a (channel_pool st) of (saved, inserted) \<Rightarrow>
        CHECK inserted (bind_result (intrusive_ptr_add_ref a (st\<lparr>channel_pool := saved\<rparr>)) (\<lambda>st. Inr (True, st))))"

definition Dispatcher_StartToRead :: "nat \<Rightarrow> 'z dispatcher_state_scheme \<Rightarrow> 'z dispatcher_state_scheme result" where
  "Dispatcher_StartToRead a st = submit (Read_some a) st"

definition StartChannelInLoop :: "nat \<Rightarrow> 'z dispatcher_state_scheme \<Rightarrow> 'z dispatcher_state_scheme result" where
  "StartChannelInLoop a st =
     bind_result (SaveChannel a st) (\<lambda>(saved, st).
     if \<not> saved then Dispatcher_TerminateInLoop a st else Dispatcher_StartToRead a st)"

definition TerminateChannelInLoop :: "nat option \<Rightarrow> 'z dispatcher_state_scheme \<Rightarrow> 'z dispatcher_state_scheme result" where
  "TerminateChannelInLoop channel st =
     (case channel of None \<Rightarrow> Inl Null_pointer | Some a \<Rightarrow> Dispatcher_TerminateInLoop a st)"

text \<open>A response is sent through the plain pointer that the closure of the call kept.\<close>

definition Dispatcher_SendInLoop :: "nat \<Rightarrow> 'z dispatcher_state_scheme \<Rightarrow> 'z dispatcher_state_scheme result" where
  "Dispatcher_SendInLoop a st = bind_result (channel_at a st) (\<lambda>c. submit (Write_all a) st)"

text \<open>
  The part of \<^verbatim>\<open>ReadInLoop\<close> and \<^verbatim>\<open>Written\<close> that decides how long a server channel lives: a read
  error gives it back to the dispatcher, a read that brought data starts the next one, and both
  may start a write (\<open>writes\<close>: a response is sent at once, or more data is pending).
\<close>

definition channel_read :: "bool \<Rightarrow> bool \<Rightarrow> nat \<Rightarrow> 'z dispatcher_state_scheme \<Rightarrow> 'z dispatcher_state_scheme result" where
  "channel_read error writes a st =
     bind_result (channel_at a st) (\<lambda>c.
     if ch_terminated c then Inr st
     else if error then
       (if \<not> ch_closed_by_peer c then ReleaseChannel a (set_channel a (Some (c\<lparr>ch_closed_by_peer := True\<rparr>)) st)
        else Inr st)
     else bind_result (if writes then submit (Write_all a) st else Inr st) (Dispatcher_StartToRead a))"

definition channel_written :: "bool \<Rightarrow> bool \<Rightarrow> nat \<Rightarrow> 'z dispatcher_state_scheme \<Rightarrow> 'z dispatcher_state_scheme result" where
  "channel_written error writes a st =
     bind_result (channel_at a st) (\<lambda>c. if \<not> error \<and> writes then submit (Write_all a) st else Inr st)"

fun run_handler :: "bool \<Rightarrow> bool \<Rightarrow> handler \<Rightarrow> 'z dispatcher_state_scheme \<Rightarrow> 'z dispatcher_state_scheme result" where
  "run_handler error writes (Start_channel a) st = StartChannelInLoop a st"
| "run_handler error writes (Read_some a) st = channel_read error writes a st"
| "run_handler error writes (Write_all a) st = channel_written error writes a st"
| "run_handler error writes (Terminate_channel a) st = TerminateChannelInLoop a st"
| "run_handler error writes Close_all_channels st = CloseAllChannelsInLoop st"
| "run_handler error writes (Foreign n) st = Inr st"

text \<open>The handler is destroyed after it ran, and with it its counted pointer.\<close>

definition call_handler :: "bool \<Rightarrow> bool \<Rightarrow> handler \<Rightarrow> 'z dispatcher_state_scheme \<Rightarrow> 'z dispatcher_state_scheme result" where
  "call_handler error writes h st =
     bind_result (run_handler error writes h st) (\<lambda>st.
     case holds h of None \<Rightarrow> Inr st | Some a \<Rightarrow> intrusive_ptr_release a st)"

text \<open>
  \<^verbatim>\<open>io_service::dispatch\<close> calls the handler at once when the caller is the loop thread, and queues
  it otherwise. A bound action holds its counted pointer in both cases.
\<close>

definition Post :: "bool \<Rightarrow> handler \<Rightarrow> 'z dispatcher_state_scheme \<Rightarrow> 'z dispatcher_state_scheme result" where
  "Post in_loop h st =
     (if in_loop
      then bind_result (case holds h of None \<Rightarrow> Inr st | Some a \<Rightarrow> intrusive_ptr_add_ref a st)
        (call_handler False False h)
      else submit h st)"

definition StartChannel :: "bool \<Rightarrow> nat \<Rightarrow> 'z dispatcher_state_scheme \<Rightarrow> 'z dispatcher_state_scheme result" where
  "StartChannel in_loop a st = Post in_loop (Start_channel a) st"

definition TerminateChannel :: "bool \<Rightarrow> nat option \<Rightarrow> 'z dispatcher_state_scheme \<Rightarrow> 'z dispatcher_state_scheme result" where
  "TerminateChannel in_loop channel st = Post in_loop (Terminate_channel channel) st"

text \<open>
  The server accepted a connection for this dispatcher: a new channel, whose first reference the
  temporary counted pointer takes over.
\<close>

definition new_channel :: "'z dispatcher_state_scheme \<Rightarrow> nat \<times> 'z dispatcher_state_scheme" where
  "new_channel st =
     (next_channel st, (set_channel (next_channel st)
        (Some \<lparr>ref_count = RefCount_new, ch_terminated = False, ch_closed_by_peer = False\<rparr>) st)
        \<lparr>next_channel := next_channel st + 1\<rparr>)"

definition accept_channel :: "bool \<Rightarrow> 'z dispatcher_state_scheme \<Rightarrow> 'z dispatcher_state_scheme result" where
  "accept_channel in_loop st =
     (case new_channel st of (a, st) \<Rightarrow>
      bind_result (StartChannel in_loop a st) (intrusive_ptr_release a))"

definition complete :: "nat \<Rightarrow> bool \<Rightarrow> bool \<Rightarrow> 'z dispatcher_state_scheme \<Rightarrow> 'z dispatcher_state_scheme result" where
  "complete i error writes st =
     (if i < length (outstanding st)
      then call_handler error writes (outstanding st ! i)
        (st\<lparr>outstanding := take i (outstanding st) @ drop (Suc i) (outstanding st)\<rparr>)
      else Inr st)"

section \<open>The life of the channels\<close>

datatype dispatcher_event = Accepted_connection bool | Completed nat bool bool | Closing

fun dispatch_event :: "dispatcher_event \<Rightarrow> 'z dispatcher_state_scheme \<Rightarrow> 'z dispatcher_state_scheme result" where
  "dispatch_event (Accepted_connection in_loop) st = accept_channel in_loop st"
| "dispatch_event (Completed i error writes) st = complete i error writes st"
| "dispatch_event Closing st = Post False Close_all_channels st"

fun dispatch_events :: "dispatcher_event list \<Rightarrow> 'z dispatcher_state_scheme \<Rightarrow> 'z dispatcher_state_scheme result" where
  "dispatch_events [] st = Inr st"
| "dispatch_events (e # es) st = bind_result (dispatch_event e st) (dispatch_events es)"

text \<open>Who holds a counted pointer: the pool and the outstanding handlers.\<close>

definition owners :: "'z dispatcher_state_scheme \<Rightarrow> nat multiset" where
  "owners st = mset (map fst (channel_pool st)) + mset (List.map_filter holds (outstanding st))"

definition starting :: "'z dispatcher_state_scheme \<Rightarrow> nat list" where
  "starting st = List.map_filter (\<lambda>h. case h of Start_channel a \<Rightarrow> Some a | _ \<Rightarrow> None) (outstanding st)"

definition counted :: "nat \<Rightarrow> channel_object option \<Rightarrow> bool" where
  "counted n co \<longleftrightarrow> (case co of None \<Rightarrow> n = 0 | Some c \<Rightarrow> 0 < n \<and> unat (ref_count c) = n)"

definition counts_ok :: "nat multiset \<Rightarrow> 'z dispatcher_state_scheme \<Rightarrow> bool" where
  "counts_ok M st \<longleftrightarrow> (\<forall>a. counted (count M a) (channels st a))"

text \<open>
  The invariant, while the pointers in \<open>T\<close> are held by running code and the channels in \<open>S\<close> are
  about to be started: every channel is counted exactly, the pool holds at most the threshold,
  and no channel is started twice.
\<close>

definition dispatcher_ok :: "nat list \<Rightarrow> nat multiset \<Rightarrow> 'z dispatcher_state_scheme \<Rightarrow> bool" where
  "dispatcher_ok S T st \<longleftrightarrow> map_ok (channel_pool st) \<and> (\<forall>e \<in> set (channel_pool st). snd e = fst e)
     \<and> length (channel_pool st) \<le> unat (num_channels_threshold st)
     \<and> counts_ok (owners st + T) st \<and> (\<forall>a \<ge> next_channel st. channels st a = None)
     \<and> distinct (S @ starting st @ map fst (channel_pool st))
     \<and> (\<forall>a. Terminate_channel a \<notin> set (outstanding st))"

definition room :: "nat \<Rightarrow> nat multiset \<Rightarrow> 'z dispatcher_state_scheme \<Rightarrow> bool" where
  "room n T st \<longleftrightarrow> length (outstanding st) + size T + n < 2 ^ 31 - 1"

lemma set_channel_simps [simp]:
  "channels (set_channel a c st) = (channels st)(a := c)" "next_channel (set_channel a c st) = next_channel st"
  "channel_pool (set_channel a c st) = channel_pool st" "outstanding (set_channel a c st) = outstanding st"
  "num_channels_threshold (set_channel a c st) = num_channels_threshold st"
  "owners (set_channel a c st) = owners st" "starting (set_channel a c st) = starting st"
  by (simp_all add: set_channel_def owners_def starting_def)

lemma counts_ok_live:
  "counts_ok M st \<Longrightarrow> a \<in># M \<Longrightarrow> \<exists>c. channels st a = Some c \<and> unat (ref_count c) = count M a"
  by (auto simp: counts_ok_def counted_def split: option.splits dest!: spec [of _ a])

lemma counts_ok_update:
  "counts_ok M st \<Longrightarrow> (\<And>b. b \<noteq> a \<Longrightarrow> count M' b = count M b) \<Longrightarrow> counted (count M' a) co \<Longrightarrow>
     counts_ok M' (set_channel a co st)"
  by (simp add: counts_ok_def)

lemma add_ref_ok:
  assumes "counts_ok M st" "a \<in># M" "count M a < 2 ^ 31 - 1"
  shows "\<exists>c. intrusive_ptr_add_ref a st = Inr (set_channel a (Some c) st)
    \<and> counts_ok (add_mset a M) (set_channel a (Some c) st)"
proof -
  obtain c where c: "channels st a = Some c" "unat (ref_count c) = count M a"
    using counts_ok_live [OF assms(1,2)] by auto
  let ?c = "c\<lparr>ref_count := RefCount_Ref (ref_count c)\<rparr>"
  have "counted (count (add_mset a M) a) (Some ?c)"
    using sint_Suc_i32 [of "ref_count c"] c assms(3) by (simp add: counted_def RefCount_Ref_def)
  then have "counts_ok (add_mset a M) (set_channel a (Some ?c) st)"
    by (intro counts_ok_update [OF assms(1)]) simp_all
  then show ?thesis using c by (auto simp: intrusive_ptr_add_ref_def channel_at_def)
qed

lemma release_ok:
  assumes "counts_ok (add_mset a M) st" "count M a < 2 ^ 31 - 1"
  shows "\<exists>co. intrusive_ptr_release a st = Inr (set_channel a co st) \<and> counts_ok M (set_channel a co st)"
proof -
  obtain c where c: "channels st a = Some c" "unat (ref_count c) = count M a + 1"
    using counts_ok_live [OF assms(1), of a] by auto
  then have pos: "1 \<le> sint (ref_count c)" using assms(2) by (simp add: sint_i32 del: of_nat_unat)
  then have n: "unat (ref_count c - 1) = count M a" using c sint_pred_i32 [of "ref_count c"] by simp
  let ?co = "if ref_count c - 1 = 0 then None else Some (c\<lparr>ref_count := ref_count c - 1\<rparr>)"
  have "counted (count M a) ?co" using n by (auto simp: counted_def unat_eq_zero [symmetric])
  then have "counts_ok M (set_channel a ?co st)"
    by (intro counts_ok_update [OF assms(1)]) simp_all
  moreover have "intrusive_ptr_release a st = Inr (set_channel a ?co st)"
    using c pos by (simp add: intrusive_ptr_release_def channel_at_def RefCount_UnRef_def)
  ultimately show ?thesis by blast
qed

lemma counts_ok_flags:
  "counts_ok M st \<Longrightarrow> channels st a = Some c \<Longrightarrow> ref_count c' = ref_count c \<Longrightarrow> counts_ok M (set_channel a (Some c') st)"
  by (rule counts_ok_update) (auto simp: counts_ok_def counted_def dest!: spec [of _ a])

lemma counts_ok_cong: "channels st' = channels st \<Longrightarrow> counts_ok M st' = counts_ok M st"
  by (simp add: counts_ok_def)

lemma count_pool: "map_ok p \<Longrightarrow> count (mset (map fst p)) a \<le> 1"
  using map_ok_distinct [of p] by (metis count_mset_0_iff distinct_count_atmost_1 le_refl zero_le)

lemma map_filter_append [simp]: "List.map_filter f (xs @ ys) = List.map_filter f xs @ List.map_filter f ys"
  by (induction xs) (auto simp: List.map_filter_simps split: option.splits)

lemma length_map_filter_le: "length (List.map_filter f xs) \<le> length xs"
  by (induction xs) (auto simp: List.map_filter_simps split: option.splits)

lemma count_owners: "map_ok (channel_pool st) \<Longrightarrow> count (owners st + T) a \<le> 1 + length (outstanding st) + size T"
proof -
  assume "map_ok (channel_pool st)"
  moreover have "count (mset (List.map_filter holds (outstanding st))) a \<le> length (outstanding st)"
    using count_le_size [of "mset (List.map_filter holds (outstanding st))" a]
    using length_map_filter_le [of holds "outstanding st"] by simp
  moreover have "count T a \<le> size T" by (rule count_le_size)
  ultimately show ?thesis using count_pool [of "channel_pool st" a] by (simp add: owners_def)
qed

lemma add_ref_dispatcher_ok:
  assumes "dispatcher_ok S T st" "room 1 T st" "a \<in># owners st + T"
  shows "\<exists>st'. intrusive_ptr_add_ref a st = Inr st' \<and> dispatcher_ok S (add_mset a T) st'
    \<and> outstanding st' = outstanding st \<and> next_channel st' = next_channel st"
proof -
  have "count (owners st + T) a < 2 ^ 31 - 1"
    using count_owners [of st T a] assms(1,2) by (simp add: dispatcher_ok_def room_def)
  then obtain c where c: "intrusive_ptr_add_ref a st = Inr (set_channel a (Some c) st)"
    "counts_ok (add_mset a (owners st + T)) (set_channel a (Some c) st)"
    using add_ref_ok [OF _ assms(3), of st] assms(1) by (auto simp: dispatcher_ok_def)
  moreover have "a < next_channel st"
    using assms(1) counts_ok_live [OF _ assms(3), of st] by (fastforce simp: dispatcher_ok_def not_le [symmetric])
  ultimately show ?thesis using assms(1) by (auto simp: dispatcher_ok_def)
qed

lemma release_dispatcher_ok:
  assumes "dispatcher_ok S (add_mset a T) st" "room 1 T st"
  shows "\<exists>st'. intrusive_ptr_release a st = Inr st' \<and> dispatcher_ok S T st'
    \<and> outstanding st' = outstanding st \<and> next_channel st' = next_channel st"
proof -
  have "count (owners st + T) a < 2 ^ 31 - 1"
    using count_owners [of st T a] assms by (simp add: dispatcher_ok_def room_def)
  then obtain c where c: "intrusive_ptr_release a st = Inr (set_channel a c st)"
    "counts_ok (owners st + T) (set_channel a c st)"
    using release_ok [of a "owners st + T" st] assms(1) by (auto simp: dispatcher_ok_def)
  moreover have "a < next_channel st"
    using assms(1) counts_ok_live [of "owners st + add_mset a T" st a] by (fastforce simp: dispatcher_ok_def not_le [symmetric])
  ultimately show ?thesis using assms(1) by (auto simp: dispatcher_ok_def)
qed

text \<open>A pointer of the running code becomes that of a handler.\<close>

lemma hand_over:
  assumes "dispatcher_ok S T' st" "T' = (case holds h of None \<Rightarrow> T | Some a \<Rightarrow> add_mset a T)"
    "S = (case h of Start_channel a \<Rightarrow> a # S' | _ \<Rightarrow> S')" "\<And>a. h \<noteq> Terminate_channel a"
  shows "dispatcher_ok S' T (st\<lparr>outstanding := outstanding st @ [h]\<rparr>)"
  using assms
  by (cases h) (auto simp: dispatcher_ok_def owners_def starting_def counts_ok_def List.map_filter_simps)

lemma submit_ok:
  assumes "dispatcher_ok S T st" "room 1 T st" "\<And>a. holds h = Some a \<Longrightarrow> a \<in># owners st + T"
    "S = (case h of Start_channel a \<Rightarrow> a # S' | _ \<Rightarrow> S')" "\<And>a. h \<noteq> Terminate_channel a"
  shows "\<exists>st'. submit h st = Inr st' \<and> dispatcher_ok S' T st'
    \<and> outstanding st' = outstanding st @ [h] \<and> next_channel st' = next_channel st"
proof (cases "holds h")
  case None
  then show ?thesis using hand_over [OF assms(1) _ assms(4,5)] by (auto simp: submit_def)
next
  case (Some a)
  obtain st1 where st1: "intrusive_ptr_add_ref a st = Inr st1" "dispatcher_ok S (add_mset a T) st1"
    "outstanding st1 = outstanding st" "next_channel st1 = next_channel st"
    using add_ref_dispatcher_ok [OF assms(1,2) assms(3) [OF Some]] by auto
  then show ?thesis using hand_over [OF st1(2) _ assms(4,5)] Some by (auto simp: submit_def)
qed

lemma terminate_ok:
  assumes "dispatcher_ok S T st" "a \<in># owners st + T"
  shows "\<exists>st'. Dispatcher_TerminateInLoop a st = Inr st' \<and> dispatcher_ok S T st'
    \<and> outstanding st' = outstanding st \<and> next_channel st' = next_channel st \<and> channel_pool st' = channel_pool st
    \<and> owners st' = owners st"
proof -
  have ok: "counts_ok (owners st + T) st" using assms(1) by (simp add: dispatcher_ok_def)
  then obtain c where c: "channels st a = Some c" using counts_ok_live [OF ok assms(2)] by auto
  then have "a < next_channel st" using assms(1) by (force simp: dispatcher_ok_def not_le [symmetric])
  then show ?thesis
    using assms(1) c counts_ok_flags [OF ok c, of "c\<lparr>ch_terminated := True\<rparr>"]
    by (auto simp: Dispatcher_TerminateInLoop_def channel_at_def dispatcher_ok_def)
qed

lemma terminate_each_ok:
  "dispatcher_ok S T st \<Longrightarrow> set as \<subseteq> set_mset (owners st + T) \<Longrightarrow>
     \<exists>st'. terminate_each as st = Inr st' \<and> dispatcher_ok S T st'
      \<and> outstanding st' = outstanding st \<and> next_channel st' = next_channel st"
proof (induction as arbitrary: st)
  case (Cons a as)
  then obtain st1 where "Dispatcher_TerminateInLoop a st = Inr st1" "dispatcher_ok S T st1"
    "outstanding st1 = outstanding st" "next_channel st1 = next_channel st" "owners st1 = owners st"
    using terminate_ok [of S T st a] by auto
  then show ?case using Cons.IH [of st1] Cons.prems by auto
qed simp

lemma ReleaseChannel_ok:
  assumes "dispatcher_ok S T st" "room 1 T st"
  shows "\<exists>st'. ReleaseChannel a st = Inr st' \<and> dispatcher_ok S T st'
    \<and> outstanding st' = outstanding st \<and> next_channel st' = next_channel st"
proof (cases "map_find a (channel_pool st)")
  case (Some v)
  let ?p = "map_erase a (channel_pool st)" and ?st = "st\<lparr>channel_pool := map_erase a (channel_pool st)\<rparr>"
  have pool: "map_ok (channel_pool st)" using assms(1) by (simp add: dispatcher_ok_def)
  have "a \<in># mset (map fst (channel_pool st))"
    using Some pool by (force simp: std.find_entries)
  have keys: "map fst ?p = remove1 a (map fst (channel_pool st))"
    using pool by (simp add: map_erase_def distinct_remove1_removeAll [OF map_ok_distinct]
        removeAll_filter_not_eq filter_map comp_def neq_commute)
  have "mset (map fst (channel_pool st)) = add_mset a (mset (map fst ?p))"
    using \<open>a \<in># _\<close> unfolding keys by (simp add: mset_remove1)
  then have "owners st = add_mset a (owners ?st)" by (simp add: owners_def)
  moreover have "map_ok ?p" using pool by (rule std.ok_erase)
  moreover have "length ?p \<le> unat (num_channels_threshold st)"
    using assms(1) length_filter_le [of "\<lambda>e. fst e \<noteq> a" "channel_pool st"] unfolding map_erase_def dispatcher_ok_def by linarith
  ultimately have "dispatcher_ok S (add_mset a T) ?st"
    using assms(1) by (auto simp: dispatcher_ok_def counts_ok_def starting_def map_erase_def distinct_map_filter)
  then show ?thesis
    using release_dispatcher_ok [of S a T ?st] assms(2) Some by (auto simp: ReleaseChannel_def room_def)
qed (use assms in \<open>simp add: ReleaseChannel_def\<close>)

lemma length_map_insert: "snd (map_insert k v m) \<Longrightarrow> mset (fst (map_insert k v m)) = add_mset (k, v) (mset m)"
  by (induction k v m rule: map_insert.induct) (auto split: prod.splits if_splits)

lemma SaveChannel_ok:
  assumes "dispatcher_ok (a # S) T st" "room 1 T st" "a \<in># T"
  shows "\<exists>ok st'. SaveChannel a st = Inr (ok, st') \<and> dispatcher_ok S T st'
    \<and> (ok \<longleftrightarrow> length (channel_pool st) < unat (num_channels_threshold st))
    \<and> outstanding st' = outstanding st \<and> next_channel st' = next_channel st"
proof (cases "length (channel_pool st) = unat (num_channels_threshold st)")
  case True
  then show ?thesis using assms(1) by (auto simp: SaveChannel_def dispatcher_ok_def)
next
  case False
  let ?p = "fst (map_insert a a (channel_pool st))" and ?st = "st\<lparr>channel_pool := fst (map_insert a a (channel_pool st))\<rparr>"
  have pool: "map_ok (channel_pool st)" using assms(1) by (simp add: dispatcher_ok_def)
  have "a \<notin> fst ` set (channel_pool st)" using assms(1) by (simp add: dispatcher_ok_def)
  then have new: "snd (map_insert a a (channel_pool st))"
    using pool by (simp add: map_insert_find map_find_def map_of_eq_None_iff)
  note ms = length_map_insert [OF new]
  have keys: "mset (map fst ?p) = add_mset a (mset (map fst (channel_pool st)))"
    using ms by (metis fst_conv image_mset_add_mset mset_map)
  then have own: "owners ?st = add_mset a (owners st)" by (simp add: owners_def)
  have "count (owners st + T) a < 2 ^ 31 - 1"
    using count_owners [OF pool, of T a] assms(2) by (simp add: room_def)
  moreover have "counts_ok (owners st + T) ?st" using assms(1) by (simp add: dispatcher_ok_def counts_ok_def)
  ultimately obtain c where c: "intrusive_ptr_add_ref a ?st = Inr (set_channel a (Some c) ?st)"
    "counts_ok (owners ?st + T) (set_channel a (Some c) ?st)"
    using add_ref_ok [of "owners st + T" ?st a] assms(3) own by auto
  have "a < next_channel st"
    using assms(1,3) counts_ok_live [of "owners st + T" st a] by (force simp: dispatcher_ok_def not_le [symmetric])
  moreover have "length ?p \<le> unat (num_channels_threshold st)"
    using arg_cong [OF ms, of size] False assms(1) by (simp add: dispatcher_ok_def)
  moreover have "set ?p = insert (a, a) (set (channel_pool st))" using arg_cong [OF ms, of set_mset] by simp
  moreover have "map_ok ?p" using pool by (rule map_ok_insert)
  ultimately have "dispatcher_ok S T (set_channel a (Some c) ?st)"
    using assms(1) c(2) map_ok_distinct [of ?p] by (auto simp: dispatcher_ok_def starting_def)
  then show ?thesis using c(1) new False assms(1)
    by (auto simp: SaveChannel_def case_prod_beta dispatcher_ok_def)
qed

lemma StartChannelInLoop_ok:
  assumes "dispatcher_ok (a # S) T st" "room 1 T st" "a \<in># T"
  shows "\<exists>st'. StartChannelInLoop a st = Inr st' \<and> dispatcher_ok S T st'
    \<and> length (outstanding st') \<le> length (outstanding st) + 1 \<and> next_channel st' = next_channel st"
proof -
  obtain ok st1 where st1: "SaveChannel a st = Inr (ok, st1)" "dispatcher_ok S T st1"
    "outstanding st1 = outstanding st" "next_channel st1 = next_channel st"
    using SaveChannel_ok [OF assms] by blast
  moreover have "room 1 T st1" using assms(2) st1(3) by (simp add: room_def)
  ultimately show ?thesis
    using terminate_ok [of S T st1 a] submit_ok [of S T st1 "Read_some a" S] assms(3)
    by (cases ok) (fastforce simp: StartChannelInLoop_def Dispatcher_StartToRead_def)+
qed

lemma channel_read_ok:
  assumes "dispatcher_ok S T st" "room 2 T st" "a \<in># T"
  shows "\<exists>st'. channel_read error w a st = Inr st' \<and> dispatcher_ok S T st'
    \<and> length (outstanding st') \<le> length (outstanding st) + 2 \<and> next_channel st' = next_channel st"
proof -
  have ok: "counts_ok (owners st + T) st" using assms(1) by (simp add: dispatcher_ok_def)
  then obtain c where c: "channels st a = Some c" using counts_ok_live [OF ok, of a] assms(3) by auto
  let ?st = "set_channel a (Some (c\<lparr>ch_closed_by_peer := True\<rparr>)) st"
  have "a < next_channel st" using assms(1) c by (force simp: dispatcher_ok_def not_le [symmetric])
  then have closed: "dispatcher_ok S T ?st" using assms(1) counts_ok_flags [OF ok c] by (auto simp: dispatcher_ok_def)
  obtain st1 where st1: "(if w then submit (Write_all a) st else Inr st) = Inr st1" "dispatcher_ok S T st1"
    "length (outstanding st1) \<le> length (outstanding st) + 1" "next_channel st1 = next_channel st"
    using submit_ok [OF assms(1), of "Write_all a" S] assms by (cases w) (auto simp: room_def)
  obtain st2 where "submit (Read_some a) st1 = Inr st2" "dispatcher_ok S T st2"
    "outstanding st2 = outstanding st1 @ [Read_some a]" "next_channel st2 = next_channel st1"
    using submit_ok [OF st1(2), of "Read_some a" S] st1(3) assms(2,3) by (auto simp: room_def)
  moreover obtain st3 where "ReleaseChannel a ?st = Inr st3" "dispatcher_ok S T st3"
    "outstanding st3 = outstanding st" "next_channel st3 = next_channel st"
    using ReleaseChannel_ok [OF closed, of a] assms(2) by (auto simp: room_def)
  ultimately show ?thesis
    using assms(1) c st1 by (simp add: channel_read_def channel_at_def Dispatcher_StartToRead_def)
qed

lemma channel_written_ok:
  assumes "dispatcher_ok S T st" "room 1 T st" "a \<in># T"
  shows "\<exists>st'. channel_written error w a st = Inr st' \<and> dispatcher_ok S T st'
    \<and> length (outstanding st') \<le> length (outstanding st) + 1 \<and> next_channel st' = next_channel st"
proof -
  have "counts_ok (owners st + T) st" using assms(1) by (simp add: dispatcher_ok_def)
  then obtain c where c: "channels st a = Some c" using counts_ok_live [of "owners st + T" st a] assms(3) by auto
  then show ?thesis
    using submit_ok [OF assms(1,2), of "Write_all a" S] assms(1,3) by (auto simp: channel_written_def channel_at_def)
qed

definition held :: "handler \<Rightarrow> nat multiset" where
  "held h = (case holds h of None \<Rightarrow> {#} | Some a \<Rightarrow> {#a#})"

definition to_start :: "handler \<Rightarrow> nat list" where
  "to_start h = (case h of Start_channel a \<Rightarrow> [a] | _ \<Rightarrow> [])"

lemma run_handler_ok:
  assumes "dispatcher_ok (to_start h @ S) (held h + T) st" "room 2 (held h + T) st" "\<And>a. h \<noteq> Terminate_channel a"
  shows "\<exists>st'. run_handler error w h st = Inr st' \<and> dispatcher_ok S (held h + T) st'
    \<and> length (outstanding st') \<le> length (outstanding st) + 2 \<and> next_channel st' = next_channel st"
proof (cases h)
  case (Start_channel a)
  then show ?thesis using StartChannelInLoop_ok [of a S "held h + T" st] assms
    by (fastforce simp: to_start_def held_def room_def)
next
  case (Read_some a)
  then show ?thesis using channel_read_ok [of S "held h + T" st a] assms by (auto simp: to_start_def held_def)
next
  case (Write_all a)
  then show ?thesis using channel_written_ok [of S "held h + T" st a] assms
    by (fastforce simp: to_start_def held_def room_def)
next
  case Close_all_channels
  have "set (map snd (channel_pool st)) \<subseteq> set_mset (owners st + T)"
    using assms(1) by (auto simp: dispatcher_ok_def owners_def image_iff)
  then show ?thesis using terminate_each_ok [of S T st "map snd (channel_pool st)"] assms Close_all_channels
    by (fastforce simp: to_start_def held_def CloseAllChannelsInLoop_def)
qed (use assms in \<open>auto simp: to_start_def held_def\<close>)

lemma call_handler_ok:
  assumes "dispatcher_ok (to_start h @ S) (held h + T) st" "room 4 T st" "\<And>a. h \<noteq> Terminate_channel a"
  shows "\<exists>st'. call_handler error w h st = Inr st' \<and> dispatcher_ok S T st'
    \<and> length (outstanding st') \<le> length (outstanding st) + 2 \<and> next_channel st' = next_channel st"
proof -
  have "size (held h) \<le> 1" by (simp add: held_def split: option.splits)
  then obtain st1 where st1: "run_handler error w h st = Inr st1" "dispatcher_ok S (held h + T) st1"
    "length (outstanding st1) \<le> length (outstanding st) + 2" "next_channel st1 = next_channel st"
    using run_handler_ok [OF assms(1) _ assms(3)] assms(2) by (fastforce simp: room_def)
  show ?thesis
  proof (cases "holds h")
    case (Some a)
    then show ?thesis using st1 release_dispatcher_ok [of S a T st1] assms(2)
      by (auto simp: call_handler_def held_def room_def)
  qed (use st1 in \<open>simp add: call_handler_def held_def\<close>)
qed

lemma complete_ok:
  assumes "dispatcher_ok [] {#} st" "room 4 {#} st"
  shows "\<exists>st'. complete i error w st = Inr st' \<and> dispatcher_ok [] {#} st'
    \<and> length (outstanding st') \<le> length (outstanding st) + 1"
proof (cases "i < length (outstanding st)")
  case True
  define h where "h = outstanding st ! i"
  define rest where "rest = take i (outstanding st) @ drop (Suc i) (outstanding st)"
  have out: "outstanding st = take i (outstanding st) @ h # drop (Suc i) (outstanding st)"
    unfolding h_def using True by (rule id_take_nth_drop)
  have len: "Suc (length rest) = length (outstanding st)" using True by (simp add: rest_def)
  have "h \<in> set (outstanding st)" using True by (simp add: h_def)
  then have not_term: "h \<noteq> Terminate_channel a" for a using assms(1) by (auto simp: dispatcher_ok_def)
  have own: "owners st = owners (st\<lparr>outstanding := rest\<rparr>) + held h"
    by (subst owners_def, subst out) (auto simp: owners_def rest_def held_def List.map_filter_simps split: option.splits)
  have starts: "mset (starting st) = mset (to_start h @ starting (st\<lparr>outstanding := rest\<rparr>))"
    by (subst starting_def, subst out) (cases h, simp_all add: starting_def rest_def to_start_def List.map_filter_simps)
  have "distinct (to_start h @ starting (st\<lparr>outstanding := rest\<rparr>) @ map fst (channel_pool st))"
    using assms(1) mset_eq_imp_distinct_iff [OF starts] mset_eq_setD [OF starts]
    unfolding dispatcher_ok_def by auto
  moreover have "set rest \<subseteq> set (outstanding st)" by (auto simp: rest_def dest: in_set_takeD in_set_dropD)
  ultimately have "dispatcher_ok (to_start h @ []) (held h + {#}) (st\<lparr>outstanding := rest\<rparr>)"
    using assms(1) own by (auto simp: dispatcher_ok_def counts_ok_def)
  then obtain st' where "call_handler error w h (st\<lparr>outstanding := rest\<rparr>) = Inr st'" "dispatcher_ok [] {#} st'"
    "length (outstanding st') \<le> length rest + 2"
    using call_handler_ok [of h "[]" "{#}" "st\<lparr>outstanding := rest\<rparr>" error w] not_term assms(2) len
    by (auto simp: room_def)
  then show ?thesis using True len by (auto simp: complete_def h_def rest_def)
qed (use assms in \<open>auto simp: complete_def\<close>)

lemma Post_ok:
  assumes "dispatcher_ok (to_start h @ S) T st" "room 6 T st" "held h \<subseteq># T" "\<And>a. h \<noteq> Terminate_channel a"
  shows "\<exists>st'. Post in_loop h st = Inr st' \<and> dispatcher_ok S T st'
    \<and> length (outstanding st') \<le> length (outstanding st) + 2"
proof (cases in_loop)
  case True
  obtain st1 where st1: "(case holds h of None \<Rightarrow> Inr st | Some a \<Rightarrow> intrusive_ptr_add_ref a st) = Inr st1"
    "dispatcher_ok (to_start h @ S) (held h + T) st1" "outstanding st1 = outstanding st"
    using add_ref_dispatcher_ok [OF assms(1)] assms(1,2,3)
    by (cases "holds h") (force simp: held_def room_def)+
  then show ?thesis using call_handler_ok [OF st1(2) _ assms(4)] assms(2) True
    by (fastforce simp: Post_def room_def)
next
  case False
  then show ?thesis using submit_ok [OF assms(1), of h S] assms(2,3,4)
    by (fastforce simp: Post_def room_def held_def to_start_def split: handler.splits)
qed

lemma accept_channel_ok:
  assumes "dispatcher_ok [] {#} st" "room 8 {#} st"
  shows "\<exists>st'. accept_channel in_loop st = Inr st' \<and> dispatcher_ok [] {#} st'
    \<and> length (outstanding st') \<le> length (outstanding st) + 2"
proof -
  let ?a = "next_channel st" and ?st = "snd (new_channel st)"
  have fresh: "channels st ?a = None" using assms(1) by (simp add: dispatcher_ok_def)
  have "?a \<notin># owners st" using assms(1) counts_ok_live [of "owners st + {#}" st ?a] fresh by (auto simp: dispatcher_ok_def)
  moreover from this have "?a \<notin> set (starting st)"
    by (force simp: owners_def starting_def List.map_filter_def split: handler.splits)
  moreover have "owners ?st = owners st" "starting ?st = starting st"
    by (simp_all add: new_channel_def owners_def starting_def)
  moreover have "counts_ok (owners st + {#?a#}) ?st"
    using assms(1) \<open>?a \<notin># owners st\<close>
    by (auto simp: dispatcher_ok_def counts_ok_def new_channel_def counted_def RefCount_new_def not_in_iff)
  ultimately have ok: "dispatcher_ok [?a] {#?a#} ?st"
    using assms(1) by (auto simp: dispatcher_ok_def new_channel_def owners_def)
  have "outstanding ?st = outstanding st" by (simp add: new_channel_def)
  then obtain st1 where "StartChannel in_loop ?a ?st = Inr st1" "dispatcher_ok [] {#?a#} st1"
    "length (outstanding st1) \<le> length (outstanding st) + 2"
    using Post_ok [of "Start_channel ?a" "[]" "{#?a#}" ?st in_loop] ok assms(2)
    by (auto simp: to_start_def held_def StartChannel_def room_def)
  then show ?thesis
    using release_dispatcher_ok [of "[]" ?a "{#}" st1] assms(2)
    by (auto simp: accept_channel_def new_channel_def room_def case_prod_beta)
qed

lemma dispatch_event_ok:
  assumes "dispatcher_ok [] {#} st" "room 8 {#} st"
  shows "\<exists>st'. dispatch_event e st = Inr st' \<and> dispatcher_ok [] {#} st'
    \<and> length (outstanding st') \<le> length (outstanding st) + 2"
proof (cases e)
  case (Accepted_connection in_loop)
  then show ?thesis using accept_channel_ok [OF assms] by simp
next
  case (Completed i error w)
  then show ?thesis using complete_ok [OF assms(1), of i error w] assms(2) by (fastforce simp: room_def)
next
  case Closing
  then show ?thesis using Post_ok [of Close_all_channels "[]" "{#}" st False] assms
    by (auto simp: to_start_def held_def room_def)
qed

lemma dispatch_events_ok:
  "dispatcher_ok [] {#} st \<Longrightarrow> room (2 * length es + 8) {#} st \<Longrightarrow>
     \<exists>st'. dispatch_events es st = Inr st' \<and> dispatcher_ok [] {#} st'
       \<and> length (outstanding st') \<le> length (outstanding st) + 2 * length es"
proof (induction es arbitrary: st)
  case (Cons e es)
  obtain st1 where st1: "dispatch_event e st = Inr st1" "dispatcher_ok [] {#} st1"
    "length (outstanding st1) \<le> length (outstanding st) + 2"
    using dispatch_event_ok [of st e] Cons.prems by (auto simp: room_def)
  moreover have "room (2 * length es + 8) {#} st1" using Cons.prems(2) st1(3) by (simp add: room_def)
  ultimately show ?case using Cons.IH [of st1] by fastforce
qed simp

lemma new_dispatcher_ok:
  "0 \<le> sint threshold \<Longrightarrow> \<exists>st. NetworkDispatcher_new threshold = Inr st \<and> dispatcher_ok [] {#} st
     \<and> outstanding st = [] \<and> num_channels_threshold st = threshold"
  by (simp add: NetworkDispatcher_new_def dispatcher_ok_def counts_ok_def counted_def owners_def starting_def
      List.map_filter_simps)

subsection \<open>Terminated channels stay in the pool\<close>

definition stuck :: "nat \<Rightarrow> 'z dispatcher_state_scheme \<Rightarrow> bool" where
  "stuck a st \<longleftrightarrow> a \<in> fst ` set (channel_pool st) \<and> (\<forall>c. channels st a = Some c \<longrightarrow> ch_terminated c)"

named_theorems stuck_rules \<open>operations that keep a terminated channel in the pool\<close>

lemma stuck_add_ref [stuck_rules]: "intrusive_ptr_add_ref b st = Inr st' \<Longrightarrow> stuck a st \<Longrightarrow> stuck a st'"
  by (auto simp: intrusive_ptr_add_ref_def channel_at_def stuck_def split: option.splits if_splits)

lemma stuck_release [stuck_rules]: "intrusive_ptr_release b st = Inr st' \<Longrightarrow> stuck a st \<Longrightarrow> stuck a st'"
  by (auto simp: intrusive_ptr_release_def channel_at_def stuck_def RefCount_UnRef_def result_simps
      split: option.splits if_splits)

lemma stuck_submit [stuck_rules]: "submit h st = Inr st' \<Longrightarrow> stuck a st \<Longrightarrow> stuck a st'"
  using stuck_add_ref [of _ st _ a]
  by (auto simp: submit_def result_simps split: option.splits) (auto simp: stuck_def)

lemma stuck_terminate [stuck_rules]: "Dispatcher_TerminateInLoop b st = Inr st' \<Longrightarrow> stuck a st \<Longrightarrow> stuck a st'"
  by (auto simp: Dispatcher_TerminateInLoop_def channel_at_def stuck_def split: option.splits if_splits)

lemma stuck_terminate_each [stuck_rules]: "terminate_each bs st = Inr st' \<Longrightarrow> stuck a st \<Longrightarrow> stuck a st'"
  by (induction bs arbitrary: st) (auto simp: result_simps dest: stuck_terminate)

lemma stuck_start [stuck_rules]:
  assumes "StartChannelInLoop b st = Inr st'" "stuck a st"
  shows "stuck a st'"
proof -
  obtain saved st1 where s: "SaveChannel b st = Inr (saved, st1)"
    "(if \<not> saved then Dispatcher_TerminateInLoop b st1 else Dispatcher_StartToRead b st1) = Inr st'"
    using assms(1) by (auto simp: StartChannelInLoop_def result_simps)
  have "stuck a (st\<lparr>channel_pool := fst (map_insert b b (channel_pool st))\<rparr>)"
    using assms(2) map_insert_keys [of b b "channel_pool st"] by (auto simp: stuck_def)
  then have "stuck a st1"
    using s(1) assms(2) by (auto simp: SaveChannel_def result_simps case_prod_beta dest: stuck_add_ref split: if_splits)
  then show ?thesis using s(2) by (auto simp: Dispatcher_StartToRead_def dest: stuck_rules split: if_splits)
qed

lemma stuck_read [stuck_rules]:
  assumes "channel_read error w b st = Inr st'" "stuck a st"
  shows "stuck a st'"
proof (cases "\<exists>c. channels st b = Some c \<and> \<not> ch_terminated c \<and> error \<and> \<not> ch_closed_by_peer c")
  case True
  then obtain c where c: "channels st b = Some c" "\<not> ch_terminated c" by auto
  let ?st = "set_channel b (Some (c\<lparr>ch_closed_by_peer := True\<rparr>)) st"
  have "a \<noteq> b" using c assms(2) by (auto simp: stuck_def)
  then have "stuck a ?st" "stuck a (?st\<lparr>channel_pool := map_erase b (channel_pool ?st)\<rparr>)"
    using assms(2) by (auto simp: stuck_def map_erase_def image_iff)
  then show ?thesis
    using assms(1) c True by (auto simp: channel_read_def channel_at_def ReleaseChannel_def
        dest: stuck_release split: option.splits)
qed (use assms in \<open>auto simp: channel_read_def channel_at_def Dispatcher_StartToRead_def result_simps
    dest: stuck_submit split: option.splits if_splits\<close>)

lemma stuck_written [stuck_rules]: "channel_written error w b st = Inr st' \<Longrightarrow> stuck a st \<Longrightarrow> stuck a st'"
  by (auto simp: channel_written_def channel_at_def dest: stuck_submit split: option.splits if_splits)

lemma stuck_call [stuck_rules]: "call_handler error w h st = Inr st' \<Longrightarrow> stuck a st \<Longrightarrow> stuck a st'"
  by (cases h) (auto simp: call_handler_def result_simps CloseAllChannelsInLoop_def TerminateChannelInLoop_def
      split: option.splits dest!: stuck_rules(1-8))

lemma stuck_Post [stuck_rules]: "Post in_loop h st = Inr st' \<Longrightarrow> stuck a st \<Longrightarrow> stuck a st'"
  by (auto simp: Post_def result_simps split: if_splits option.splits dest: stuck_call stuck_submit stuck_add_ref)

lemma stuck_complete [stuck_rules]:
  assumes "complete i error w st = Inr st'" "stuck a st"
  shows "stuck a st'"
proof -
  have "stuck a (st\<lparr>outstanding := hs\<rparr>)" for hs using assms(2) by (simp add: stuck_def)
  then show ?thesis using assms by (auto simp: complete_def dest: stuck_call split: if_splits)
qed

lemma stuck_accept [stuck_rules]:
  assumes "accept_channel in_loop st = Inr st'" "stuck a st" "dispatcher_ok [] {#} st"
  shows "stuck a st'"
proof -
  have "a \<in># owners st" using assms(2) by (auto simp: stuck_def owners_def)
  then have "channels st a \<noteq> None" using assms(3) counts_ok_live [of "owners st" st a] by (auto simp: dispatcher_ok_def)
  then have "a \<noteq> next_channel st" using assms(3) by (auto simp: dispatcher_ok_def)
  then have "stuck a (snd (new_channel st))" using assms(2) by (simp add: new_channel_def stuck_def)
  then show ?thesis
    using assms(1) by (auto simp: accept_channel_def result_simps StartChannel_def case_prod_beta dest: stuck_Post stuck_release)
qed

lemma stuck_forever:
  "dispatcher_ok [] {#} st \<Longrightarrow> room (2 * length es + 8) {#} st \<Longrightarrow> stuck a st \<Longrightarrow>
     dispatch_events es st = Inr st' \<Longrightarrow> stuck a st'"
proof (induction es arbitrary: st)
  case (Cons e es)
  obtain st1 where st1: "dispatch_event e st = Inr st1" "dispatcher_ok [] {#} st1"
    "length (outstanding st1) \<le> length (outstanding st) + 2"
    using dispatch_event_ok [of st e] Cons.prems by (auto simp: room_def)
  moreover have "stuck a st1" using st1(1) Cons.prems by (cases e) (auto dest: stuck_rules)
  moreover have "room (2 * length es + 8) {#} st1" using Cons.prems(2) st1(3) by (simp add: room_def)
  ultimately show ?case using Cons by auto
qed simp

section \<open>Looping and stopping\<close>

text \<open>
  The loop thread and the thread that calls \<^verbatim>\<open>Stop\<close>, statement by statement. \<^verbatim>\<open>io_service::run\<close>
  returns when no handler is outstanding and no \<^verbatim>\<open>work\<close> object keeps it busy.
\<close>

datatype loop_pc = Not_looping | Work_made | In_run | Loop_left

datatype stop_pc = Not_stopping | Flag_set | Close_posted | Waiting_for_loop | Stop_returned

record lifecycle = dispatcher_state +
  loop_at :: loop_pc
  stop_at :: stop_pc

text \<open>\<^verbatim>\<open>Loop\<close> up to the call of \<^verbatim>\<open>RunOnce\<close>, the test in \<^verbatim>\<open>RunOnce\<close>, and the return of \<^verbatim>\<open>run\<close>.\<close>

definition Loop_enter :: "lifecycle \<Rightarrow> lifecycle" where
  "Loop_enter s = s\<lparr>keep_working := True, loop_at := Work_made\<rparr>"

definition Loop_leave :: "lifecycle \<Rightarrow> lifecycle result" where
  "Loop_leave s = bind_result (Semaphore_Notify (stopped s)) (\<lambda>v. Inr (s\<lparr>stopped := v, loop_at := Loop_left\<rparr>))"

definition RunOnce_test :: "lifecycle \<Rightarrow> lifecycle result" where
  "RunOnce_test s = (if need_stop s then Loop_leave s else Inr (s\<lparr>loop_at := In_run\<rparr>))"

definition run_finished :: "lifecycle \<Rightarrow> bool" where
  "run_finished s \<longleftrightarrow> outstanding s = [] \<and> \<not> keep_working s"

text \<open>The four statements of \<^verbatim>\<open>Stop\<close>, and \<^verbatim>\<open>AsyncStop\<close>, \<^verbatim>\<open>Clear\<close> and \<^verbatim>\<open>LoopInAnotherThread\<close>.\<close>

definition Stop_flag :: "lifecycle \<Rightarrow> lifecycle" where
  "Stop_flag s = s\<lparr>need_stop := True, stop_at := Flag_set\<rparr>"

definition Stop_post :: "lifecycle \<Rightarrow> lifecycle result" where
  "Stop_post s = bind_result (Post False Close_all_channels s) (\<lambda>s. Inr (s\<lparr>stop_at := Close_posted\<rparr>))"

definition Stop_reset :: "lifecycle \<Rightarrow> lifecycle" where
  "Stop_reset s = s\<lparr>keep_working := False, stop_at := Waiting_for_loop\<rparr>"

definition Stop_wait :: "lifecycle \<Rightarrow> lifecycle result" where
  "Stop_wait s = bind_result (Semaphore_Wait False (stopped s)) (\<lambda>v. Inr (s\<lparr>stopped := v, stop_at := Stop_returned\<rparr>))"

text \<open>All of \<^verbatim>\<open>Stop\<close>; \<open>meanwhile\<close> is what its loop thread does until the wait is over.\<close>

definition Dispatcher_Stop :: "(lifecycle \<Rightarrow> lifecycle) \<Rightarrow> lifecycle \<Rightarrow> lifecycle result" where
  "Dispatcher_Stop meanwhile d =
     bind_result (Stop_post (Stop_flag d)) (\<lambda>d. Stop_wait (meanwhile (Stop_reset d)))"

definition Dispatcher_AsyncStop :: "bool \<Rightarrow> 'z dispatcher_state_scheme \<Rightarrow> 'z dispatcher_state_scheme result" where
  "Dispatcher_AsyncStop in_loop s =
     bind_result (Post in_loop Close_all_channels s) (\<lambda>s. Inr (s\<lparr>keep_working := False\<rparr>))"

definition LoopInAnotherThread :: "'z dispatcher_state_scheme \<Rightarrow> 'z dispatcher_state_scheme result" where
  "LoopInAnotherThread s = CHECK (\<not> loop_thread s) (Inr (s\<lparr>loop_thread := True\<rparr>))"

definition Dispatcher_Clear :: "'z dispatcher_state_scheme \<Rightarrow> 'z dispatcher_state_scheme" where
  "Dispatcher_Clear s = s\<lparr>need_stop := False\<rparr>"

text \<open>A step that calls a handler is labelled with it.\<close>

inductive lifecycle_step :: "lifecycle \<Rightarrow> handler option \<Rightarrow> lifecycle \<Rightarrow> bool" where
  life_enter: "loop_at s = Not_looping \<Longrightarrow> lifecycle_step s None (Loop_enter s)"
| life_test: "loop_at s = Work_made \<Longrightarrow> RunOnce_test s = Inr s' \<Longrightarrow> lifecycle_step s None s'"
| life_handler: "loop_at s = In_run \<Longrightarrow> i < length (outstanding s) \<Longrightarrow> complete i error w s = Inr s' \<Longrightarrow>
    lifecycle_step s (Some (outstanding s ! i)) s'"
| life_finished: "loop_at s = In_run \<Longrightarrow> run_finished s \<Longrightarrow> Loop_leave s = Inr s' \<Longrightarrow> lifecycle_step s None s'"
| life_flag: "stop_at s = Not_stopping \<Longrightarrow> lifecycle_step s None (Stop_flag s)"
| life_post: "stop_at s = Flag_set \<Longrightarrow> Stop_post s = Inr s' \<Longrightarrow> lifecycle_step s None s'"
| life_reset: "stop_at s = Close_posted \<Longrightarrow> lifecycle_step s None (Stop_reset s)"
| life_wait: "stop_at s = Waiting_for_loop \<Longrightarrow> Stop_wait s = Inr s' \<Longrightarrow> lifecycle_step s None s'"

definition life_start :: "i32 \<Rightarrow> handler list \<Rightarrow> lifecycle" where
  "life_start threshold hs = \<lparr>channels = Map.empty, next_channel = 0, channel_pool = [],
     num_channels_threshold = threshold, need_stop = False, stopped = Semaphore_new, keep_working = False,
     loop_thread = False, outstanding = hs, loop_at = Not_looping, stop_at = Not_stopping\<rparr>"

definition life_inv :: "lifecycle \<Rightarrow> bool" where
  "life_inv s \<longleftrightarrow> need_stop s = (stop_at s \<noteq> Not_stopping)
     \<and> stopped s + (if stop_at s = Stop_returned then 1 else 0) = (if loop_at s = Loop_left then 1 else 0)
     \<and> (loop_at s = In_run \<and> stop_at s \<in> {Waiting_for_loop, Stop_returned} \<longrightarrow> \<not> keep_working s)"

text \<open>
  Handlers work on the channels and the pool and submit more handlers: any relation that these
  changes respect holds between the state before and after.
\<close>

locale handler_effects =
  fixes R :: "'z dispatcher_state_scheme \<Rightarrow> 'z dispatcher_state_scheme \<Rightarrow> bool"
  assumes refl_R: "R st st"
    and trans_R: "R st st1 \<Longrightarrow> R st1 st2 \<Longrightarrow> R st st2"
    and set_channel_R: "R st (set_channel a c st)"
    and pool_R: "R st (st\<lparr>channel_pool := p\<rparr>)"
    and submit_R: "R st (st\<lparr>outstanding := outstanding st @ [h]\<rparr>)"
begin

lemma refs_R:
  "intrusive_ptr_add_ref b st = Inr st' \<Longrightarrow> R st st'" "intrusive_ptr_release b st = Inr st' \<Longrightarrow> R st st'"
  by (auto simp: intrusive_ptr_add_ref_def intrusive_ptr_release_def result_simps set_channel_R)

lemma submitted_R: "submit h st = Inr st' \<Longrightarrow> R st st'"
  by (auto simp: submit_def result_simps submit_R split: option.splits intro: trans_R [OF _ submit_R] dest: refs_R)

lemma terminated_R: "Dispatcher_TerminateInLoop b st = Inr st' \<Longrightarrow> R st st'"
  by (auto simp: Dispatcher_TerminateInLoop_def result_simps set_channel_R)

lemma terminated_each_R: "terminate_each bs st = Inr st' \<Longrightarrow> R st st'"
  by (induction bs arbitrary: st) (auto simp: result_simps refl_R intro: trans_R dest!: terminated_R)

lemma saved_R: "SaveChannel b st = Inr (ok, st') \<Longrightarrow> R st st'"
  by (auto simp: SaveChannel_def result_simps case_prod_beta refl_R split: if_splits
      intro: trans_R [OF pool_R] dest!: refs_R)

lemma started_R: "StartChannelInLoop b st = Inr st' \<Longrightarrow> R st st'"
  by (auto simp: StartChannelInLoop_def Dispatcher_StartToRead_def result_simps split: if_splits
      intro: trans_R dest!: saved_R submitted_R terminated_R)

lemma released_R: "ReleaseChannel b st = Inr st' \<Longrightarrow> R st st'"
  by (auto simp: ReleaseChannel_def refl_R split: option.splits intro: trans_R [OF pool_R] dest!: refs_R)

lemma read_R: "channel_read error w b st = Inr st' \<Longrightarrow> R st st'"
  by (auto simp: channel_read_def Dispatcher_StartToRead_def result_simps refl_R split: if_splits
      intro: trans_R [OF set_channel_R] trans_R dest!: released_R submitted_R)

lemma run_R: "run_handler error w h st = Inr st' \<Longrightarrow> R st st'"
  by (cases h) (auto simp: channel_written_def TerminateChannelInLoop_def CloseAllChannelsInLoop_def result_simps
      refl_R split: if_splits option.splits dest: started_R read_R submitted_R terminated_R terminated_each_R)

lemma call_R: "call_handler error w h st = Inr st' \<Longrightarrow> R st st'"
  by (auto simp: call_handler_def result_simps split: option.splits dest!: run_R refs_R intro: trans_R)

lemma post_R: "Post False h st = Inr st' \<Longrightarrow> R st st'"
  by (auto simp: Post_def dest: submitted_R)

end

definition control_of :: "lifecycle \<Rightarrow> bool \<times> nat \<times> bool \<times> loop_pc \<times> stop_pc" where
  "control_of s = (need_stop s, stopped s, keep_working s, loop_at s, stop_at s)"

interpretation control: handler_effects "\<lambda>s s'. control_of s' = control_of s"
  by unfold_locales (simp_all add: control_of_def set_channel_def)

interpretation queueing: handler_effects "\<lambda>s s'. set (outstanding s) \<subseteq> set (outstanding s')"
  by unfold_locales auto

lemma complete_control: "complete i error w s = Inr s' \<Longrightarrow> control_of s' = control_of s"
  by (auto simp: complete_def control_of_def dest!: control.call_R split: if_splits)

lemma complete_others:
  assumes "complete i error w s = Inr s'" "h \<in> set (outstanding s)" "i < length (outstanding s)" "outstanding s ! i \<noteq> h"
  shows "h \<in> set (outstanding s')"
proof -
  have "outstanding s = take i (outstanding s) @ outstanding s ! i # drop (Suc i) (outstanding s)"
    using assms(3) by (rule id_take_nth_drop)
  then have "h \<in> set (take i (outstanding s) @ drop (Suc i) (outstanding s))"
    using assms(2,4) by (metis Un_iff insertE set_append list.set(2))
  then show ?thesis using assms(1,3) queueing.call_R by (fastforce simp: complete_def)
qed

lemma life_step_inv: "lifecycle_step s l s' \<Longrightarrow> life_inv s \<Longrightarrow> life_inv s'"
proof (induction rule: lifecycle_step.induct)
  case (life_handler s i error w s')
  then have "control_of s' = control_of s" by (intro complete_control)
  then show ?case using life_handler by (simp add: control_of_def life_inv_def)
next
  case (life_post s s')
  then obtain s1 where "Post False Close_all_channels s = Inr s1" "s' = s1\<lparr>stop_at := Close_posted\<rparr>"
    by (auto simp: Stop_post_def result_simps)
  then show ?case using life_post control.post_R [of Close_all_channels s s1]
    by (auto simp: control_of_def life_inv_def)
qed (auto simp: life_inv_def Loop_enter_def RunOnce_test_def Loop_leave_def Stop_flag_def Stop_reset_def Stop_wait_def
    Semaphore_Notify_def sem_post_def Semaphore_Wait_def result_simps split: if_splits sum.splits)

lemma life_run_inv: "labelled_run lifecycle_step s tr s' \<Longrightarrow> life_inv s \<Longrightarrow> life_inv s'"
  by (induction rule: labelled_run.induct) (auto intro: life_step_inv)

lemma life_start_inv: "life_inv (life_start threshold hs)"
  by (simp add: life_inv_def life_start_def Semaphore_new_def)

text \<open>The loop thread, then the stopping thread, run on their own.\<close>

definition loop_next :: "lifecycle \<Rightarrow> lifecycle result" where
  "loop_next s = (case loop_at s of
       Not_looping \<Rightarrow> Inr (Loop_enter s)
     | Work_made \<Rightarrow> RunOnce_test s
     | In_run \<Rightarrow> if run_finished s then Loop_leave s else Inr s
     | Loop_left \<Rightarrow> Inr s)"

fun loop_alone :: "nat \<Rightarrow> lifecycle \<Rightarrow> lifecycle result" where
  "loop_alone 0 s = Inr s"
| "loop_alone (Suc n) s = bind_result (loop_next s) (loop_alone n)"

lemma pending_handler_step:
  assumes "lifecycle_step s l s'" "l \<noteq> Some h" "h \<in> set (outstanding s)"
  shows "h \<in> set (outstanding s') \<and> (loop_at s = In_run \<longrightarrow> loop_at s' = In_run)"
  using assms
proof (induction rule: lifecycle_step.induct)
  case (life_handler s i error w s')
  then have "control_of s' = control_of s" by (intro complete_control)
  then show ?case using life_handler complete_others [of i error w s s' h] by (simp add: control_of_def)
next
  case (life_post s s')
  then obtain s1 where "Post False Close_all_channels s = Inr s1" "s' = s1\<lparr>stop_at := Close_posted\<rparr>"
    by (auto simp: Stop_post_def result_simps)
  then show ?case using life_post control.post_R [of Close_all_channels s s1] queueing.post_R [of Close_all_channels s s1]
    by (auto simp: control_of_def)
qed (auto simp: run_finished_def Loop_enter_def RunOnce_test_def Loop_leave_def Stop_flag_def Stop_reset_def Stop_wait_def
    result_simps split: if_splits)

lemma pending_handler_run:
  "labelled_run lifecycle_step s tr s' \<Longrightarrow> h \<notin> set tr \<Longrightarrow> h \<in> set (outstanding s) \<Longrightarrow>
     h \<in> set (outstanding s') \<and> (loop_at s = In_run \<longrightarrow> loop_at s' = In_run)"
  by (induction rule: labelled_run.induct) (force dest: pending_handler_step)+

interpretation threshold: handler_effects "\<lambda>s s'. num_channels_threshold s' = num_channels_threshold s"
  by unfold_locales (simp_all add: set_channel_def)

lemma dispatch_event_threshold:
  "dispatch_event e st = Inr st' \<Longrightarrow> num_channels_threshold st' = num_channels_threshold st"
  by (cases e) (auto simp: accept_channel_def new_channel_def complete_def StartChannel_def Post_def result_simps
      dest!: threshold.call_R threshold.submitted_R threshold.refs_R split: if_splits option.splits)

lemma dispatch_events_threshold:
  "dispatch_events es st = Inr st' \<Longrightarrow> num_channels_threshold st' = num_channels_threshold st"
  by (induction es arbitrary: st) (auto simp: result_simps dest: dispatch_event_threshold)

lemma terminated_all:
  "terminate_each as st = Inr st' \<Longrightarrow> channel_pool st' = channel_pool st
     \<and> (\<forall>a. a \<in> set as \<or> (\<forall>c. channels st a = Some c \<longrightarrow> ch_terminated c) \<longrightarrow>
          (\<forall>c. channels st' a = Some c \<longrightarrow> ch_terminated c))"
proof (induction as arbitrary: st)
  case (Cons b as)
  then obtain st1 where st1: "Dispatcher_TerminateInLoop b st = Inr st1" "terminate_each as st1 = Inr st'"
    by (auto simp: result_simps)
  then obtain c where c: "channels st b = Some c" "st1 = set_channel b (Some (c\<lparr>ch_terminated := True\<rparr>)) st"
    by (auto simp: Dispatcher_TerminateInLoop_def channel_at_def result_simps split: option.splits)
  have "\<forall>d. channels st' x = Some d \<longrightarrow> ch_terminated d"
    if "x \<in> set (b # as) \<or> (\<forall>d. channels st x = Some d \<longrightarrow> ch_terminated d)" for x
  proof -
    have "x \<in> set as \<or> (\<forall>d. channels st1 x = Some d \<longrightarrow> ch_terminated d)" using that by (auto simp: c(2))
    then show ?thesis using Cons.IH [OF st1(2)] by blast
  qed
  moreover have "channel_pool st' = channel_pool st"
    using conjunct1 [OF Cons.IH [OF st1(2)]] by (simp add: c(2))
  ultimately show ?case by blast
qed simp

lemma reachable_ok:
  assumes "NetworkDispatcher_new threshold = Inr st0" "dispatch_events es st0 = Inr st" "length es < 2 ^ 29"
  shows "dispatcher_ok [] {#} st \<and> length (outstanding st) \<le> 2 * length es \<and> num_channels_threshold st = threshold"
proof -
  have "0 \<le> sint threshold" using assms(1) by (simp add: NetworkDispatcher_new_def CHECK_def split: if_splits)
  then have st0: "dispatcher_ok [] {#} st0" "outstanding st0 = []" "num_channels_threshold st0 = threshold"
    using new_dispatcher_ok [of threshold] assms(1) by auto
  moreover from this have "room (2 * length es + 8) {#} st0" using assms(3) by (simp add: room_def)
  ultimately show ?thesis using dispatch_events_ok [of st0 es] dispatch_events_threshold [OF assms(2)] assms(2) by auto
qed

subsection \<open>A dispatcher with one pooled channel\<close>

definition one_connection :: "dispatcher_event list" where
  "one_connection = [Accepted_connection False, Completed 0 False False]"

definition one_channel :: dispatcher_state where
  "one_channel = \<lparr>channels = [0 \<mapsto> \<lparr>ref_count = 2, ch_terminated = False, ch_closed_by_peer = False\<rparr>],
     next_channel = 1, channel_pool = [(0, 0)], num_channels_threshold = 1, need_stop = False, stopped = 0,
     keep_working = False, loop_thread = False, outstanding = [Read_some 0]\<rparr>"

lemmas dispatcher_eval = complete_def call_handler_def channel_read_def channel_at_def ReleaseChannel_def
  intrusive_ptr_release_def intrusive_ptr_add_ref_def RefCount_UnRef_def RefCount_Ref_def RefCount_new_def
  StartChannelInLoop_def SaveChannel_def submit_def Dispatcher_StartToRead_def StartChannel_def Post_def
  accept_channel_def new_channel_def set_channel_def map_find_def map_erase_def

lemma one_channel_reached:
  "\<exists>st0. NetworkDispatcher_new 1 = Inr st0 \<and> dispatch_events one_connection st0 = Inr one_channel"
  by (simp add: NetworkDispatcher_new_def one_connection_def one_channel_def Semaphore_new_def dispatcher_eval)

subsection \<open>A dispatcher that is being stopped\<close>

definition running :: "handler list \<Rightarrow> lifecycle" where
  "running hs = (life_start 1 hs)\<lparr>keep_working := True, loop_at := In_run\<rparr>"

definition stopping :: "handler list \<Rightarrow> lifecycle" where
  "stopping hs = (life_start 1 (hs @ [Close_all_channels]))\<lparr>need_stop := True, loop_at := In_run, stop_at := Waiting_for_loop\<rparr>"

lemma running_run: "labelled_run lifecycle_step (life_start 1 hs) [] (running hs)"
proof -
  have "lifecycle_step (life_start 1 hs) None (Loop_enter (life_start 1 hs))"
    by (rule life_enter) (simp add: life_start_def)
  moreover have "lifecycle_step (Loop_enter (life_start 1 hs)) None (running hs)"
    by (rule life_test) (simp_all add: running_def life_start_def Loop_enter_def RunOnce_test_def)
  ultimately show ?thesis by (meson run_silent run_start)
qed

lemma stopping_run: "labelled_run lifecycle_step (running hs) [] (stopping hs)"
proof -
  let ?s1 = "Stop_flag (running hs)"
  let ?s2 = "?s1\<lparr>outstanding := hs @ [Close_all_channels], stop_at := Close_posted\<rparr>"
  have "lifecycle_step (running hs) None ?s1"
    by (rule life_flag) (simp add: running_def life_start_def)
  moreover have "lifecycle_step ?s1 None ?s2"
    by (rule life_post) (simp_all add: Stop_flag_def running_def life_start_def Stop_post_def Post_def submit_def)
  moreover have "lifecycle_step ?s2 None (Stop_reset ?s2)" by (rule life_reset) simp
  moreover have "Stop_reset ?s2 = stopping hs"
    by (simp add: Stop_reset_def stopping_def Stop_flag_def running_def life_start_def)
  ultimately show ?thesis by (metis run_silent run_start)
qed

lemma run_append:
  "labelled_run step s1 tr' s2 \<Longrightarrow> labelled_run step s tr s1 \<Longrightarrow> labelled_run step s (tr @ tr') s2"
  by (induction rule: labelled_run.induct) (auto simp flip: append_assoc intro: labelled_run.intros)

lemma drained_run:
  "labelled_run lifecycle_step (life_start 1 []) [Close_all_channels] (stopping []\<lparr>outstanding := []\<rparr>)"
proof -
  have "lifecycle_step (stopping []) (Some (outstanding (stopping []) ! 0)) (stopping []\<lparr>outstanding := []\<rparr>)"
    by (rule life_handler) (simp_all add: stopping_def life_start_def complete_def call_handler_def CloseAllChannelsInLoop_def)
  then have "lifecycle_step (stopping []) (Some Close_all_channels) (stopping []\<lparr>outstanding := []\<rparr>)"
    by (simp add: stopping_def life_start_def)
  from run_visible [OF run_append [OF stopping_run running_run] this] show ?thesis by simp
qed

section \<open>Properties\<close>

text \<open>
  C8: Whatever connections are accepted and in whatever order reads and writes complete, fail or
  lead to more writes, the dispatcher neither uses a deleted channel nor fails a \<^verbatim>\<open>CHECK\<close>. The pool
  holds at most the threshold, the count of a channel is the number of its owners, which are
  the pool and the outstanding handlers, and a channel is deleted exactly when it has none.
\<close>

theorem channels_counted:
  assumes "0 \<le> sint threshold" "length es < 2 ^ 29"
  shows "\<exists>st0 st. NetworkDispatcher_new threshold = Inr st0 \<and> dispatch_events es st0 = Inr st
    \<and> length (channel_pool st) \<le> unat threshold
    \<and> (\<forall>a. case channels st a of None \<Rightarrow> a \<notin># owners st
         | Some c \<Rightarrow> a \<in># owners st \<and> unat (ref_count c) = count (owners st) a)"
proof -
  obtain st0 where st0: "NetworkDispatcher_new threshold = Inr st0" "dispatcher_ok [] {#} st0" "outstanding st0 = []"
    using new_dispatcher_ok [OF assms(1)] by auto
  moreover have "room (2 * length es + 8) {#} st0" using assms(2) st0(3) by (simp add: room_def)
  ultimately obtain st where st: "dispatch_events es st0 = Inr st"
    using dispatch_events_ok by blast
  note ok = reachable_ok [OF st0(1) st assms(2)]
  have "case channels st a of None \<Rightarrow> a \<notin># owners st | Some c \<Rightarrow> a \<in># owners st \<and> unat (ref_count c) = count (owners st) a" for a
    using ok by (auto simp: dispatcher_ok_def counts_ok_def counted_def not_in_iff dest!: spec [of _ a] split: option.splits)
  with st0(1) st ok show ?thesis by (auto simp: dispatcher_ok_def)
qed

theorem channels_counted_witness:
  "\<exists>st0 st. NetworkDispatcher_new 1 = Inr st0
    \<and> dispatch_events [Accepted_connection False, Accepted_connection True, Completed 0 False False, Completed 0 True False] st0 = Inr st
    \<and> length (channel_pool st) \<le> 1"
  using channels_counted [of 1 "[Accepted_connection False, Accepted_connection True, Completed 0 False False, Completed 0 True False]"]
  by auto

text \<open>
  C33: A channel that \<^verbatim>\<open>CloseAllChannelsInLoop\<close> terminates is never released: its reads return
  without telling the dispatcher, so that whatever happens later it stays in the pool and alive.
\<close>

theorem terminated_channel_never_freed:
  assumes "NetworkDispatcher_new threshold = Inr st0" "dispatch_events es st0 = Inr st"
    and "a \<in> fst ` set (channel_pool st)" "CloseAllChannelsInLoop st = Inr st1" "dispatch_events es' st1 = Inr st2"
    and "length es + length es' < 2 ^ 28"
  shows "a \<in> fst ` set (channel_pool st2) \<and> (\<exists>c. channels st2 a = Some c \<and> ch_terminated c)"
proof -
  have ok: "dispatcher_ok [] {#} st" "length (outstanding st) \<le> 2 * length es"
    using reachable_ok [OF assms(1,2)] assms(6) by auto
  have subs: "set (map snd (channel_pool st)) \<subseteq> set_mset (owners st + {#})"
    using ok(1) by (auto simp: dispatcher_ok_def owners_def)
  have ok1: "dispatcher_ok [] {#} st1" "outstanding st1 = outstanding st"
    using terminate_each_ok [OF ok(1) subs] assms(4) by (auto simp: CloseAllChannelsInLoop_def)
  have "a \<in> set (map snd (channel_pool st))" using assms(3) ok(1) by (auto simp: dispatcher_ok_def image_iff)
  then have "stuck a st1"
    using terminated_all [of "map snd (channel_pool st)" st st1] assms(3,4) by (auto simp: CloseAllChannelsInLoop_def stuck_def)
  moreover have "room (2 * length es' + 8) {#} st1" using ok(2) ok1(2) assms(6) by (simp add: room_def)
  ultimately have "stuck a st2" "dispatcher_ok [] {#} st2"
    using stuck_forever [OF ok1(1) _ _ assms(5)] dispatch_events_ok [OF ok1(1), of es'] assms(5) by auto
  moreover from this have "a \<in># owners st2" by (auto simp: stuck_def owners_def)
  ultimately show ?thesis
    using counts_ok_live [of "owners st2" st2 a] by (auto simp: stuck_def dispatcher_ok_def)
qed

theorem terminated_channel_never_freed_witness:
  "\<exists>st1 st2. CloseAllChannelsInLoop one_channel = Inr st1
    \<and> dispatch_events [Completed 0 True False] st1 = Inr st2
    \<and> 0 \<in> fst ` set (channel_pool st2) \<and> (\<exists>c. channels st2 0 = Some c \<and> ch_terminated c)"
proof -
  obtain st0 where st0: "NetworkDispatcher_new 1 = Inr st0" "dispatch_events one_connection st0 = Inr one_channel"
    using one_channel_reached by auto
  have "\<exists>st1 st2. CloseAllChannelsInLoop one_channel = Inr st1 \<and> dispatch_events [Completed 0 True False] st1 = Inr st2"
    by (simp add: one_channel_def CloseAllChannelsInLoop_def Dispatcher_TerminateInLoop_def dispatcher_eval)
  then show ?thesis
    using terminated_channel_never_freed [OF st0, of 0 _ "[Completed 0 True False]"]
    by (fastforce simp: one_channel_def one_connection_def)
qed

text \<open>
  C32: When the peer closes a connection, the channel is deleted at the end of that handler unless a
  write is under way. A service that kept the closure of a call and runs it afterwards sends
  the response through a dangling pointer.
\<close>

theorem answer_after_close_dangles:
  assumes "NetworkDispatcher_new threshold = Inr st0" "dispatch_events es st0 = Inr st" "length es < 2 ^ 29"
    and "i < length (outstanding st)" "outstanding st ! i = Read_some a" "a \<in> fst ` set (channel_pool st)"
    and "count (owners st) a = 2" "channels st a = Some c" "\<not> ch_terminated c" "\<not> ch_closed_by_peer c"
  shows "\<exists>st'. complete i True w st = Inr st' \<and> channels st' a = None
    \<and> Dispatcher_SendInLoop a st' = Inl Dangling_pointer"
proof -
  have ok: "dispatcher_ok [] {#} st" using reachable_ok [OF assms(1-3)] by simp
  then have "unat (ref_count c) = 2"
    using assms(7,8) counts_ok_live [of "owners st" st a] by (auto simp: dispatcher_ok_def count_greater_zero_iff [symmetric]
        simp del: count_greater_zero_iff)
  then have two: "ref_count c = 2" by (simp add: word_unat_eq_iff)
  have "\<exists>v. map_find a (channel_pool st) = Some v"
    using assms(6) by (metis map_find_def domD dom_map_of_conv_image_fst)
  then show ?thesis
    using assms(4,5,8,9,10) two
    by (auto simp: complete_def call_handler_def channel_read_def channel_at_def ReleaseChannel_def
        intrusive_ptr_release_def RefCount_UnRef_def Dispatcher_SendInLoop_def)
qed

theorem answer_after_close_dangles_witness:
  "\<exists>st'. complete 0 True False one_channel = Inr st' \<and> channels st' 0 = None
    \<and> Dispatcher_SendInLoop 0 st' = Inl Dangling_pointer"
proof -
  obtain st0 where st0: "NetworkDispatcher_new 1 = Inr st0" "dispatch_events one_connection st0 = Inr one_channel"
    using one_channel_reached by auto
  show ?thesis
    by (rule answer_after_close_dangles [OF st0, where i = 0 and a = 0])
      (auto simp: one_connection_def one_channel_def owners_def List.map_filter_simps)
qed

text \<open>
  C16: The handshake of \<^verbatim>\<open>Stop\<close> and \<^verbatim>\<open>Loop\<close>, in every interleaving of their statements and with any
  handlers in between: \<^verbatim>\<open>Stop\<close> returns only after the loop was left; and once \<^verbatim>\<open>Stop\<close> waits and
  the outstanding handlers are done, at most two more statements of the loop thread, which may
  not even have started yet, let it return.
\<close>

theorem Stop_meets_Loop:
  assumes "labelled_run lifecycle_step (life_start threshold hs) tr s"
  shows "(stop_at s = Stop_returned \<longrightarrow> loop_at s = Loop_left)
    \<and> (stop_at s = Waiting_for_loop \<and> outstanding s = [] \<longrightarrow>
       (\<exists>n \<le> 2. \<exists>s1 s2. loop_alone n s = Inr s1 \<and> Stop_wait s1 = Inr s2 \<and> stop_at s2 = Stop_returned))"
proof -
  have inv: "life_inv s" using life_run_inv [OF assms life_start_inv] .
  note unfolded = loop_next_def Loop_enter_def RunOnce_test_def Loop_leave_def Stop_wait_def Semaphore_Notify_def
    sem_post_def Semaphore_Wait_def run_finished_def life_inv_def sem_value_max_def
  have "\<exists>n \<le> 2. \<exists>s1 s2. loop_alone n s = Inr s1 \<and> Stop_wait s1 = Inr s2 \<and> stop_at s2 = Stop_returned"
    if "stop_at s = Waiting_for_loop" "outstanding s = []"
  proof (cases "loop_at s")
    case Not_looping
    then show ?thesis using inv that by (intro exI [of _ "Suc (Suc 0)"]) (simp add: unfolded)
  next
    case Work_made
    then show ?thesis using inv that by (intro exI [of _ "Suc 0"]) (simp add: unfolded)
  next
    case In_run
    then show ?thesis using inv that by (intro exI [of _ "Suc 0"]) (simp add: unfolded)
  next
    case Loop_left
    then show ?thesis using inv that by (intro exI [of _ 0]) (simp add: unfolded)
  qed
  then show ?thesis using inv by (auto simp: life_inv_def split: if_splits)
qed

theorem Stop_meets_Loop_witness:
  "\<exists>n \<le> 2. \<exists>s1 s2. loop_alone n (stopping []\<lparr>outstanding := []\<rparr>) = Inr s1 \<and> Stop_wait s1 = Inr s2
    \<and> stop_at s2 = Stop_returned"
  using Stop_meets_Loop [OF drained_run] by (simp add: stopping_def)

end
