(* ===== verification/Channel_Life.thy ===== *)
theory Channel_Life
  imports Client_Channel Rpc_Server Network_Dispatcher
begin

text \<open>
  The two views of a channel agree: \<^verbatim>\<open>Rpc_Channel\<close> has all that a handler of \<^verbatim>\<open>RPCChannel\<close> does to
  messages and sockets, \<^verbatim>\<open>Network_Dispatcher\<close> only what decides how long the channel lives. Here a
  completed read or write in the first view is matched with one in the second: the flags stay equal, and the
  next read or write is begun in both or in neither. That a read begins one write at most, however many
  requests it brings, comes from an account of the writes: begun writes less the one in flight.
\<close>

section \<open>What the life of a channel depends on\<close>

definition is_read :: "io_call \<Rightarrow> bool" where
  "is_read e = (case e of Async_read_some s \<Rightarrow> True | _ \<Rightarrow> False)"

definition reads :: "('u, 'm, 'z) channel_state_scheme \<Rightarrow> io_call list" where
  "reads st = filter is_read (io st)"

definition life_view :: "('u, 'm, 'z) channel_state_scheme \<Rightarrow> bool \<times> bool \<times> io_call list" where
  "life_view st = (terminated st, closed_by_peer st, reads st)"

named_theorems quiet \<open>operations that leave the life of the channel alone\<close>

lemma life_view_simps [simp]:
  "life_view (store a d st) = life_view st" "life_view (st\<lparr>pending := as\<rparr>) = life_view st"
  "life_view (st\<lparr>partial_message := p\<rparr>) = life_view st" "life_view (st\<lparr>heap := h\<rparr>) = life_view st"
  "life_view (st\<lparr>next_addr := n\<rparr>) = life_view st"
  "\<not> is_read e \<Longrightarrow> life_view (do_io e st) = life_view st"
  by (simp_all add: life_view_def reads_def store_def do_io_def)

lemma delete_quiet [quiet]: "delete_data a st = Inr st' \<Longrightarrow> life_view st' = life_view st"
  by (auto dest!: delete_data_Inr simp: life_view_def reads_def)

lemma write_quiet [quiet]:
  assumes "WriteInLoop c st = Inr st'"
  shows "life_view st' = life_view st"
proof (cases "pending st")
  case (Cons a rest)
  then obtain d where d: "load a st = Inr d" using assms by (auto simp: WriteInLoop_def result_simps)
  show ?thesis
  proof (cases "IsPending d")
    case False
    then obtain b d' where "GetBuffer c d = Inr (b, d')" using assms Cons d by (auto simp: WriteInLoop_def result_simps)
    then show ?thesis using assms Cons d False by (cases b) (auto simp: WriteInLoop_def result_simps is_read_def)
  qed (use assms Cons d in \<open>simp add: WriteInLoop_def\<close>)
qed (use assms in \<open>simp add: WriteInLoop_def\<close>)

lemma send_quiet [quiet]: "SendInLoop c a st = Inr st' \<Longrightarrow> life_view st' = life_view st"
  by (auto simp: SendInLoop_def dest: write_quiet)

lemma allocate_quiet [quiet]: "allocate d st = (a, st') \<Longrightarrow> life_view st' = life_view st"
  by (auto simp: allocate_def life_view_def reads_def)

lemma current_message_quiet [quiet]: "current_message c st = (a, st') \<Longrightarrow> life_view st' = life_view st"
  by (auto simp: current_message_def split: option.splits prod.splits dest: allocate_quiet)

text \<open>A relation that each step of \<^verbatim>\<open>ReadInLoop\<close> keeps is kept by the loop.\<close>

locale receiver_relation =
  fixes calls :: "('u, 'm, 'z) channel_state_scheme channel_calls"
    and R :: "('u, 'm, 'z) channel_state_scheme \<Rightarrow> ('u, 'm, 'z) channel_state_scheme \<Rightarrow> bool"
  assumes R_refl: "R st st"
    and R_trans: "R st st1 \<Longrightarrow> R st1 st2 \<Longrightarrow> R st st2"
    and R_current: "current_message c st = (a, st') \<Longrightarrow> R st st'"
    and R_append: "partial_message st = Some a \<Longrightarrow> R st (store a d st)"
    and R_drop: "partial_message st = Some a \<Longrightarrow> delete_data a st = Inr st' \<Longrightarrow> R st st'"
    and R_receive: "partial_message st = Some a \<Longrightarrow> receiver calls a st = Inr st' \<Longrightarrow> R st st'"
    and R_done: "R st (st\<lparr>partial_message := None\<rparr>)"
begin

lemma read_loop_related: "read_loop c calls bytes st = Inr st' \<Longrightarrow> R st st'"
proof (induction bytes arbitrary: st rule: length_induct)
  case (1 bytes)
  show ?case
  proof (cases "bytes = []")
    case False
    obtain a st1 where cm: "current_message c st = (a, st1)" by fastforce
    then have pm: "partial_message st1 = Some a" by (auto simp: current_message_def allocate_def split: option.splits)
    obtain d where d: "load a st1 = Inr d"
      using "1.prems" False cm by (subst (asm) read_loop.simps) (auto split: sum.splits)
    obtain k d2 where app: "AppendBinaries c bytes d = Inr (k, d2)"
      using "1.prems" False cm d by (subst (asm) read_loop.simps) (auto split: sum.splits)
    have pm2: "partial_message (store a d2 st1) = Some a" using pm by (simp add: store_def)
    have st1: "R st (store a d2 st1)" using R_trans [OF R_current [OF cm] R_append [OF pm]] .
    show ?thesis
    proof (cases "k < 0 \<or> Partial c d2 = Inr True")
      case True
      then show ?thesis using "1.prems" False cm d app st1
        by (subst (asm) read_loop.simps)
          (auto simp: Let_def result_simps split: if_splits intro: R_trans [OF st1 R_trans [OF R_drop [OF pm2] R_done]])
    next
      case complete: False
      then obtain st2 where st2: "receiver calls a (store a d2 st1) = Inr st2"
        "read_loop c calls (drop (nat k) bytes) (st2\<lparr>partial_message := None\<rparr>) = Inr st'"
        using "1.prems" False cm d app
        by (subst (asm) read_loop.simps) (auto simp: Let_def split: if_split_asm sum.split_asm bool.split_asm)
      have "0 < k" using complete AppendBinaries_not_zero [OF app False] by auto
      then have "length (drop (nat k) bytes) < length bytes" using False by simp
      then have "R (st2\<lparr>partial_message := None\<rparr>) st'" using "1.IH" st2(2) by fastforce
      then show ?thesis using R_trans [OF st1 R_trans [OF R_receive [OF pm2 st2(1)] R_trans [OF R_done]]] by simp
    qed
  qed (use "1.prems" in \<open>simp add: read_loop.simps R_refl\<close>)
qed

end

text \<open>A receiver that neither closes the channel nor begins a read of its own.\<close>

locale quiet_receiver =
  fixes calls :: "('u, 'm, 'z) channel_state_scheme channel_calls"
  assumes receiver_quiet: "receiver calls a st = Inr st' \<Longrightarrow> life_view st' = life_view st"

sublocale quiet_receiver \<subseteq> life: receiver_relation calls "\<lambda>st st'. life_view st' = life_view st"
  by unfold_locales (auto intro: receiver_quiet dest: current_message_quiet delete_quiet)

context quiet_receiver
begin

lemma completed_read:
  assumes "ReadInLoop c calls error bytes st = Inr st'" "terminated st \<or> \<not> error"
  shows "if terminated st then st' = st
    else terminated st' = terminated st \<and> closed_by_peer st' = closed_by_peer st \<and> length (reads st') = length (reads st) + 1"
proof (cases "terminated st")
  case False
  then obtain st1 where st1: "read_loop c calls bytes st = Inr st1" "st' = StartToRead st1"
    using assms by (auto simp: ReadInLoop_def result_simps)
  have "life_view st1 = life_view st" using st1(1) by (rule life.read_loop_related)
  then show ?thesis using False st1(2)
    by (auto simp: life_view_def reads_def StartToRead_def do_io_def is_read_def)
qed (use assms in \<open>simp add: ReadInLoop_def\<close>)

end

lemma SendResponse_quiet [quiet]: "SendResponse c meta response st = Inr st' \<Longrightarrow> life_view st' = life_view st"
  by (auto simp: SendResponse_def Let_def result_simps allocate_def dest!: send_quiet)

text \<open>What \<^verbatim>\<open>CallMethod\<close> does to the channel: nothing, or it deletes the request and keeps or answers it.\<close>

lemma CallMethod_cases:
  assumes "CallMethod c env a st = Inr st'"
  obtains (dropped) "st' = st"
  | (kept) st1 x y where "delete_data a st = Inr st1" "st' = st1\<lparr>calls_made := x, unanswered := y\<rparr>"
  | (replied) st1 x m r where "delete_data a st = Inr st1" "SendResponse c m r (st1\<lparr>calls_made := x\<rparr>) = Inr st'"
proof -
  obtain d m where d: "load a st = Inr d" "Data_Meta d = Inr m"
    using assms by (auto simp: CallMethod_def result_simps)
  define meta where "meta = RPCMetaData_copy (wire c) m"
  obtain s where s: "GetService (md_service_id meta) st = Some s"
    using assms d by (cases "GetService (md_service_id meta) st") (simp_all add: CallMethod_def meta_def)
  define i where "i = sint (md_method_id meta)"
  obtain body where body: "MessageBinary d = Inr body"
    using assms d s by (auto simp: CallMethod_def result_simps meta_def [symmetric] i_def [symmetric] split: if_splits)
  note facts = assms d s body
  show thesis
  proof (cases "parse_request env s (nat i) (take (unat (md_message_length meta)) body)")
    case None
    then show thesis using facts dropped
      by (auto simp: CallMethod_def result_simps meta_def [symmetric] i_def [symmetric] split: if_splits)
  next
    case (Some q)
    then obtain st1 where st1: "delete_data a st = Inr st1"
      using facts by (auto simp: CallMethod_def result_simps meta_def [symmetric] i_def [symmetric] split: if_splits)
    show thesis
    proof (cases "serve env s (nat i) q")
      case None
      then show thesis using facts Some st1 kept [OF st1]
        by (auto simp: CallMethod_def Let_def meta_def [symmetric] i_def [symmetric] split: if_splits)
    next
      case (Some r)
      then show thesis using facts \<open>parse_request _ _ _ _ = Some q\<close> st1 replied [OF st1]
        by (auto simp: CallMethod_def Let_def meta_def [symmetric] i_def [symmetric] split: if_splits)
    qed
  qed
qed

lemma CallMethod_quiet [quiet]:
  assumes "CallMethod c env a st = Inr st'"
  shows "life_view st' = life_view st"
  using assms
proof (cases rule: CallMethod_cases)
  case (kept st1 x y)
  then show ?thesis using delete_quiet by (fastforce simp: life_view_def reads_def)
next
  case (replied st1 x m r)
  then show ?thesis using delete_quiet [OF replied(1)] SendResponse_quiet [OF replied(2)] by (simp add: life_view_def reads_def)
qed simp

interpretation serving: quiet_receiver "server_calls c env release"
  by unfold_locales (auto simp: server_calls_def dest: CallMethod_quiet)

lemma ReceivePackage_quiet [quiet]: "ReceivePackage parses a st = Inr st' \<Longrightarrow> life_view st' = life_view st"
  by (auto simp: ReceivePackage_def ReleaseSession_def Session_Done_def Session_ReleaseData_def result_simps life_view_def reads_def
      split: option.split_asm prod.split_asm dest!: delete_quiet)

interpretation calling: quiet_receiver "client_calls parses"
  by unfold_locales (auto simp: client_calls_def dest: ReceivePackage_quiet)

section \<open>Accounting for the writes\<close>

text \<open>
  The message in flight is the head of the queue once it is marked as pending. The queued messages are
  different objects, and none of them is the message being collected, which a receiver deletes.
\<close>

definition in_flight :: "('u, 'm, 'z) channel_state_scheme \<Rightarrow> nat" where
  "in_flight st = (case pending st of [] \<Rightarrow> 0
     | a # _ \<Rightarrow> (case heap st a of None \<Rightarrow> 0 | Some d \<Rightarrow> of_bool (IsPending d)))"

definition queue_apart :: "('u, 'm, 'z) channel_state_scheme \<Rightarrow> bool" where
  "queue_apart st \<longleftrightarrow> distinct (pending st) \<and> (\<forall>a \<in> set (pending st). a < next_addr st)
     \<and> (case partial_message st of None \<Rightarrow> True | Some p \<Rightarrow> p < next_addr st \<and> p \<notin> set (pending st))"

text \<open>As many writes were begun as messages came into flight.\<close>

definition accounted :: "('u, 'm, 'z) channel_state_scheme \<Rightarrow> ('u, 'm, 'z) channel_state_scheme \<Rightarrow> bool" where
  "accounted st st' \<longleftrightarrow> length (writes st) \<le> length (writes st') \<and> (queue_apart st \<longrightarrow> queue_apart st' \<and>
     length (writes st') + in_flight st = length (writes st) + in_flight st')"

lemma accounted_trans [trans]: "accounted st st1 \<Longrightarrow> accounted st1 st2 \<Longrightarrow> accounted st st2"
  by (auto simp: accounted_def)

lemma queue_apart_updates [simp]:
  "queue_apart (st\<lparr>io := es\<rparr>) = queue_apart st" "queue_apart (st\<lparr>closed_by_peer := b\<rparr>) = queue_apart st"
  by (simp_all add: queue_apart_def cong: option.case_cong)

lemma accounted_refl: "accounted st st"
  by (simp add: accounted_def)

lemma in_flight_le: "in_flight st \<le> 1"
  by (simp add: in_flight_def split: list.split option.split)

lemma WriteInLoop_cases:
  assumes "WriteInLoop c st = Inr st'"
  obtains "st' = st" "in_flight st = 1 \<or> pending st = []"
  | a rest d d' bs where "pending st = a # rest" "heap st a = Some d" "\<not> IsPending d" "IsPending d'"
      "st' = do_io (Async_write (socket st) bs) (store a d' st)"
proof (cases "pending st")
  case (Cons a rest)
  then obtain d where d: "heap st a = Some d" using assms by (auto simp: WriteInLoop_def load_def result_simps split: option.splits)
  show thesis
  proof (cases "IsPending d")
    case True
    then show thesis using that(1) assms Cons d by (simp add: WriteInLoop_def load_def in_flight_def)
  next
    case False
    then obtain b d' where b: "GetBuffer c d = Inr (b, d')" using assms Cons d by (auto simp: WriteInLoop_def load_def result_simps)
    then have "IsPending d'" by (auto simp: GetBuffer_def IsPending_def Let_def result_simps)
    then show thesis using that(2) assms Cons d False b by (cases b) (auto simp: WriteInLoop_def load_def result_simps)
  qed
qed (use assms that(1) in \<open>simp add: WriteInLoop_def\<close>)

lemma write_accounted: "WriteInLoop c st = Inr st' \<Longrightarrow> accounted st st'"
  by (erule WriteInLoop_cases) (auto simp: accounted_def in_flight_def queue_apart_def do_io_def store_def writes_def split: option.splits)

lemma send_accounted:
  assumes "SendInLoop c (next_addr st) (st\<lparr>heap := (heap st)(next_addr st \<mapsto> d), next_addr := next_addr st + 1\<rparr>) = Inr st'" "\<not> IsPending d"
  shows "accounted st st'"
proof -
  let ?st = "st\<lparr>heap := (heap st)(next_addr st \<mapsto> d), next_addr := next_addr st + 1, pending := pending st @ [next_addr st]\<rparr>"
  have "accounted st ?st" using assms(2)
    by (auto simp: accounted_def queue_apart_def in_flight_def writes_def less_Suc_eq split: option.splits list.splits)
  also have "accounted ?st st'" using assms(1) by (simp add: SendInLoop_def write_accounted)
  finally show ?thesis .
qed

lemma ToBuffer_IsPending: "ToBuffer c d = Inr d' \<Longrightarrow> IsPending d' = IsPending d"
  by (auto simp: ToBuffer_def Let_def IsPending_def result_simps split: if_splits option.splits)

lemma SendResponse_accounted:
  assumes "SendResponse c meta response st = Inr st'"
  shows "accounted st st'"
proof -
  obtain d where d: "RPCData_of c (Live (set_message_length (of_nat (payload_ByteSize c response)) meta)) (Live response) = Inr d"
    "SendInLoop c (next_addr st) (st\<lparr>heap := (heap st)(next_addr st \<mapsto> d\<lparr>rd_owned := True\<rparr>), next_addr := next_addr st + 1\<rparr>) = Inr st'"
    using assms by (auto simp: SendResponse_def Let_def result_simps allocate_def OwnMetaAndPayload_def)
  have "\<not> IsPending d" using d(1) ToBuffer_IsPending by (fastforce simp: RPCData_of_def IsPending_def)
  then show ?thesis by (intro send_accounted [OF d(2)]) (simp add: IsPending_def)
qed

lemma request_updates [simp]:
  "in_flight (st\<lparr>calls_made := x\<rparr>) = in_flight st" "in_flight (st\<lparr>unanswered := y\<rparr>) = in_flight st"
  "queue_apart (st\<lparr>calls_made := x\<rparr>) = queue_apart st" "queue_apart (st\<lparr>unanswered := y\<rparr>) = queue_apart st"
  "writes (st\<lparr>calls_made := x\<rparr>) = writes st" "writes (st\<lparr>unanswered := y\<rparr>) = writes st"
  by (simp_all add: in_flight_def queue_apart_def writes_def cong: list.case_cong option.case_cong)

lemma delete_accounted:
  assumes "partial_message st = Some a" "delete_data a st = Inr st'"
  shows "accounted st st'"
  using assms delete_data_Inr [OF assms(2)]
  by (auto simp: accounted_def queue_apart_def in_flight_def writes_def split: list.splits)

lemma CallMethod_accounted:
  assumes "partial_message st = Some a" "CallMethod c env a st = Inr st'"
  shows "accounted st st'"
  using assms(2)
proof (cases rule: CallMethod_cases)
  case dropped
  then show ?thesis by (simp add: accounted_def)
next
  case (kept st1 x y)
  then show ?thesis using delete_accounted [OF assms(1) kept(1)]
    by (simp add: accounted_def)
next
  case (replied st1 x m r)
  have "accounted st (st1\<lparr>calls_made := x\<rparr>)" using delete_accounted [OF assms(1) replied(1)]
    by (simp add: accounted_def)
  also have "accounted \<dots> st'" by (rule SendResponse_accounted [OF replied(2)])
  finally show ?thesis .
qed

lemma current_accounted: "current_message c st = (a, st') \<Longrightarrow> accounted st st'"
  by (auto simp: current_message_def allocate_def accounted_def queue_apart_def in_flight_def writes_def less_Suc_eq
      split: option.splits list.splits)

lemma store_accounted: "partial_message st = Some a \<Longrightarrow> accounted st (store a d st)"
  by (auto simp: accounted_def queue_apart_def in_flight_def store_def writes_def split: list.splits)

lemma done_accounted: "accounted st (st\<lparr>partial_message := None\<rparr>)"
  by (auto simp: accounted_def queue_apart_def in_flight_def writes_def split: list.splits)

interpretation accounts: receiver_relation "server_calls c env release" accounted
  by unfold_locales (auto simp: server_calls_def accounted_refl intro: accounted_trans current_accounted store_accounted done_accounted
      delete_accounted CallMethod_accounted)
section \<open>The views match\<close>

text \<open>As long as the dispatcher has the channel, its flags are those of the channel.\<close>

definition same_life :: "nat \<Rightarrow> ('u, 'm, 'z) channel_state_scheme \<Rightarrow> 'y dispatcher_state_scheme \<Rightarrow> bool" where
  "same_life a st d \<longleftrightarrow> (\<forall>c. channels d a = Some c \<longrightarrow>
     ch_terminated c = terminated st \<and> ch_closed_by_peer c = closed_by_peer st)"

definition pending_reads :: "nat \<Rightarrow> 'y dispatcher_state_scheme \<Rightarrow> nat" where
  "pending_reads a d = length (filter (\<lambda>h. h = Read_some a) (outstanding d))"

definition pending_writes :: "nat \<Rightarrow> 'y dispatcher_state_scheme \<Rightarrow> nat" where
  "pending_writes a d = length (filter (\<lambda>h. h = Write_all a) (outstanding d))"

definition flags_from :: "nat \<Rightarrow> 'y dispatcher_state_scheme \<Rightarrow> 'y dispatcher_state_scheme \<Rightarrow> bool" where
  "flags_from a d d' \<longleftrightarrow> (\<forall>c'. channels d' a = Some c' \<longrightarrow>
     (\<exists>c. channels d a = Some c \<and> ch_terminated c' = ch_terminated c \<and> ch_closed_by_peer c' = ch_closed_by_peer c))"

lemma flags_from_trans: "flags_from a d d1 \<Longrightarrow> flags_from a d1 d2 \<Longrightarrow> flags_from a d d2"
  by (fastforce simp: flags_from_def)

lemma same_life_from: "same_life a st d \<Longrightarrow> flags_from a d d' \<Longrightarrow> same_life a st d'"
  by (fastforce simp: same_life_def flags_from_def)

lemma release_flags:
  "intrusive_ptr_release b d = Inr d' \<Longrightarrow> flags_from a d d' \<and> outstanding d' = outstanding d \<and> channel_pool d' = channel_pool d"
  by (auto simp: intrusive_ptr_release_def channel_at_def flags_from_def result_simps split: option.splits if_splits)

lemma submit_flags: "submit h d = Inr d' \<Longrightarrow> flags_from a d d' \<and> outstanding d' = outstanding d @ [h]"
  by (auto simp: submit_def intrusive_ptr_add_ref_def channel_at_def flags_from_def result_simps split: option.splits if_splits)

lemma read_continues:
  assumes "channel_read False w a d = Inr d'" "channels d a = Some c" "\<not> ch_terminated c"
  shows "flags_from a d d' \<and> pending_reads a d' = pending_reads a d + 1 \<and> pending_writes a d' = pending_writes a d + of_bool w"
proof -
  obtain d1 where d1: "(if w then submit (Write_all a) d else Inr d) = Inr d1" "submit (Read_some a) d1 = Inr d'"
    using assms by (auto simp: channel_read_def channel_at_def Dispatcher_StartToRead_def result_simps)
  have "flags_from a d d1" "pending_reads a d1 = pending_reads a d" "pending_writes a d1 = pending_writes a d + of_bool w"
    using d1(1) submit_flags [of "Write_all a" d d1 a]
    by (auto simp: flags_from_def pending_reads_def pending_writes_def split: if_splits)
  then show ?thesis using submit_flags [OF d1(2), of a]
    by (auto simp: pending_reads_def pending_writes_def dest: flags_from_trans)
qed

text \<open>A read error closes the channel in both views, which leaves the pool.\<close>

lemma read_closes:
  assumes "map_ok (channel_pool d)" "channels d a = Some co" "\<not> ch_terminated co" "\<not> ch_closed_by_peer co"
    and "channel_read True w a d = Inr d'" "\<not> terminated st" "closed_by_peer st"
  shows "same_life a st d' \<and> outstanding d' = outstanding d \<and> map_find a (channel_pool d') = None"
proof -
  let ?d = "set_channel a (Some (co\<lparr>ch_closed_by_peer := True\<rparr>)) d"
  have rel: "ReleaseChannel a ?d = Inr d'" using assms by (simp add: channel_read_def channel_at_def)
  have life: "same_life a st ?d" using assms by (simp add: same_life_def)
  show ?thesis
  proof (cases "map_find a (channel_pool d)")
    case None
    then show ?thesis using rel life by (auto simp: ReleaseChannel_def)
  next
    case (Some b)
    obtain b' where r: "intrusive_ptr_release b' (?d\<lparr>channel_pool := map_erase a (channel_pool d)\<rparr>) = Inr d'"
      using rel Some by (auto simp: ReleaseChannel_def)
    have "same_life a st (?d\<lparr>channel_pool := map_erase a (channel_pool d)\<rparr>)" using life by (simp add: same_life_def)
    from same_life_from [OF this] show ?thesis using release_flags [OF r, of a] std.find_erase [OF assms(1), of a a] by simp
  qed
qed

text \<open>
  A completed read begins one read, and one write at most: none while a message is in flight, and the first
  response of the read is in flight afterwards.
\<close>

lemma server_read:
  assumes "ReadInLoop c (server_calls c env release) False bytes st = Inr st'" "\<not> terminated st" "queue_apart st"
  shows "queue_apart st'" "terminated st' = terminated st" "closed_by_peer st' = closed_by_peer st"
    "length (reads st') = length (reads st) + 1"
    "length (writes st') = length (writes st) + of_bool (length (writes st) < length (writes st'))"
proof -
  obtain st1 where st1: "read_loop c (server_calls c env release) bytes st = Inr st1" "st' = StartToRead st1"
    using assms by (auto simp: ReadInLoop_def result_simps)
  have eq: "writes st' = writes st1" "queue_apart st' = queue_apart st1"
    by (simp_all add: st1(2) StartToRead_def do_io_def writes_def)
  have acc: "accounted st st1" using st1(1) by (rule accounts.read_loop_related)
  then show "queue_apart st'" using assms(3) eq by (simp add: accounted_def)
  show "length (writes st') = length (writes st) + of_bool (length (writes st) < length (writes st'))"
    using acc assms(3) eq in_flight_le [of st1] by (auto simp: accounted_def)
  show "terminated st' = terminated st" "closed_by_peer st' = closed_by_peer st" "length (reads st') = length (reads st) + 1"
    using serving.completed_read [OF assms(1)] assms(2) by auto
qed

lemma server_wrote:
  assumes "Written c (server_calls c env release) error n st = Inr st'" "queue_apart st"
  shows "queue_apart st'" "life_view st' = life_view st" "error \<Longrightarrow> st' = st"
    "length (writes st') = length (writes st) + of_bool (length (writes st) < length (writes st'))"
proof -
  have "queue_apart st' \<and> life_view st' = life_view st
    \<and> length (writes st') = length (writes st) + of_bool (length (writes st) < length (writes st'))"
  proof (cases "error \<or> pending st = []")
    case True
    then have "st' = st" using assms(1) by (auto simp: Written_def CHECK_def split: if_splits)
    then show ?thesis using assms(2) by simp
  next
    case False
    then obtain a rest where p: "pending st = a # rest" by (cases "pending st") auto
    obtain d st1 where st1: "delete_data a ((store a d st)\<lparr>pending := rest\<rparr>) = Inr st1" "WriteInLoop c st1 = Inr st'"
      using assms(1) False p by (auto simp: Written_def server_calls_def server_RecycleRPCData_def result_simps)
    have "queue_apart st1 \<and> life_view st1 = life_view st \<and> writes st1 = writes st"
      using delete_data_Inr [OF st1(1)] assms(2) p
      by (auto simp: queue_apart_def store_def life_view_def reads_def writes_def split: option.splits)
    moreover have "accounted st1 st'" by (rule write_accounted [OF st1(2)])
    moreover have "length (writes st') = length (writes st1) + of_bool (length (writes st1) < length (writes st'))"
      using st1(2) by (rule WriteInLoop_cases) auto
    ultimately show ?thesis using write_quiet [OF st1(2)] by (simp add: accounted_def)
  qed
  then show "queue_apart st'" "life_view st' = life_view st"
    "length (writes st') = length (writes st) + of_bool (length (writes st) < length (writes st'))" by auto
  show "error \<Longrightarrow> st' = st" using assms(1) by (simp add: Written_def)
qed

section \<open>Property\<close>

text \<open>
  C17: The handlers of a server channel have the same effect on both views. Let the channel and its object in
  the dispatcher agree on whether it is terminated and closed, and let one completed read or write be handled
  in both, where the object is told whether the handler of the channel began a write. Then they agree
  afterwards, the channel never began more than one write, as many reads and writes are begun on the socket as
  are submitted to the dispatcher, and a channel that is closed by this handler has left the pool.
\<close>

theorem channel_views_agree:
  assumes "map_ok (channel_pool d)" "same_life a st d" "queue_apart st"
    and "w \<longleftrightarrow> length (writes st) < length (writes st')"
    and "ReadInLoop c (server_calls c env Inr) error bytes st = Inr st' \<and> channel_read error w a d = Inr d'
      \<or> Written c (server_calls c env Inr) error n st = Inr st' \<and> channel_written error w a d = Inr d'"
  shows "same_life a st' d' \<and> queue_apart st'
    \<and> pending_reads a d' + length (reads st) = pending_reads a d + length (reads st')
    \<and> pending_writes a d' + length (writes st) = pending_writes a d + length (writes st')
    \<and> (closed_by_peer st' \<and> \<not> closed_by_peer st \<longrightarrow> map_find a (channel_pool d') = None)"
  using assms(5)
proof
  assume run: "Written c (server_calls c env Inr) error n st = Inr st' \<and> channel_written error w a d = Inr d'"
  note sw = server_wrote [OF run [THEN conjunct1] assms(3)]
  have "flags_from a d d' \<and> pending_reads a d' = pending_reads a d \<and> pending_writes a d' = pending_writes a d + of_bool w"
    using run sw(3) assms(4) submit_flags [of "Write_all a" d d' a]
    by (auto simp: channel_written_def flags_from_def pending_reads_def pending_writes_def result_simps split: if_splits)
  then show ?thesis using sw(1,2,4) assms(4) same_life_from [OF assms(2)] by (auto simp: life_view_def same_life_def)
next
  assume run: "ReadInLoop c (server_calls c env Inr) error bytes st = Inr st' \<and> channel_read error w a d = Inr d'"
  then obtain co where co: "channels d a = Some co" by (auto simp: channel_read_def channel_at_def result_simps split: option.splits)
  then have flags: "ch_terminated co = terminated st" "ch_closed_by_peer co = closed_by_peer st"
    using assms(2) by (auto simp: same_life_def)
  consider (unchanged) "terminated st \<or> error \<and> closed_by_peer st"
    | (closed) "\<not> terminated st" "error" "\<not> closed_by_peer st"
    | (continues) "\<not> terminated st" "\<not> error" by blast
  then show ?thesis
  proof cases
    case unchanged
    then have "st' = st" "d' = d" using run co flags by (auto simp: ReadInLoop_def channel_read_def channel_at_def)
    then show ?thesis using assms(2,3) by simp
  next
    case closed
    then have st': "st' = st\<lparr>closed_by_peer := True\<rparr>" using run by (simp add: ReadInLoop_def server_calls_def)
    moreover have "same_life a st' d' \<and> outstanding d' = outstanding d \<and> map_find a (channel_pool d') = None"
      using read_closes [OF assms(1) co, of w d' st'] run closed flags by (simp add: st')
    ultimately show ?thesis using assms(3)
      by (simp add: pending_reads_def pending_writes_def reads_def writes_def)
  next
    case continues
    then have "ReadInLoop c (server_calls c env Inr) False bytes st = Inr st'" using run by simp
    note sr = server_read [OF this continues(1) assms(3)]
    have "flags_from a d d' \<and> pending_reads a d' = pending_reads a d + 1 \<and> pending_writes a d' = pending_writes a d + of_bool w"
      using read_continues [OF _ co] run continues flags by auto
    then show ?thesis using sr assms(4) same_life_from [OF assms(2)] by (auto simp: same_life_def)
  qed
qed

definition quiet_channel :: "(byte list, byte list, byte list) server_state" where
  "quiet_channel = \<lparr>heap = Map.empty, next_addr = 0, io = [], partial_message = None, pending = [],
     closed_by_peer = False, terminated = False, socket = 7, service_pool = [], calls_made = [], unanswered = []\<rparr>"

theorem channel_views_agree_witness:
  "\<exists>st' d'. ReadInLoop guide_codec (server_calls guide_codec echo_services Inr) True [] quiet_channel = Inr st'
    \<and> channel_read True False 0 one_channel = Inr d' \<and> same_life 0 st' d' \<and> map_find 0 (channel_pool d') = None"
proof -
  let ?st' = "quiet_channel\<lparr>closed_by_peer := True\<rparr>"
  have r: "ReadInLoop guide_codec (server_calls guide_codec echo_services Inr) True [] quiet_channel = Inr ?st'"
    by (simp add: ReadInLoop_def server_calls_def quiet_channel_def)
  obtain d' where d: "channel_read True False 0 one_channel = Inr d'"
    by (simp add: one_channel_def dispatcher_eval)
  have "map_ok (channel_pool one_channel)" "same_life 0 quiet_channel one_channel" "queue_apart quiet_channel"
    "False \<longleftrightarrow> length (writes quiet_channel) < length (writes ?st')"
    by (simp_all add: one_channel_def same_life_def quiet_channel_def queue_apart_def writes_def)
  from channel_views_agree [OF this disjI1 [OF conjI [OF r d]]] show ?thesis using r d by (auto simp: quiet_channel_def)
qed

end
