(* ===== verification/Server_Lifecycle.thy ===== *)
theory Server_Lifecycle
  imports Network_Dispatcher
begin

text \<open>
  The life of \<^verbatim>\<open>RPCServerImpl\<close> (\<^verbatim>\<open>rpc/detail/rpc_server_impl.h\<close> and \<^verbatim>\<open>.cc\<close>): its dispatchers, the
  acceptor, and the connections it hands to the dispatchers in turn. What a connection's
  requests do is the matter of \<^verbatim>\<open>Rpc_Server\<close>.

  The handlers of the server itself run on the first dispatcher, whose list of outstanding
  handlers names them by number: the wait for a signal, the pending accept and the request to
  close the acceptor. Parsing of an address and the calls that put a socket into the listening
  state belong to \<^verbatim>\<open>boost::asio\<close> and are parameters.
\<close>

section \<open>State\<close>

abbreviation Signal_wait :: handler where "Signal_wait \<equiv> Foreign 0"
abbreviation Accept_wait :: handler where "Accept_wait \<equiv> Foreign 1"
abbreviation Close_acceptor :: handler where "Close_acceptor \<equiv> Foreign 2"

datatype listen_outcome = Listening | Cannot_open | Cannot_listen

record listener =
  address_parses :: "string \<Rightarrow> bool"
  listen_at :: "string \<Rightarrow> 16 word \<Rightarrow> listen_outcome"

record listening_server =
  ls_ip :: string
  ls_port :: u32
  networkers :: "lifecycle list"
  i_selected :: nat
  acceptor_open :: bool
  accepting :: "nat option"
  assigned :: "nat list"

section \<open>Operations\<close>

definition dispatcher_new :: "i32 \<Rightarrow> lifecycle result" where
  "dispatcher_new threshold = CHECK (0 \<le> sint threshold) (Inr (life_start threshold []))"

fun new_dispatchers :: "nat \<Rightarrow> i32 \<Rightarrow> lifecycle list result" where
  "new_dispatchers 0 threshold = Inr []"
| "new_dispatchers (Suc n) threshold =
     bind_result (dispatcher_new threshold) (\<lambda>d. bind_result (new_dispatchers n threshold) (\<lambda>ds. Inr (d # ds)))"

definition RPCServerImpl_new :: "string \<Rightarrow> u32 \<Rightarrow> i32 \<Rightarrow> i32 \<Rightarrow> i32 \<Rightarrow> listening_server result" where
  "RPCServerImpl_new ip port num_threads size_network_queue threshold =
     CHECK (0 < sint num_threads)
       (bind_result (new_dispatchers (nat (sint num_threads)) threshold) (\<lambda>ds.
        Inr \<lparr>ls_ip = ip, ls_port = port, networkers = ds, i_selected = 0, acceptor_open = False,
          accepting = None, assigned = []\<rparr>))"

definition on_dispatcher ::
  "nat \<Rightarrow> (lifecycle \<Rightarrow> lifecycle result) \<Rightarrow> listening_server \<Rightarrow> listening_server result" where
  "on_dispatcher i f srv =
     (if i < length (networkers srv)
      then bind_result (f (networkers srv ! i)) (\<lambda>d. Inr (srv\<lparr>networkers := (networkers srv)[i := d]\<rparr>))
      else Inl Out_of_range)"

definition GetIdlestDispatcher :: "listening_server \<Rightarrow> (nat \<times> listening_server) result" where
  "GetIdlestDispatcher srv =
     CHECK (i_selected srv < length (networkers srv))
       (Inr (i_selected srv, srv\<lparr>i_selected := (i_selected srv + 1) mod length (networkers srv)\<rparr>))"

definition StartToAccept :: "listening_server \<Rightarrow> listening_server result" where
  "StartToAccept srv =
     bind_result (GetIdlestDispatcher srv) (\<lambda>(i, srv).
     on_dispatcher 0 (submit Accept_wait) (srv\<lparr>accepting := Some i\<rparr>))"

definition Server_Init :: "listener \<Rightarrow> listening_server \<Rightarrow> (bool \<times> listening_server) result" where
  "Server_Init env srv =
     bind_result (on_dispatcher 0 (submit Signal_wait) srv) (\<lambda>srv.
     if ls_ip srv \<noteq> [] \<and> \<not> address_parses env (ls_ip srv) then Inr (False, srv)
     else case listen_at env (ls_ip srv) (ucast (ls_port srv)) of
         Cannot_open \<Rightarrow> Inr (False, srv)
       | Cannot_listen \<Rightarrow> Inr (False, srv\<lparr>acceptor_open := True\<rparr>)
       | Listening \<Rightarrow> bind_result (StartToAccept (srv\<lparr>acceptor_open := True\<rparr>)) (\<lambda>srv. Inr (True, srv)))"

text \<open>The destructor deletes the dispatchers.\<close>

definition RPCServerImpl_delete :: "listening_server \<Rightarrow> listening_server" where
  "RPCServerImpl_delete srv = srv\<lparr>networkers := []\<rparr>"

definition CreateRPCServer ::
  "listener \<Rightarrow> string \<Rightarrow> u32 \<Rightarrow> i32 \<Rightarrow> i32 \<Rightarrow> i32 \<Rightarrow> listening_server option result" where
  "CreateRPCServer env ip port num_threads size_network_queue threshold =
     bind_result (RPCServerImpl_new ip port num_threads size_network_queue threshold) (\<lambda>srv.
     bind_result (Server_Init env srv) (\<lambda>(initialized, srv).
     Inr (if initialized then Some srv else None)))"

definition forget_handler :: "handler \<Rightarrow> lifecycle \<Rightarrow> lifecycle result" where
  "forget_handler h d = Inr (d\<lparr>outstanding := remove1 h (outstanding d)\<rparr>)"

text \<open>
  \<^verbatim>\<open>Accepted\<close> runs on the first dispatcher; the dispatcher it was bound to is that of the pending
  accept.
\<close>

definition Accepted :: "bool \<Rightarrow> listening_server \<Rightarrow> listening_server result" where
  "Accepted error srv =
     (case accepting srv of
        None \<Rightarrow> Inr srv
      | Some i \<Rightarrow>
          bind_result (on_dispatcher 0 (forget_handler Accept_wait) (srv\<lparr>accepting := None\<rparr>)) (\<lambda>srv.
          if \<not> error then
            bind_result (on_dispatcher i (accept_channel (i = 0)) srv) (\<lambda>srv.
            StartToAccept (srv\<lparr>assigned := assigned srv @ [i]\<rparr>))
          else if \<not> acceptor_open srv then Inr srv
          else StartToAccept srv))"

definition CloseAcceptor :: "listening_server \<Rightarrow> listening_server" where
  "CloseAcceptor srv = srv\<lparr>acceptor_open := False\<rparr>"

fun each_dispatcher :: "nat list \<Rightarrow> (lifecycle \<Rightarrow> lifecycle result) \<Rightarrow> listening_server \<Rightarrow> listening_server result" where
  "each_dispatcher [] f srv = Inr srv"
| "each_dispatcher (i # is) f srv = bind_result (on_dispatcher i f srv) (each_dispatcher is f)"

text \<open>\<^verbatim>\<open>Run\<close> up to the point where the first dispatcher enters its loop.\<close>

definition Server_Run :: "listening_server \<Rightarrow> listening_server result" where
  "Server_Run srv =
     bind_result (each_dispatcher [1..<length (networkers srv)] LoopInAnotherThread srv)
       (on_dispatcher 0 (\<lambda>d. Inr (Loop_enter d)))"

definition RunInAnotherThread :: "listening_server \<Rightarrow> listening_server result" where
  "RunInAnotherThread srv = each_dispatcher [0..<length (networkers srv)] LoopInAnotherThread srv"

definition Server_Stop :: "(lifecycle \<Rightarrow> lifecycle) \<Rightarrow> listening_server \<Rightarrow> listening_server result" where
  "Server_Stop meanwhile srv =
     bind_result (on_dispatcher 0 (Post False Close_acceptor) srv)
       (each_dispatcher [0..<length (networkers srv)] (Dispatcher_Stop meanwhile))"

text \<open>\<^verbatim>\<open>AsyncStop\<close> is called by the signal handler, on the first dispatcher.\<close>

definition Server_AsyncStop :: "listening_server \<Rightarrow> listening_server result" where
  "Server_AsyncStop srv =
     (let srv = CloseAcceptor srv in
      bind_result (on_dispatcher 0 (Dispatcher_AsyncStop True) srv)
        (each_dispatcher [1..<length (networkers srv)] (Dispatcher_AsyncStop False)))"

section \<open>Runs of the server\<close>

text \<open>
  A pending accept completes, a handler of a channel completes on one of the dispatchers, or
  the process gets a signal.
\<close>

datatype server_event = Accept_completed bool | Channel_completed nat nat bool bool

definition channel_handler :: "nat \<Rightarrow> bool \<Rightarrow> bool \<Rightarrow> lifecycle \<Rightarrow> lifecycle result" where
  "channel_handler i error w d =
     (if i < length (outstanding d) \<and> holds (outstanding d ! i) \<noteq> None then complete i error w d else Inr d)"

fun server_step :: "server_event \<Rightarrow> listening_server \<Rightarrow> listening_server result" where
  "server_step (Accept_completed error) srv = Accepted error srv"
| "server_step (Channel_completed k i error w) srv =
     (if k < length (networkers srv) then on_dispatcher k (channel_handler i error w) srv else Inr srv)"

fun server_run :: "server_event list \<Rightarrow> listening_server \<Rightarrow> listening_server result" where
  "server_run [] srv = Inr srv"
| "server_run (e # es) srv = bind_result (server_step e srv) (server_run es)"

text \<open>The outcomes of the accepts, and the dispatchers that serve the accepted connections.\<close>

definition accept_outcomes :: "server_event list \<Rightarrow> bool list" where
  "accept_outcomes es = List.map_filter (\<lambda>e. case e of Accept_completed error \<Rightarrow> Some error | _ \<Rightarrow> None) es"

fun in_turn :: "nat \<Rightarrow> nat \<Rightarrow> bool list \<Rightarrow> nat list" where
  "in_turn n k [] = []"
| "in_turn n k (error # os) = (if error then [] else [k mod n]) @ in_turn n (k + 1) os"

section \<open>Turns\<close>

text \<open>The server waits for its connection number \<open>k\<close>, and no dispatcher has more than \<open>b\<close> handlers.\<close>

definition server_ok :: "nat \<Rightarrow> i32 \<Rightarrow> nat \<Rightarrow> nat \<Rightarrow> listening_server \<Rightarrow> bool" where
  "server_ok n threshold k b srv \<longleftrightarrow> 0 < n \<and> length (networkers srv) = n \<and> acceptor_open srv
     \<and> accepting srv = Some (k mod n) \<and> i_selected srv = (k + 1) mod n
     \<and> (\<forall>d \<in> set (networkers srv). dispatcher_ok [] {#} d \<and> length (outstanding d) \<le> b
          \<and> num_channels_threshold d = threshold)"

text \<open>What an operation on a dispatcher has to keep.\<close>

definition keeps_ok :: "nat \<Rightarrow> (lifecycle \<Rightarrow> lifecycle result) \<Rightarrow> bool" where
  "keeps_ok m f \<longleftrightarrow> (\<forall>d. dispatcher_ok [] {#} d \<longrightarrow> room 8 {#} d \<longrightarrow>
     (\<exists>d'. f d = Inr d' \<and> dispatcher_ok [] {#} d' \<and> length (outstanding d') \<le> length (outstanding d) + m
       \<and> num_channels_threshold d' = num_channels_threshold d))"

lemma keeps_ok_mono: "keeps_ok m f \<Longrightarrow> m \<le> m' \<Longrightarrow> keeps_ok m' f"
  by (fastforce simp: keeps_ok_def)

lemma keeps_submit: "keeps_ok 1 (submit (Foreign i))"
  using submit_ok [where h = "Foreign i" and S = "[]" and S' = "[]"] threshold.submitted_R
  by (fastforce simp: keeps_ok_def room_def)

lemma remove1_Foreign_owners:
  "owners (d\<lparr>outstanding := remove1 (Foreign i) (outstanding d)\<rparr>) = owners d"
  "starting (d\<lparr>outstanding := remove1 (Foreign i) (outstanding d)\<rparr>) = starting d"
proof -
  have "List.map_filter f (remove1 (Foreign i) hs) = List.map_filter f hs" if "f (Foreign i) = None" for f :: "handler \<Rightarrow> nat option" and hs
    using that by (induction hs) (auto simp: List.map_filter_simps split: option.splits)
  then show "owners (d\<lparr>outstanding := remove1 (Foreign i) (outstanding d)\<rparr>) = owners d"
    "starting (d\<lparr>outstanding := remove1 (Foreign i) (outstanding d)\<rparr>) = starting d"
    by (simp_all add: owners_def starting_def)
qed

lemma keeps_forget: "keeps_ok 0 (forget_handler (Foreign i))"
  by (auto simp: keeps_ok_def forget_handler_def dispatcher_ok_def remove1_Foreign_owners counts_ok_def length_remove1
      dest: notin_set_remove1 [rotated])

lemma keeps_accept: "keeps_ok 2 (accept_channel in_loop)"
  using dispatch_event_ok [where e = "Accepted_connection in_loop"] dispatch_event_threshold [where e = "Accepted_connection in_loop"]
  by (fastforce simp: keeps_ok_def)

lemma keeps_channel_handler: "keeps_ok 1 (channel_handler i error w)"
proof -
  have "num_channels_threshold d' = num_channels_threshold d" if "complete i error w d = Inr d'" for d d' :: lifecycle
    using dispatch_event_threshold [of "Completed i error w" d d'] that by simp
  then show ?thesis
    using complete_ok [of _ i error w] by (fastforce simp: keeps_ok_def channel_handler_def room_def)
qed

lemma on_dispatcher_ok:
  assumes "\<forall>d \<in> set (networkers srv). dispatcher_ok [] {#} d \<and> length (outstanding d) \<le> b \<and> num_channels_threshold d = threshold"
    "keeps_ok m f" "i < length (networkers srv)" "b < 2 ^ 30"
  shows "\<exists>ds. on_dispatcher i f srv = Inr (srv\<lparr>networkers := ds\<rparr>) \<and> length ds = length (networkers srv)
    \<and> (\<forall>d \<in> set ds. dispatcher_ok [] {#} d \<and> length (outstanding d) \<le> b + m \<and> num_channels_threshold d = threshold)"
proof -
  have d: "dispatcher_ok [] {#} (networkers srv ! i)" "length (outstanding (networkers srv ! i)) \<le> b"
    "num_channels_threshold (networkers srv ! i) = threshold"
    using assms(1,3) by auto
  then obtain d' where d': "f (networkers srv ! i) = Inr d'" "dispatcher_ok [] {#} d'"
    "length (outstanding d') \<le> length (outstanding (networkers srv ! i)) + m" "num_channels_threshold d' = threshold"
    using assms(2,4) unfolding keeps_ok_def by (force simp: room_def)
  have "\<forall>x \<in> set ((networkers srv)[i := d']). dispatcher_ok [] {#} x \<and> length (outstanding x) \<le> b + m
      \<and> num_channels_threshold x = threshold"
    using assms(1) d d' set_update_subset_insert [of "networkers srv" i d'] by fastforce
  then show ?thesis using assms(3) d' by (intro exI [of _ "(networkers srv)[i := d']"]) (simp add: on_dispatcher_def)
qed

lemma StartToAccept_ok:
  assumes "0 < n" "length (networkers srv) = n" "acceptor_open srv" "i_selected srv = k mod n" "b < 2 ^ 30"
    "\<forall>d \<in> set (networkers srv). dispatcher_ok [] {#} d \<and> length (outstanding d) \<le> b \<and> num_channels_threshold d = threshold"
  shows "\<exists>srv'. StartToAccept srv = Inr srv' \<and> server_ok n threshold k (b + 1) srv' \<and> assigned srv' = assigned srv"
proof -
  let ?srv = "srv\<lparr>i_selected := (i_selected srv + 1) mod n, accepting := Some (k mod n)\<rparr>"
  obtain ds where "on_dispatcher 0 (submit Accept_wait) ?srv = Inr (?srv\<lparr>networkers := ds\<rparr>)"
    "length ds = n" "\<forall>d \<in> set ds. dispatcher_ok [] {#} d \<and> length (outstanding d) \<le> b + 1 \<and> num_channels_threshold d = threshold"
    using on_dispatcher_ok [of ?srv b threshold 1 _ 0, OF _ keeps_submit [of 1]] assms by auto
  then show ?thesis
    using assms by (auto simp: StartToAccept_def GetIdlestDispatcher_def server_ok_def mod_Suc_eq)
qed

lemma Accepted_ok:
  assumes "server_ok n threshold k b srv" "b < 2 ^ 29"
  shows "\<exists>srv'. Accepted error srv = Inr srv' \<and> server_ok n threshold (k + 1) (b + 3) srv'
    \<and> assigned srv' = assigned srv @ (if error then [] else [k mod n])"
proof -
  let ?srv = "srv\<lparr>accepting := None\<rparr>"
  obtain ds where ds: "on_dispatcher 0 (forget_handler Accept_wait) ?srv = Inr (?srv\<lparr>networkers := ds\<rparr>)" "length ds = n"
    "\<forall>d \<in> set ds. dispatcher_ok [] {#} d \<and> length (outstanding d) \<le> b \<and> num_channels_threshold d = threshold"
    using on_dispatcher_ok [of ?srv b threshold 0 _ 0, OF _ keeps_forget [of 1]] assms by (auto simp: server_ok_def)
  let ?srv1 = "?srv\<lparr>networkers := ds\<rparr>"
  obtain ds' where ds': "on_dispatcher (k mod n) (accept_channel (k mod n = 0)) ?srv1 = Inr (?srv1\<lparr>networkers := ds'\<rparr>)"
    "length ds' = n"
    "\<forall>d \<in> set ds'. dispatcher_ok [] {#} d \<and> length (outstanding d) \<le> b + 2 \<and> num_channels_threshold d = threshold"
    using on_dispatcher_ok [of ?srv1 b threshold 2 _ "k mod n", OF _ keeps_accept [of "k mod n = 0"]] ds assms by (auto simp: server_ok_def)
  show ?thesis
  proof (cases error)
    case True
    obtain srv' where "StartToAccept ?srv1 = Inr srv'" "server_ok n threshold (k + 1) (b + 1) srv'" "assigned srv' = assigned srv"
      using StartToAccept_ok [of n ?srv1 "k + 1" b threshold] ds assms by (auto simp: server_ok_def)
    moreover from this have "server_ok n threshold (k + 1) (b + 3) srv'" by (fastforce simp: server_ok_def)
    ultimately show ?thesis using ds assms True by (auto simp: Accepted_def server_ok_def)
  next
    case False
    let ?srv2 = "?srv1\<lparr>networkers := ds', assigned := assigned srv @ [k mod n]\<rparr>"
    obtain srv' where "StartToAccept ?srv2 = Inr srv'" "server_ok n threshold (k + 1) (b + 2 + 1) srv'"
      "assigned srv' = assigned srv @ [k mod n]"
      using StartToAccept_ok [of n ?srv2 "k + 1" "b + 2" threshold] ds' assms by (auto simp: server_ok_def)
    then show ?thesis using ds ds' assms False by (auto simp: Accepted_def server_ok_def add.commute)
  qed
qed

lemma server_run_ok:
  "server_ok n threshold k b srv \<Longrightarrow> b + 3 * length es < 2 ^ 29 \<Longrightarrow>
     \<exists>srv'. server_run es srv = Inr srv' \<and> assigned srv' = assigned srv @ in_turn n k (accept_outcomes es)
       \<and> server_ok n threshold (k + length (accept_outcomes es)) (b + 3 * length es) srv'"
proof (induction es arbitrary: k b srv)
  case (Cons e es)
  show ?case
  proof (cases e)
    case (Accept_completed error)
    obtain srv1 where srv1: "Accepted error srv = Inr srv1" "server_ok n threshold (k + 1) (b + 3) srv1"
      "assigned srv1 = assigned srv @ (if error then [] else [k mod n])"
      using Accepted_ok [OF Cons.prems(1), of error] Cons.prems(2) by auto
    with Cons.IH [OF srv1(2)] Cons.prems(2) Accept_completed show ?thesis
      by (auto simp: accept_outcomes_def List.map_filter_simps algebra_simps)
  next
    case (Channel_completed j i error w)
    obtain srv1 where "server_step e srv = Inr srv1" "server_ok n threshold k (b + 3) srv1" "assigned srv1 = assigned srv"
      using on_dispatcher_ok [of srv b threshold 3 _ j, OF _ keeps_ok_mono [OF keeps_channel_handler]] Cons.prems Channel_completed
      by (cases "j < n") (fastforce simp: server_ok_def)+
    then show ?thesis using Cons.IH [of k "b + 3" srv1] Cons.prems(2) Channel_completed
      by (simp add: accept_outcomes_def List.map_filter_simps algebra_simps)
  qed
qed (simp add: accept_outcomes_def List.map_filter_simps)

lemma new_dispatchers_ok:
  "0 \<le> sint threshold \<Longrightarrow> new_dispatchers n threshold = Inr (replicate n (life_start threshold []))"
  by (induction n) (simp_all add: dispatcher_new_def)

lemma life_start_ok: "dispatcher_ok [] {#} (life_start threshold [])"
  by (simp add: life_start_def dispatcher_ok_def counts_ok_def counted_def owners_def starting_def List.map_filter_simps)

lemma Server_Init_ok:
  assumes "0 < n" "networkers srv = replicate n (life_start threshold [])" "i_selected srv = 0"
    "Server_Init env srv = Inr (True, srv')"
  shows "server_ok n threshold 0 2 srv' \<and> assigned srv' = assigned srv"
proof -
  obtain ds where ds: "on_dispatcher 0 (submit Signal_wait) srv = Inr (srv\<lparr>networkers := ds\<rparr>)" "length ds = n"
    "\<forall>d \<in> set ds. dispatcher_ok [] {#} d \<and> length (outstanding d) \<le> 1 \<and> num_channels_threshold d = threshold"
    using on_dispatcher_ok [of srv 0 threshold 1 _ 0, OF _ keeps_submit [of 0]] assms life_start_ok [of threshold]
    by (auto simp: life_start_def)
  let ?srv = "srv\<lparr>networkers := ds, acceptor_open := True\<rparr>"
  have "StartToAccept ?srv = Inr srv'"
    using assms(4) ds(1) by (auto simp: Server_Init_def result_simps split: if_splits listen_outcome.splits)
  then have "server_ok n threshold 0 (1 + 1) srv' \<and> assigned srv' = assigned srv"
    using StartToAccept_ok [of n ?srv 0 1 threshold] ds assms by auto
  then show ?thesis by (simp only: one_add_one)
qed

lemma CreateRPCServer_shape:
  assumes "CreateRPCServer env ip port num_threads queue threshold = Inr (Some srv)"
  obtains srv0 where "0 < sint num_threads" "0 \<le> sint threshold" "i_selected srv0 = 0" "assigned srv0 = []"
    "networkers srv0 = replicate (nat (sint num_threads)) (life_start threshold [])"
    "Server_Init env srv0 = Inr (True, srv)"
proof -
  obtain srv0 where srv0: "RPCServerImpl_new ip port num_threads queue threshold = Inr srv0"
    "Server_Init env srv0 = Inr (True, srv)"
    using assms by (auto simp: CreateRPCServer_def result_simps split: if_splits)
  then have n: "0 < sint num_threads" by (auto simp: RPCServerImpl_new_def CHECK_eq_Inr)
  then have "new_dispatchers (Suc (nat (sint num_threads) - 1)) threshold \<noteq> Inl Check_failed"
    using srv0(1) by (auto simp: RPCServerImpl_new_def)
  then have "0 \<le> sint threshold" by (auto simp: dispatcher_new_def CHECK_def split: if_splits)
  with n srv0 show thesis by (intro that [of srv0]) (auto simp: RPCServerImpl_new_def new_dispatchers_ok)
qed

lemma first_dispatcher:
  assumes "networkers srv = replicate n (life_start threshold [])" "Server_Init env srv = Inr (True, srv')"
  shows "networkers srv' ! 0 = life_start threshold [Signal_wait, Accept_wait]"
proof -
  have "0 < n" using assms by (cases n) (auto simp: Server_Init_def on_dispatcher_def)
  then show ?thesis using assms
    by (auto simp: Server_Init_def StartToAccept_def GetIdlestDispatcher_def on_dispatcher_def submit_def result_simps
        life_start_def split: if_splits listen_outcome.splits)
qed

section \<open>Properties\<close>


definition sample_listener :: listener where
  "sample_listener = \<lparr>address_parses = (\<lambda>ip. True), listen_at = (\<lambda>ip port. Listening)\<rparr>"

lemma sample_server: "\<exists>srv. CreateRPCServer sample_listener [] 5959 2 0 10 = Inr (Some srv)"
  by (simp add: CreateRPCServer_def RPCServerImpl_new_def new_dispatchers_ok Server_Init_def StartToAccept_def
      GetIdlestDispatcher_def on_dispatcher_def submit_def sample_listener_def dispatcher_new_def numeral_2_eq_2)


text \<open>
  C29: \<^verbatim>\<open>RPCServer::Stop\<close> does not return on its own: the wait for \<^verbatim>\<open>SIGINT\<close> and \<^verbatim>\<open>SIGTERM\<close> that
  \<^verbatim>\<open>Init\<close> starts stays outstanding on the first dispatcher, so that its loop, once it runs, goes
  on until a signal arrives.
\<close>

theorem server_Stop_waits_for_signal:
  assumes "CreateRPCServer env ip port num_threads queue threshold = Inr (Some srv)"
    and "labelled_run lifecycle_step (networkers srv ! 0) tr s" "Signal_wait \<notin> set tr" "loop_at s = In_run"
    and "labelled_run lifecycle_step s tr' s'" "Signal_wait \<notin> set tr'"
  shows "loop_at s' = In_run \<and> stop_at s' \<noteq> Stop_returned"
proof -
  obtain srv0 where "networkers srv0 = replicate (nat (sint num_threads)) (life_start threshold [])"
    "Server_Init env srv0 = Inr (True, srv)"
    using CreateRPCServer_shape [OF assms(1)] by metis
  then have first: "networkers srv ! 0 = life_start threshold [Signal_wait, Accept_wait]" by (rule first_dispatcher)
  have "Signal_wait \<in> set (outstanding s)"
    using pending_handler_run [OF assms(2,3)] by (simp add: first life_start_def)
  then have "loop_at s' = In_run" using pending_handler_run [OF assms(5,6)] assms(4) by simp
  moreover have "life_inv s'"
    using life_run_inv [OF assms(5)] life_run_inv [OF assms(2)] by (simp add: first life_start_inv)
  ultimately show ?thesis by (auto simp: life_inv_def)
qed

theorem server_Stop_waits_for_signal_witness:
  "\<exists>srv. CreateRPCServer sample_listener [] 5959 2 0 1 = Inr (Some srv)
    \<and> labelled_run lifecycle_step (networkers srv ! 0) [] (running [Signal_wait, Accept_wait])
    \<and> stop_at (stopping [Signal_wait, Accept_wait]) \<noteq> Stop_returned"
proof -
  have "\<exists>srv. CreateRPCServer sample_listener [] 5959 2 0 1 = Inr (Some srv)
      \<and> networkers srv ! 0 = life_start 1 [Signal_wait, Accept_wait]"
    by (simp add: CreateRPCServer_def RPCServerImpl_new_def Server_Init_def StartToAccept_def life_start_def
      GetIdlestDispatcher_def on_dispatcher_def submit_def sample_listener_def dispatcher_new_def numeral_2_eq_2)
  then obtain srv where srv: "CreateRPCServer sample_listener [] 5959 2 0 1 = Inr (Some srv)"
    "networkers srv ! 0 = life_start 1 [Signal_wait, Accept_wait]" by blast
  then have run: "labelled_run lifecycle_step (networkers srv ! 0) [] (running [Signal_wait, Accept_wait])"
    using running_run by simp
  show ?thesis
    using server_Stop_waits_for_signal [OF srv(1) run _ _ stopping_run] run srv(1)
    by (auto simp: running_def life_start_def)
qed

end
