(* ===== verification/Rpc_Client.thy ===== *)
theory Rpc_Client
  imports Network_Dispatcher
begin

text \<open>
  \<^verbatim>\<open>RPCClientImpl\<close> (\<^verbatim>\<open>rpc/detail/rpc_client_impl.h\<close> and \<^verbatim>\<open>.cc\<close>): how a client connects, issues
  calls and is destroyed. What happens to an issued call is the matter of \<^verbatim>\<open>Client_Channel\<close>.

  The client owns a dispatcher, with no room for pooled channels, and a counted pointer to its
  one channel. Parsing an address is a parameter, and so is the outcome of each attempt to connect.
  A timer that is destroyed while it waits cancels its wait.
\<close>

section \<open>State\<close>

record 'call rpc_client =
  rc_dispatcher :: lifecycle
  auto_reconnect :: bool
  rc_timeout :: u32
  rc_server :: "(string \<times> 16 word) option"
  connection :: "nat option"
  socket_open :: bool
  posted_calls :: "'call list"

datatype timer_outcome = Timer_expired | Timer_cancelled | Timer_failed

section \<open>Operations\<close>

definition RPCClientImpl_new :: "bool \<Rightarrow> 'call rpc_client result" where
  "RPCClientImpl_new reconnect =
     Inr \<lparr>rc_dispatcher = life_start 0 [], auto_reconnect = reconnect, rc_timeout = 0, rc_server = None,
       connection = None, socket_open = False, posted_calls = []\<rparr>"

definition Client_CloseSocket :: "'call rpc_client \<Rightarrow> 'call rpc_client" where
  "Client_CloseSocket c = c\<lparr>socket_open := False\<rparr>"

definition ExpireToConnect :: "timer_outcome \<Rightarrow> 'call rpc_client \<Rightarrow> 'call rpc_client" where
  "ExpireToConnect r c = (if r = Timer_cancelled then c else Client_CloseSocket c)"

text \<open>The timer is a local variable: on return its wait is cancelled.\<close>

definition SetupConnectingTimer :: "timer_outcome list \<Rightarrow> timer_outcome list" where
  "SetupConnectingTimer waits = waits @ [Timer_cancelled]"

text \<open>The handler of a completed attempt; the timer is given by a plain pointer.\<close>

definition Client_Connected :: "unit pointer \<Rightarrow> bool \<Rightarrow> 'call rpc_client \<Rightarrow> 'call rpc_client result" where
  "Client_Connected expiring_timer error c =
     (let c = (if error then c
               else case new_channel (rc_dispatcher c) of (a, d) \<Rightarrow> c\<lparr>rc_dispatcher := d, connection := Some a\<rparr>) in
      if expiring_timer = Null then Inr c else bind_result (deref expiring_timer) (\<lambda>_. Inr c))"

text \<open>
  One round of the loop in \<^verbatim>\<open>Connect\<close>. With \<^verbatim>\<open>auto_reconnect_\<close> two timers are started whose scope ends
  before the attempt does: both waits are cancelled, and the pointer that the handler gets is left
  dangling. \<^verbatim>\<open>RunOnce\<close> calls the handlers of the waits and of the attempt, unless the dispatcher was stopped.
\<close>

definition connect_round :: "bool \<Rightarrow> 'call rpc_client \<Rightarrow> 'call rpc_client result" where
  "connect_round error c =
     (let (timer, waits) = (if auto_reconnect c then (Freed, SetupConnectingTimer [Timer_cancelled]) else (Null, [])) in
      if need_stop (rc_dispatcher c) then Inr c
      else Client_Connected timer error (fold ExpireToConnect waits c))"

text \<open>
  The loop of \<^verbatim>\<open>Connect\<close>, for at most as many rounds as \<open>outcomes\<close> has; \<open>None\<close> when these do not
  end it.
\<close>

fun connect_loop :: "bool list \<Rightarrow> 'call rpc_client \<Rightarrow> (bool \<times> 'call rpc_client) result option" where
  "connect_loop [] c = None"
| "connect_loop (error # outcomes) c =
     (case connect_round error c of
        Inl f \<Rightarrow> Some (Inl f)
      | Inr c \<Rightarrow>
        (case connection c of
           Some a \<Rightarrow> Some (bind_result (Dispatcher_StartToRead a (rc_dispatcher c)) (\<lambda>d.
             bind_result (LoopInAnotherThread d) (\<lambda>d. Inr (True, c\<lparr>rc_dispatcher := d\<rparr>))))
         | None \<Rightarrow> if \<not> auto_reconnect c then Some (Inr (False, c)) else connect_loop outcomes c))"

definition Client_Connect ::
  "(string \<Rightarrow> bool) \<Rightarrow> bool list \<Rightarrow> string \<Rightarrow> u32 \<Rightarrow> u32 \<Rightarrow> 'call rpc_client \<Rightarrow> (bool \<times> 'call rpc_client) result option" where
  "Client_Connect parses outcomes server port timeout c =
     (if connection c \<noteq> None then Some (Inr (False, c))
      else let c = c\<lparr>rc_timeout := timeout\<rparr> in
        if \<not> parses server then Some (Inr (False, c))
        else connect_loop outcomes (c\<lparr>rc_server := Some (server, ucast port), socket_open := True\<rparr>))"

text \<open>
  The destructor; \<open>meanwhile\<close> is what the loop thread does while \<^verbatim>\<open>Stop\<close> waits for it. Afterwards
  the member \<^verbatim>\<open>connection_\<close> gives its reference back.
\<close>

definition RPCClientImpl_delete :: "(lifecycle \<Rightarrow> lifecycle) \<Rightarrow> 'call rpc_client \<Rightarrow> lifecycle result" where
  "RPCClientImpl_delete meanwhile c =
     bind_result (TerminateChannel False (connection c) (rc_dispatcher c)) (\<lambda>d.
     bind_result (Dispatcher_Stop meanwhile d) (\<lambda>d.
     case connection c of None \<Rightarrow> Inr d | Some a \<Rightarrow> intrusive_ptr_release a d))"

text \<open>A dispatcher without a loop thread stays as it is.\<close>

definition CreateRPCClient ::
  "(string \<Rightarrow> bool) \<Rightarrow> bool list \<Rightarrow> (lifecycle \<Rightarrow> lifecycle) \<Rightarrow> string \<Rightarrow> u32 \<Rightarrow> u32 \<Rightarrow> bool \<Rightarrow>
     'call rpc_client option result option" where
  "CreateRPCClient parses outcomes loop server port timeout reconnect =
     (case RPCClientImpl_new reconnect of
        Inl f \<Rightarrow> Some (Inl f)
      | Inr c \<Rightarrow>
        (case Client_Connect parses outcomes server port timeout c of
           None \<Rightarrow> None
         | Some (Inl f) \<Rightarrow> Some (Inl f)
         | Some (Inr (connected, c)) \<Rightarrow>
             Some (if connected then Inr (Some c)
               else bind_result (RPCClientImpl_delete (if loop_thread (rc_dispatcher c) then loop else (\<lambda>d. d)) c)
                 (\<lambda>_. Inr None))))"

text \<open>A call is posted to the loop, which issues it on the channel (\<^verbatim>\<open>Client_SendInLoop\<close>).\<close>

definition Client_Send :: "'call \<Rightarrow> 'call rpc_client \<Rightarrow> 'call rpc_client" where
  "Client_Send call c = c\<lparr>posted_calls := posted_calls c @ [call]\<rparr>"

definition Client_CallMethod :: "'call \<Rightarrow> 'call rpc_client \<Rightarrow> 'call rpc_client result" where
  "Client_CallMethod call c = CHECK (connection c \<noteq> None) (Inr (Client_Send call c))"

section \<open>Lemmas\<close>

text \<open>A client whose connection stands: the channel is held by the client and by its pending read.\<close>

definition connected_client :: "string \<Rightarrow> u32 \<Rightarrow> u32 \<Rightarrow> 'call rpc_client" where
  "connected_client server port timeout =
     \<lparr>rc_dispatcher = (life_start 0 [])\<lparr>channels := [0 \<mapsto> \<lparr>ref_count = 2, ch_terminated = False, ch_closed_by_peer = False\<rparr>],
        next_channel := 1, loop_thread := True, outstanding := [Read_some 0]\<rparr>,
      auto_reconnect = False, rc_timeout = timeout, rc_server = Some (server, ucast port),
      connection = Some 0, socket_open = True, posted_calls = []\<rparr>"

lemmas client_eval = RPCClientImpl_new_def Client_Connect_def connect_round_def Client_Connected_def new_channel_def
  set_channel_def life_start_def RefCount_new_def Dispatcher_StartToRead_def submit_def intrusive_ptr_add_ref_def
  channel_at_def RefCount_Ref_def LoopInAnotherThread_def

lemma connect_succeeds:
  assumes "parses server"
  shows "\<exists>c. RPCClientImpl_new False = Inr c
    \<and> Client_Connect parses (False # outcomes) server port timeout c = Some (Inr (True, connected_client server port timeout))"
  using assms by (simp add: client_eval connected_client_def)

lemma unconnected_delete_blocks:
  "connection c = None \<Longrightarrow> stopped (rc_dispatcher c) = 0 \<Longrightarrow> RPCClientImpl_delete (\<lambda>d. d) c = Inl Blocked_forever"
  by (simp add: RPCClientImpl_delete_def TerminateChannel_def Post_def submit_def Dispatcher_Stop_def Stop_post_def
      Stop_flag_def Stop_reset_def Stop_wait_def Semaphore_Wait_def)

text \<open>
  The loop thread of a client that is destroyed: it terminates the channel, finds no pooled
  channel to close, sees the pending read fail and leaves the loop.
\<close>

definition last_handlers :: "lifecycle \<Rightarrow> lifecycle result" where
  "last_handlers d =
     bind_result (complete 1 False False d) (\<lambda>d.
     bind_result (complete 1 False False d) (\<lambda>d.
     bind_result (complete 0 True False d) loop_next))"

definition last_turn :: "lifecycle \<Rightarrow> lifecycle" where
  "last_turn d = (case last_handlers d of Inl f \<Rightarrow> d | Inr d \<Rightarrow> d)"

definition in_loop :: "'call rpc_client \<Rightarrow> 'call rpc_client" where
  "in_loop c = c\<lparr>rc_dispatcher := (rc_dispatcher c)\<lparr>keep_working := True, loop_at := In_run\<rparr>\<rparr>"

section \<open>Properties\<close>

text \<open>
  C28: What \<^verbatim>\<open>CreateRPCClient\<close> does, for every outcome of the attempts to connect. It returns a
  client only without \<^verbatim>\<open>auto_reconnect\<close>, with a valid address and if the first attempt succeeds; the
  client is then connected, reads, and its loop runs. With \<^verbatim>\<open>auto_reconnect\<close> the handler of the first
  attempt, successful or not, cancels a timer that was already destroyed. On failure the destructor waits for a
  loop that was never started: no call returns \<^verbatim>\<open>NULL\<close>. One round of the loop always ends it.
\<close>

theorem CreateRPCClient_outcome:
  "CreateRPCClient parses (error # outcomes) loop server port timeout reconnect =
     Some (if \<not> parses server then Inl Blocked_forever
           else if reconnect then Inl Dangling_pointer
           else if error then Inl Blocked_forever
           else Inr (Some (connected_client server port timeout)))"
proof -
  have "RPCClientImpl_delete (\<lambda>d. d) c = Inl Blocked_forever"
    if "connection c = None" "rc_dispatcher c = life_start 0 []" for c :: "'a rpc_client"
    using that by (intro unconnected_delete_blocks) (simp_all add: life_start_def Semaphore_new_def)
  then show ?thesis
    by (simp add: CreateRPCClient_def RPCClientImpl_new_def Client_Connect_def connect_round_def Client_Connected_def
        SetupConnectingTimer_def ExpireToConnect_def)
      (simp add: client_eval connected_client_def)
qed


end
