(* ===== verification/Rpc_Util.thy ===== *)
theory Rpc_Util
  imports Rpc_Events Std_Map
begin

text \<open>
  The helpers of \<^verbatim>\<open>rpc/detail/util.h\<close> (sleeping, integers as text, clearing containers of pointers)
  and the closures of \<^verbatim>\<open>rpc/callback.h\<close>.
\<close>

section \<open>Sleeping\<close>

text \<open>
  \<^verbatim>\<open>sleep\<close> returns the seconds that were left when a signal handler interrupted it. The argument
  gives, for each call, after how many seconds that happens; the result is the time slept, or
  \<open>None\<close> when the calls listed do not end the loop.
\<close>

fun sleep_loop :: "nat list \<Rightarrow> u32 \<Rightarrow> nat option" where
  "sleep_loop calls left =
     (if left = 0 then Some 0
      else case calls of
          [] \<Rightarrow> None
        | k # calls \<Rightarrow>
            let slept = min k (unat left) in
            map_option ((+) slept) (sleep_loop calls (left - of_nat slept)))"

declare sleep_loop.simps [simp del]

definition SleepInSeconds :: "nat list \<Rightarrow> i32 \<Rightarrow> nat option" where
  "SleepInSeconds calls seconds = sleep_loop calls seconds"

section \<open>Integers as text\<close>

text \<open>
  The template is instantiated at signed and unsigned types of any width; negation is
  \<^verbatim>\<open>~(integer - 1)\<close>, computed in that width. The loop works on positive numbers only.
\<close>

definition digit_char :: "nat \<Rightarrow> char" where
  "digit_char d = (if d < 10 then char_of (48 + d) else char_of (65 + d - 10))"

function digits_loop :: "nat \<Rightarrow> nat \<Rightarrow> string \<Rightarrow> string" where
  "digits_loop base n acc =
     (if n = 0 \<or> base < 2 then acc else digits_loop base (n div base) (acc @ [digit_char (n mod base)]))"
  by pat_completeness auto
termination by (relation "measure (\<lambda>(base, n, acc). n)") auto

declare digits_loop.simps [simp del]

definition integer_value :: "bool \<Rightarrow> 'a::len word \<Rightarrow> int" where
  "integer_value is_signed v = (if is_signed then sint v else uint v)"

definition ConvertToStringFrom :: "bool \<Rightarrow> 'a::len word \<Rightarrow> nat \<Rightarrow> string result" where
  "ConvertToStringFrom is_signed v number_system =
     (if v = 0 then Inr ''0''
      else CHECK (number_system \<in> {2, 8, 10, 16})
        (let minus = (integer_value is_signed v < 0);
             v = (if minus then NOT (v - 1) else v);
             digits = digits_loop number_system (nat (integer_value is_signed v)) []
         in Inr (rev (if minus then digits @ ''-'' else digits))))"

text \<open>What such a text denotes.\<close>

definition char_digit :: "char \<Rightarrow> nat" where
  "char_digit c = (let n = of_char c in if n < 58 then n - 48 else n - 55)"

definition digits_value :: "nat \<Rightarrow> string \<Rightarrow> nat" where
  "digits_value base ds = foldl (\<lambda>n c. n * base + char_digit c) 0 ds"

definition text_value :: "nat \<Rightarrow> string \<Rightarrow> int" where
  "text_value base s =
     (case s of c # ds \<Rightarrow> if c = CHR ''-'' then - int (digits_value base ds) else int (digits_value base s) | [] \<Rightarrow> 0)"

section \<open>Clearing containers\<close>

text \<open>The objects are those of a heap; deleting one that is gone is undefined.\<close>

fun delete_all :: "nat list \<Rightarrow> (nat \<rightharpoonup> 'o) \<Rightarrow> (nat \<rightharpoonup> 'o) result" where
  "delete_all [] h = Inr h"
| "delete_all (a # as) h = (if h a = None then Inl Dangling_pointer else delete_all as (h(a := None)))"

definition ClearHeapElemsInSequentialContainer ::
  "nat list \<Rightarrow> (nat \<rightharpoonup> 'o) \<Rightarrow> (nat list \<times> (nat \<rightharpoonup> 'o)) result" where
  "ClearHeapElemsInSequentialContainer container h =
     (if container = [] then Inr (container, h) else bind_result (delete_all container h) (\<lambda>h. Inr ([], h)))"

definition ClearHeapElemsInAssociativeContainer ::
  "('k, nat) std_map \<Rightarrow> (nat \<rightharpoonup> 'o) \<Rightarrow> (('k, nat) std_map \<times> (nat \<rightharpoonup> 'o)) result" where
  "ClearHeapElemsInAssociativeContainer container h =
     (if container = [] then Inr (container, h)
      else bind_result (delete_all (map snd container) h) (\<lambda>h. Inr ([], h)))"

section \<open>Closures\<close>

text \<open>
  A closure runs a function of the user's, on a state of the user's that does not contain the
  closures themselves.
\<close>

record 'st EasyCallback =
  ec_cb :: "'st \<Rightarrow> 'st result"
  ec_self_deleting :: bool

record 'st closure_world =
  closures :: "nat \<rightharpoonup> 'st EasyCallback"
  next_closure :: nat
  user_state :: 'st

definition EasyCallback_new :: "('st \<Rightarrow> 'st result) \<Rightarrow> bool \<Rightarrow> 'st closure_world \<Rightarrow> nat \<times> 'st closure_world" where
  "EasyCallback_new cb self_deleting w =
     (next_closure w, w\<lparr>closures := (closures w)(next_closure w \<mapsto> \<lparr>ec_cb = cb, ec_self_deleting = self_deleting\<rparr>),
        next_closure := next_closure w + 1\<rparr>)"

definition EasyCallback_Run :: "nat \<Rightarrow> 'st closure_world \<Rightarrow> 'st closure_world result" where
  "EasyCallback_Run a w =
     (case closures w a of
        None \<Rightarrow> Inl Dangling_pointer
      | Some c \<Rightarrow>
          bind_result (ec_cb c (user_state w)) (\<lambda>st.
          Inr (w\<lparr>user_state := st, closures := (if ec_self_deleting c then (closures w)(a := None) else closures w)\<rparr>)))"

definition NewCallback :: "('st \<Rightarrow> 'st result) \<Rightarrow> 'st closure_world \<Rightarrow> nat \<times> 'st closure_world" where
  "NewCallback cb w = EasyCallback_new cb True w"

definition NewPermanentCallback :: "('st \<Rightarrow> 'st result) \<Rightarrow> 'st closure_world \<Rightarrow> nat \<times> 'st closure_world" where
  "NewPermanentCallback cb w = EasyCallback_new cb False w"

fun run_times :: "nat \<Rightarrow> nat \<Rightarrow> 'st closure_world \<Rightarrow> 'st closure_world result" where
  "run_times 0 a w = Inr w"
| "run_times (Suc n) a w = bind_result (EasyCallback_Run a w) (run_times n a)"

subsection \<open>CancellableWait\<close>

text \<open>A wait that owns the messages of a call, so that it may be given up before the answer comes.\<close>

record 'm cancellable_wait =
  cw_request :: 'm
  cw_response :: 'm
  cw_event :: sync_system

definition CancellableWait_new :: "'m \<Rightarrow> 'm \<Rightarrow> 'm cancellable_wait" where
  "CancellableWait_new request response =
     \<lparr>cw_request = request, cw_response = response, cw_event = SyncEvent_new False\<rparr>"

definition CancellableWait_TimedWait :: "nat \<Rightarrow> 'm cancellable_wait \<Rightarrow> 'm cancellable_wait result" where
  "CancellableWait_TimedWait t w = bind_result (SyncEvent_TimedWait t (cw_event w)) (\<lambda>e. Inr (w\<lparr>cw_event := e\<rparr>))"

definition CancellableWait_Done :: "'m cancellable_wait \<Rightarrow> 'm cancellable_wait" where
  "CancellableWait_Done w = w\<lparr>cw_event := SyncEvent_Notify (cw_event w)\<rparr>"

section \<open>Lemmas\<close>

lemma char_digit_digit_char: "d < 16 \<Longrightarrow> char_digit (digit_char d) = d"
  by (simp add: char_digit_def digit_char_def Let_def)

fun digit_list :: "nat \<Rightarrow> nat \<Rightarrow> nat list" where
  "digit_list base n = (if n = 0 \<or> base < 2 then [] else digit_list base (n div base) @ [n mod base])"

declare digit_list.simps [simp del]

lemma digits_loop_0: "digits_loop base 0 acc = acc"
  by (subst digits_loop.simps) simp

lemma digits_loop_list: "rev (digits_loop base n acc) = map digit_char (digit_list base n) @ rev acc"
proof (induction base n acc rule: digits_loop.induct)
  case (1 base n acc)
  then show ?case by (subst digits_loop.simps, subst digit_list.simps) auto
qed

lemma digit_list_value:
  "base \<le> 16 \<Longrightarrow> 2 \<le> base \<Longrightarrow> digits_value base (map digit_char (digit_list base n)) = n"
proof (induction base n rule: digit_list.induct)
  case (1 base n)
  then show ?case
    by (subst digit_list.simps) (auto simp: digits_value_def char_digit_digit_char less_le_trans [OF mod_less_divisor])
qed

lemma digit_list_bound: "d \<in> set (digit_list base n) \<Longrightarrow> d < base"
proof (induction base n rule: digit_list.induct)
  case (1 base n)
  then show ?case by (subst (asm) (2) digit_list.simps) (auto split: if_splits)
qed

lemma digit_char_not_minus: "d < 16 \<Longrightarrow> digit_char d \<noteq> CHR ''-''"
proof
  assume "d < 16" "digit_char d = CHR ''-''"
  then have "of_char (digit_char d) = (45 :: nat)" by simp
  with \<open>d < 16\<close> show False by (simp add: digit_char_def split: if_splits)
qed

lemma text_value_digits:
  assumes "base \<in> {2, 8, 10, 16}"
  shows "text_value base (map digit_char (digit_list base n)) = int n"
    "text_value base (CHR ''-'' # map digit_char (digit_list base n)) = - int n"
proof -
  have b: "base \<le> 16" "2 \<le> base" using assms by auto
  have "c \<noteq> CHR ''-''" if "map digit_char (digit_list base n) = c # ds" for c ds
  proof -
    from that obtain d where "d \<in> set (digit_list base n)" "c = digit_char d" by (cases "digit_list base n") auto
    then show ?thesis using digit_list_bound [of d base n] b digit_char_not_minus [of d] by simp
  qed
  then show "text_value base (map digit_char (digit_list base n)) = int n"
    using digit_list_value [OF b, of n]
    by (cases "map digit_char (digit_list base n)") (auto simp: text_value_def digits_value_def simp del: map_eq_Cons_conv)
  show "text_value base (CHR ''-'' # map digit_char (digit_list base n)) = - int n"
    using digit_list_value [OF b, of n] by (simp add: text_value_def)
qed

lemma negated_value:
  fixes v :: "'a::len word"
  assumes "sint v < 0" "sint v \<noteq> - (2 ^ (LENGTH('a) - 1))"
  shows "sint (NOT (v - 1)) = - sint v"
proof -
  have "NOT (v - 1) = - v" by (simp add: not_eq_complement)
  moreover have "signed_take_bit (LENGTH('a) - 1) (- sint v) = - sint v"
    using assms sint_ge [of v] by (simp add: signed_take_bit_int_eq_self_iff)
  ultimately show ?thesis by (simp add: sint_word_minus)
qed

text \<open>The thread sleeps exactly the time asked for, however often it is interrupted.\<close>

lemma sleep_loop_exact: "sleep_loop calls left = Some n \<Longrightarrow> n = unat left"
proof (induction calls left arbitrary: n rule: sleep_loop.induct)
  case (1 calls left)
  show ?case
  proof (cases "left = 0")
    case False
    obtain k ks where calls: "calls = k # ks" using "1.prems" False by (cases calls) (simp_all add: sleep_loop.simps)
    let ?s = "min k (unat left)"
    obtain m where m: "sleep_loop ks (left - of_nat ?s) = Some m" "n = ?s + m"
      using "1.prems" False unfolding calls by (subst (asm) sleep_loop.simps) (auto simp: Let_def)
    have "m = unat (left - of_nat ?s)" using "1.IH" [OF False calls refl m(1)] .
    also have "\<dots> = unat left - ?s"
    proof -
      have "unat (of_nat ?s :: u32) = ?s" using unat_i32_less [of left] by (intro unat_of_nat_u32) simp
      then show ?thesis by (simp add: unat_sub word_le_nat_alt)
    qed
    finally show ?thesis using m(2) by simp
  qed (use "1.prems" in \<open>simp add: sleep_loop.simps\<close>)
qed

lemma delete_all_frees:
  "distinct as \<Longrightarrow> (\<And>a. a \<in> set as \<Longrightarrow> h a \<noteq> None) \<Longrightarrow> delete_all as h = Inr (\<lambda>a. if a \<in> set as then None else h a)"
proof (induction as arbitrary: h)
  case (Cons a as)
  have "delete_all as (h(a := None)) = Inr (\<lambda>b. if b \<in> set as then None else (h(a := None)) b)"
    using Cons.prems by (intro Cons.IH) auto
  moreover have "h a \<noteq> None" using Cons.prems by simp
  ultimately show ?case by (auto simp: fun_eq_iff)
qed simp

lemma ClearHeapElems_frees:
  assumes "distinct as" "\<And>a. a \<in> set as \<Longrightarrow> h a \<noteq> None"
  shows "ClearHeapElemsInSequentialContainer as h = Inr ([], \<lambda>a. if a \<in> set as then None else h a)"
  using assms by (simp add: ClearHeapElemsInSequentialContainer_def delete_all_frees)

lemma ClearHeapElems_map_frees:
  assumes "distinct (map snd m)" "\<And>a. a \<in> snd ` set m \<Longrightarrow> h a \<noteq> None"
  shows "ClearHeapElemsInAssociativeContainer m h = Inr ([], \<lambda>a. if a \<in> snd ` set m then None else h a)"
  using delete_all_frees [OF assms(1), of h] assms(2) by (simp add: ClearHeapElemsInAssociativeContainer_def)

lemma permanent_runs:
  "closures w a = Some \<lparr>ec_cb = cb, ec_self_deleting = False\<rparr> \<Longrightarrow> (\<And>x. cb x = Inr (f x)) \<Longrightarrow>
     run_times n a w = Inr (w\<lparr>user_state := (f ^^ n) (user_state w)\<rparr>)"
proof (induction n arbitrary: w)
  case (Suc n)
  then show ?case by (simp add: EasyCallback_Run_def funpow_swap1)
qed simp

section \<open>Properties\<close>

text \<open>
  C40: The text of an integer, in any of the four number systems, denotes that integer, for signed and
  unsigned types of every width. The one exception is the smallest integer of a signed type.
\<close>

theorem integer_text_roundtrip:
  fixes v :: "'a::len word"
  assumes "base \<in> {2, 8, 10, 16}" "is_signed \<Longrightarrow> sint v \<noteq> - (2 ^ (LENGTH('a) - 1))"
  shows "\<exists>s. ConvertToStringFrom is_signed v base = Inr s \<and> text_value base s = integer_value is_signed v"
proof (cases "v = 0")
  case True
  then show ?thesis
    by (simp add: ConvertToStringFrom_def integer_value_def text_value_def digits_value_def char_digit_def)
next
  case False
  show ?thesis
  proof (cases "integer_value is_signed v < 0")
    case True
    then have s: "is_signed" "sint v < 0" by (auto simp: integer_value_def split: if_splits)
    then have "sint (NOT (v - 1)) = - sint v" using assms(2) by (intro negated_value)
    then show ?thesis using False True s assms(1)
      by (simp add: ConvertToStringFrom_def digits_loop_list text_value_digits integer_value_def del: insert_iff)
  next
    case nonneg: False
    then show ?thesis using False assms(1)
      by (simp add: ConvertToStringFrom_def digits_loop_list text_value_digits del: insert_iff)
  qed
qed

theorem integer_text_roundtrip_witness:
  "\<exists>s. ConvertToStringFrom True (- 42 :: i32) 10 = Inr s \<and> text_value 10 s = - 42"
  using integer_text_roundtrip [of 10 True "- 42 :: i32"] by (simp add: integer_value_def)

text \<open>The smallest integer of a signed type is its own negative: only the sign is printed.\<close>

theorem smallest_integer_text:
  assumes "base \<in> {2, 8, 10, 16}" "sint (v :: 'a::len word) = - (2 ^ (LENGTH('a) - 1))"
  shows "ConvertToStringFrom True v base = Inr ''-''"
proof -
  have "v + v = word_of_int (sint v + sint v)" by simp
  moreover have "sint v + sint v = - (2 ^ LENGTH('a))"
    unfolding assms(2) by (cases "LENGTH('a)") simp_all
  ultimately have "v + v = 0" by (simp only: of_int_minus of_int_power of_int_numeral word_exp_length_eq_0 minus_zero)
  then have "- v = v" by (rule minus_unique)
  moreover have "NOT (v - 1) = - v" by (simp add: not_eq_complement)
  ultimately have "NOT (v - 1) = v" by (simp only:)
  moreover have "sint v < 0" "v \<noteq> 0" using assms(2) by auto
  ultimately show ?thesis using assms(1)
    by (simp add: ConvertToStringFrom_def integer_value_def digits_loop_0 del: insert_iff)
qed

text \<open>
  A closure made by \<^verbatim>\<open>NewCallback\<close> runs once: running it again uses a deleted object. One made
  by \<^verbatim>\<open>NewPermanentCallback\<close> can run any number of times.
\<close>

theorem closures_run:
  assumes "\<And>x. cb x = Inr (f x)"
  shows "(case NewCallback cb w of (a, w) \<Rightarrow>
      \<exists>w'. EasyCallback_Run a w = Inr w' \<and> user_state w' = f (user_state w) \<and> EasyCallback_Run a w' = Inl Dangling_pointer)
    \<and> (case NewPermanentCallback cb w of (a, w) \<Rightarrow>
      \<forall>n. run_times n a w = Inr (w\<lparr>user_state := (f ^^ n) (user_state w)\<rparr>))"
  using assms permanent_runs [of "snd (NewPermanentCallback cb w)" "next_closure w" cb f]
  by (simp add: NewCallback_def NewPermanentCallback_def EasyCallback_new_def EasyCallback_Run_def)

theorem closures_run_witness:
  "case NewCallback (\<lambda>n. Inr (n + 1)) \<lparr>closures = Map.empty, next_closure = 0, user_state = 5 :: nat\<rparr> of (a, w) \<Rightarrow>
      \<exists>w'. EasyCallback_Run a w = Inr w' \<and> user_state w' = 6 \<and> EasyCallback_Run a w' = Inl Dangling_pointer"
  using closures_run [of "\<lambda>n. Inr (n + 1)" "\<lambda>n. n + 1" "\<lparr>closures = Map.empty, next_closure = 0, user_state = 5 :: nat\<rparr>"]
  by (simp add: NewCallback_def EasyCallback_new_def)

end
