(* ===== verification/Spec2Isabelle.thy ===== *)
theory Spec2Isabelle
  imports City_Crc Rpc_Contract Channel_Life Server_Lifecycle Rpc_Client Rpc_Util
begin

text \<open>
  A verification development of \<^verbatim>\<open>gboost_rpc\<close>, a library for remote procedure calls over TCP on top of
  \<^verbatim>\<open>boost::asio\<close> and protocol buffers. It models the library itself, \<^verbatim>\<open>src/rpc\<close>, class by class.

  \<^bold>\<open>The program.\<close> A client (\<^verbatim>\<open>RPCClientImpl\<close>) owns one channel and a pool of the calls that wait for an
  answer (\<^verbatim>\<open>SessionManager\<close>). A call gets a fresh sequence number; its header (\<^verbatim>\<open>RPCMetaData\<close>: sequence number,
  hash of the service's name, method number, length) and its request become one frame (\<^verbatim>\<open>RPCData\<close>), which is queued
  on the channel (\<^verbatim>\<open>ClientRPCChannel\<close>). The server (\<^verbatim>\<open>RPCServerImpl\<close>) accepts connections, hands each to one of its
  dispatchers (\<^verbatim>\<open>NetworkDispatcher\<close>), cuts the bytes that arrive on a channel (\<^verbatim>\<open>ServerRPCChannel\<close>) into frames,
  finds the service by its number, calls it, and sends the response back under the header of the request. The
  client matches the response with the waiting call by the sequence number and runs its closure.

  \<^bold>\<open>How the model reads.\<close> A class is a record and its methods are functions on it, under their own names
  (a prefix is added where two classes use the same name). An operation that can end the process returns
  \<open>fault + state\<close>: a failed \<^verbatim>\<open>CHECK\<close>, \<^verbatim>\<open>LOG(FATAL)\<close>, a null or dangling pointer, an index out of range and a wait
  that nobody ends are values of \<open>fault\<close>. Machine integers are words of their width. Objects that are shared by
  plain pointers live on explicit heaps, maps from addresses. Calls into \<^verbatim>\<open>boost::asio\<close> are recorded in the order
  they are made, and their completions are the steps of the model, in any order. Code that is not in the repository
  is a parameter: the protobuf runtime (\<open>wire_runtime\<close>, \<open>rpc_codec\<close>) with its documented laws as the locales
  \<open>wire_format\<close> and \<open>message_codec\<close>, interpreted on a concrete runtime; the user's services and closures; the parsing of
  addresses, the outcome of listening and connecting; and the instruction \<^verbatim>\<open>_mm_crc32_u64\<close>.

  \<^bold>\<open>The theories.\<close>
  \<^item> \<^verbatim>\<open>Rpc_Prelude\<close>: machine types (\<^verbatim>\<open>data_types.h\<close>), faults and results, pointers, byte order, words as counters.
  \<^item> \<^verbatim>\<open>City_Hash\<close> and \<^verbatim>\<open>City_Crc\<close>: \<^verbatim>\<open>detail/city.h\<close> and \<^verbatim>\<open>detail/city.cc\<close>. A load outside the buffer gives \<open>None\<close>, so that
    having a value means staying inside. Shown: every hash reads only its input; the unrolled loop is two rounds of
    the plain one; the 32-bit mixers are injective.
  \<^item> \<^verbatim>\<open>Wire_Format\<close>: the parts of the protobuf runtime that generated code calls, as the locale \<open>wire_format\<close>, and
    a runtime that has its laws. \<^verbatim>\<open>Rpc_Meta\<close>: the generated class (\<^verbatim>\<open>detail/protocol/rpc.pb.h\<close>, \<^verbatim>\<open>rpc.pb.cc\<close>). Shown: every message
    the class can build is well formed; parsing ends on every input; a serialized header parses to itself; the size
    announced is the size written.
  \<^item> \<^verbatim>\<open>Rpc_Data\<close>: \<^verbatim>\<open>detail/rpc_data.h\<close> and \<^verbatim>\<open>.cc\<close>. Shown: the buffer of a message is its frame; a frame is taken
    from pieces of any size, unless a piece ends inside the header, which fails a check; arbitrary bytes make progress
    or end in a fault or a refusal, never in a loop.
  \<^item> \<^verbatim>\<open>Rpc_Channel\<close>: \<^verbatim>\<open>detail/rpc_channel.h\<close> and \<^verbatim>\<open>.cc\<close>, \<^verbatim>\<open>detail/server_rpc_channel.cc\<close>. The locale
    \<open>package_receiver\<close> says what a channel needs of its receiver and gives the delivery of a stream; \<open>recycler\<close> says what it
    needs of \<^verbatim>\<open>RecycleRPCData\<close> and gives the order of the writes. Both are interpreted for the client and the server.
  \<^item> \<^verbatim>\<open>Std_Map\<close>: \<^verbatim>\<open>std::map\<close> as the pools use it (locale \<open>pool\<close>). \<^verbatim>\<open>Client_Session\<close>: \<^verbatim>\<open>detail/client_session.h\<close>,
    \<^verbatim>\<open>.cc\<close> and \<^verbatim>\<open>GetServiceID\<close> of \<^verbatim>\<open>detail/helper.h\<close> (its \<^verbatim>\<open>CloseSocket\<close> is in \<^verbatim>\<open>Rpc_Channel\<close>). \<^verbatim>\<open>Client_Channel\<close>: \<^verbatim>\<open>detail/client_rpc_channel.h\<close>, \<^verbatim>\<open>.cc\<close> and
    \<^verbatim>\<open>RPCClientImpl::ReceivePackage\<close>. Shown: a call is saved and queued; responses run the closures they belong to; a
    reconnection sends the waiting calls again; a client that goes away frees them once each; and two ways in which the client uses a deleted or stale message.
  \<^item> \<^verbatim>\<open>Rpc_Server\<close>: registration, dispatch and answers of \<^verbatim>\<open>detail/rpc_server_impl.cc\<close>. Shown: requests reach their services
    in order; responses of services that answer at once are sent in the order of the requests; one request for an unknown
    service ends the server. \<^verbatim>\<open>Rpc_Calls\<close>: a call from the client to its closure, through both channels.
  \<^item> \<^verbatim>\<open>Rpc_Flow\<close> and \<^verbatim>\<open>Rpc_Connection\<close>: a client and a server with the bytes between them, as a step relation whose
    events are the operations above: a call is issued, a write or a read of any number of bytes completes, a service answers
    at once or later, the connection breaks and is made anew. Shown for all orders of events: nothing faults, every call gets
    its own answer and at most once, nothing is lost, and the connection, also a broken one, can always come to rest with
    every call answered or kept by its service. \<^verbatim>\<open>Rpc_Flow\<close> holds the
    two ends, again as interpretations of \<open>package_receiver\<close>, and \<^verbatim>\<open>Rpc_Connection\<close> the invariant over both.
    \<^verbatim>\<open>Rpc_Contract\<close> states what a user of the library sees as an abstract step relation (calls are made, answers given, calls return)
    and shows that the connection is a refinement of it, by the simulation of the locale \<open>simulated\<close>.
  \<^item> \<^verbatim>\<open>Rpc_Events\<close>: \<^verbatim>\<open>atomic_event.h\<close>, \<^verbatim>\<open>sync_event.h\<close>, \<^verbatim>\<open>sem_event.h\<close>, each a labelled step relation over its threads.
    The locale \<open>semaphore_implementation\<close> gives that such a relation is a counting semaphore, and is interpreted on all three.
    Shown besides: no wake-up is lost, \<^verbatim>\<open>Wait\<close> returns, and what the two timed waits really do.
  \<^item> \<^verbatim>\<open>Network_Dispatcher\<close>: \<^verbatim>\<open>detail/network_dispatcher.h\<close>, \<^verbatim>\<open>.cc\<close> and \<^verbatim>\<open>detail/ref_count.h\<close>. Shown: counts equal owners,
    nothing is used after it was deleted and the pool keeps its bound, for all orders of completions; the handshake of \<^verbatim>\<open>Stop\<close>
    and \<^verbatim>\<open>Loop\<close> in all interleavings. The locale \<open>handler_effects\<close> carries the frame properties of handlers.
    \<^verbatim>\<open>Channel_Life\<close>: the life of a channel there is that of the channel in \<^verbatim>\<open>Rpc_Channel\<close>, with the same reads and
    writes begun, one write at most by any handler.
  \<^item> \<^verbatim>\<open>Server_Lifecycle\<close>: construction, \<^verbatim>\<open>Init\<close>, accepting, running and stopping of \<^verbatim>\<open>RPCServerImpl\<close>. Shown: connections
    go to the dispatchers in turn; \<^verbatim>\<open>Stop\<close> waits for a signal. \<^verbatim>\<open>Rpc_Client\<close>: connecting and destruction of \<^verbatim>\<open>RPCClientImpl\<close>.
    Shown: the outcome of \<^verbatim>\<open>CreateRPCClient\<close> in all cases; a connected client is destroyed cleanly.
  \<^item> \<^verbatim>\<open>Rpc_Util\<close>: \<^verbatim>\<open>detail/util.h\<close> and \<^verbatim>\<open>callback.h\<close>. Shown: the text of an integer denotes it, with one exception.

  \<^bold>\<open>Bounds and loops.\<close> Structural recursion or a measure ends every loop except three. The parser of the header is a
  partial function, and is shown to be defined on every input under the laws of the runtime. The loop of
  \<^verbatim>\<open>Connect\<close> takes the outcomes of the attempts one by one; it is shown to end after the first. The loop of
  \<^verbatim>\<open>SleepInSeconds\<close> takes the interruptions. Counters are 32-bit integers: the theorems on reference counts and events
  assume fewer than about \<open>2 ^ 27\<close> to \<open>2 ^ 31\<close> events, as their statements say; sequence numbers are 64-bit words and the
  theorems on calls assume that they have not wrapped.

  \<^bold>\<open>Not modelled.\<close> Log output; the destructors with empty bodies and that of \<^verbatim>\<open>Semaphore\<close>; data races on flags that the source
  shares without a lock (\<^verbatim>\<open>need_stop_\<close>, \<^verbatim>\<open>keep_working_\<close>), whose statements are taken as atomic; a Windows build, and
  \<^verbatim>\<open>htonl\<close> on a big-endian host (the loads of the hashes are modelled for both orders); the abstract interface classes (\<^verbatim>\<open>rpc_client.h\<close>, \<^verbatim>\<open>rpc_server.h\<close>, \<^verbatim>\<open>trivial.cc\<close>), which have no behaviour;
  the programs under \<^verbatim>\<open>benchmark\<close>, \<^verbatim>\<open>test\<close> and \<^verbatim>\<open>unit.test\<close> and their generated messages.
\<close>

end
